(* ===== verification/Kernel_Prelude.thy ===== *)
theory Kernel_Prelude
  imports Main "HOL-Library.Word"
begin

text \<open>
  Shared vocabulary of the development: the names of the machine types, the outcome of a piece of
  kernel code, the combinators that sequence such code, and the generic lemmas on words, lists and
  linked chains that the component theories use.

  A kernel routine is a function from the kernel state to an \<open>outcome\<close>:
  \<^item> \<open>Ret a s\<close>: it returned \<open>a\<close> and left the state \<open>s\<close>;
  \<^item> \<open>Sleeps s\<close>: it gave up the CPU inside \<open>sleep\<close>/\<open>sched\<close>, in state \<open>s\<close>; when the process is
    dispatched again it continues in the wait loop it slept in, and each wait loop is a definition
    of its own that can be run again from there;
  \<^item> \<open>Stop e\<close>: the kernel stopped, in \<open>panic\<close> with a message, at an access to which C gives no
    meaning (a null pointer, an index outside an array), or in a loop that does not end.
\<close>

section \<open>Types\<close>

type_synonym u8 = "8 word"
type_synonym u16 = "16 word"
type_synonym uint = "32 word"
type_synonym bmem = "uint \<Rightarrow> u8"

datatype stop = Panic string | Fault string | Hang string

datatype ('s, 'a) outcome = Ret 'a 's | Sleeps 's | Stop stop

type_synonym ('s, 'a) km = "'s \<Rightarrow> ('s, 'a) outcome"

section \<open>Sequencing kernel code\<close>

definition kret :: "'a \<Rightarrow> ('s, 'a) km" where
  "kret a = (\<lambda>s. Ret a s)"

definition kbind :: "('s, 'a) km \<Rightarrow> ('a \<Rightarrow> ('s, 'b) km) \<Rightarrow> ('s, 'b) km" where
  "kbind m f = (\<lambda>s. case m s of Ret a s' \<Rightarrow> f a s' | Sleeps s' \<Rightarrow> Sleeps s' | Stop e \<Rightarrow> Stop e)"

definition kthen :: "('s, 'a) km \<Rightarrow> ('s, 'b) km \<Rightarrow> ('s, 'b) km" where
  "kthen m n = kbind m (\<lambda>_. n)"

definition kget :: "('s \<Rightarrow> 'a) \<Rightarrow> ('s, 'a) km" where
  "kget f = (\<lambda>s. Ret (f s) s)"

definition kmod :: "('s \<Rightarrow> 's) \<Rightarrow> ('s, unit) km" where
  "kmod f = (\<lambda>s. Ret () (f s))"

definition kpanic :: "string \<Rightarrow> ('s, 'a) km" where
  "kpanic msg = (\<lambda>s. Stop (Panic msg))"

definition kfault :: "string \<Rightarrow> ('s, 'a) km" where
  "kfault msg = (\<lambda>s. Stop (Fault msg))"

definition khang :: "string \<Rightarrow> ('s, 'a) km" where
  "khang msg = (\<lambda>s. Stop (Hang msg))"

text \<open>A pointer that the code dereferences: null has no meaning.\<close>

definition kderef :: "string \<Rightarrow> 'p option \<Rightarrow> ('s, 'p) km" where
  "kderef what p = (case p of None \<Rightarrow> kfault what | Some q \<Rightarrow> kret q)"

text \<open>
  A sequence of statements (\<open>kdo2\<close>: with a final expression for the returned value), and a counting
  loop with no early exit.
\<close>

fun kdo :: "('s, unit) km list \<Rightarrow> ('s, unit) km" where
  "kdo [] = kret ()"
| "kdo (m # ms) = kthen m (kdo ms)"

fun kdo2 :: "('s, unit) km list \<Rightarrow> ('s, 'a) km \<Rightarrow> ('s, 'a) km" where
  "kdo2 [] r = r"
| "kdo2 (m # ms) r = kthen m (kdo2 ms r)"

fun kfor :: "'x list \<Rightarrow> ('x \<Rightarrow> ('s, unit) km) \<Rightarrow> ('s, unit) km" where
  "kfor [] f = kret ()"
| "kfor (x # xs) f = kthen (f x) (kfor xs f)"

named_theorems kmonad \<open>unfolding rules of the sequencing combinators, applied to a state\<close>

lemma kret_apply [kmonad]: "kret a s = Ret a s"
  by (simp add: kret_def)

lemma kget_apply [kmonad]: "kget f s = Ret (f s) s"
  by (simp add: kget_def)

lemma kmod_apply [kmonad]: "kmod f s = Ret () (f s)"
  by (simp add: kmod_def)

lemma kpanic_apply [kmonad]: "kpanic msg s = Stop (Panic msg)"
  by (simp add: kpanic_def)

lemma kfault_apply [kmonad]: "kfault msg s = Stop (Fault msg)"
  by (simp add: kfault_def)

lemma khang_apply [kmonad]: "khang msg s = Stop (Hang msg)"
  by (simp add: khang_def)

lemma kderef_apply [kmonad]:
  "kderef what p s = (case p of None \<Rightarrow> Stop (Fault what) | Some q \<Rightarrow> Ret q s)"
  by (simp add: kderef_def kfault_def kret_def split: option.splits)

lemma kbind_Ret [kmonad]: "m s = Ret a s' \<Longrightarrow> kbind m f s = f a s'"
  by (simp add: kbind_def)

lemma kbind_Sleeps [kmonad]: "m s = Sleeps s' \<Longrightarrow> kbind m f s = Sleeps s'"
  by (simp add: kbind_def)

lemma kbind_Stop [kmonad]: "m s = Stop e \<Longrightarrow> kbind m f s = Stop e"
  by (simp add: kbind_def)

lemma kthen_Ret [kmonad]: "m s = Ret a s' \<Longrightarrow> kthen m n s = n s'"
  by (simp add: kthen_def kbind_def)

lemma kthen_Sleeps [kmonad]: "m s = Sleeps s' \<Longrightarrow> kthen m n s = Sleeps s'"
  by (simp add: kthen_def kbind_def)

lemma kthen_Stop [kmonad]: "m s = Stop e \<Longrightarrow> kthen m n s = Stop e"
  by (simp add: kthen_def kbind_def)

lemma kbind_eq_Ret:
  "kbind m f s = Ret b t \<longleftrightarrow> (\<exists>a u. m s = Ret a u \<and> f a u = Ret b t)"
  by (auto simp: kbind_def split: outcome.splits)

lemma kthen_eq_Ret:
  "kthen m n s = Ret b t \<longleftrightarrow> (\<exists>a u. m s = Ret a u \<and> n u = Ret b t)"
  by (auto simp: kthen_def kbind_eq_Ret)

lemma kbind_eq_Sleeps:
  "kbind m f s = Sleeps t \<longleftrightarrow> m s = Sleeps t \<or> (\<exists>a u. m s = Ret a u \<and> f a u = Sleeps t)"
  by (auto simp: kbind_def split: outcome.splits)

lemma kthen_eq_Sleeps:
  "kthen m n s = Sleeps t \<longleftrightarrow> m s = Sleeps t \<or> (\<exists>a u. m s = Ret a u \<and> n u = Sleeps t)"
  by (auto simp: kthen_def kbind_eq_Sleeps)

lemma kderef_eq_Ret: "kderef what p s = Ret q t \<longleftrightarrow> p = Some q \<and> t = s"
  by (auto simp: kderef_def kfault_def kret_def split: option.splits)

lemma kderef_not_Sleeps [simp]: "kderef what p s \<noteq> Sleeps t"
  by (auto simp: kderef_def kfault_def kret_def split: option.splits)

lemmas kinv = kbind_eq_Ret kthen_eq_Ret kbind_eq_Sleeps kthen_eq_Sleeps kderef_eq_Ret
  kret_apply kget_apply kmod_apply kpanic_apply kfault_apply khang_apply

text \<open>Loops that keep an invariant of the state: induction over the range once and for all.\<close>

lemma kfor_invariant:
  assumes "\<And>x s. x \<in> set xs \<Longrightarrow> I s \<Longrightarrow> \<exists>s'. f x s = Ret () s' \<and> I s'" and "I s"
  shows "\<exists>s'. kfor xs f s = Ret () s' \<and> I s'"
  using assms
proof (induction xs arbitrary: s)
  case Nil
  then show ?case by (simp add: kmonad)
next
  case (Cons x xs)
  then obtain s1 where "f x s = Ret () s1" "I s1" by (metis list.set_intros(1))
  moreover then obtain s2 where "kfor xs f s1 = Ret () s2" "I s2"
    using Cons.IH [of s1] Cons.prems(1) by (meson list.set_intros(2))
  ultimately show ?case by (simp add: kmonad)
qed

lemma kthen_kret [simp]: "kthen m (kret ()) = m"
  by (rule ext) (simp add: kthen_def kbind_def kret_def split: outcome.split)

lemma kfor_upto:
  assumes "\<And>i s. k \<le> i \<Longrightarrow> i < n \<Longrightarrow> I i s \<Longrightarrow> \<exists>s'. f i s = Ret () s' \<and> I (Suc i) s'" and "I k s" "k \<le> n"
  shows "\<exists>s'. kfor [k..<n] f s = Ret () s' \<and> I n s'"
  using assms
proof (induction "n - k" arbitrary: k s)
  case 0
  then show ?case by (simp add: kmonad)
next
  case (Suc m)
  then have k: "k < n" by simp
  then obtain t where t: "f k s = Ret () t" "I (Suc k) t" using Suc.prems by blast
  have "\<exists>s'. kfor [Suc k..<n] f t = Ret () s' \<and> I n s'"
  proof (rule Suc.hyps(1))
    show "\<exists>s'. f i u = Ret () s' \<and> I (Suc i) s'" if "Suc k \<le> i" "i < n" "I i u" for i u
      using Suc.prems(1) [of i u] that by simp
  qed (use Suc.hyps(2) k t(2) in auto)
  with t k show ?case by (simp add: upt_conv_Cons kmonad)
qed

lemma kfor_fold:
  assumes "\<And>x s. x \<in> set xs \<Longrightarrow> f x s = Ret () (g x s)"
  shows "kfor xs f s = Ret () (fold g xs s)"
  using assms by (induction xs arbitrary: s) (simp_all add: kmonad)

section \<open>Chains of nodes linked through a next pointer\<close>

text \<open>
  \<open>chain nxt p xs\<close>: following \<open>nxt\<close> from the pointer \<open>p\<close> visits exactly the nodes \<open>xs\<close> and then
  meets the null pointer. The process table, the page allocator and the disk queue all keep such
  chains.
\<close>

primrec chain :: "('a \<Rightarrow> 'a option) \<Rightarrow> 'a option \<Rightarrow> 'a list \<Rightarrow> bool" where
  "chain nxt p [] \<longleftrightarrow> p = None"
| "chain nxt p (x # xs) \<longleftrightarrow> p = Some x \<and> chain nxt (nxt x) xs"

lemma chain_None [simp]: "chain nxt None xs \<longleftrightarrow> xs = []"
  by (cases xs) auto

lemma chain_Some: "chain nxt (Some x) xs \<longleftrightarrow> (\<exists>ys. xs = x # ys \<and> chain nxt (nxt x) ys)"
  by (cases xs) auto

lemma chain_upd [simp]: "x \<notin> set xs \<Longrightarrow> chain (nxt(x := q)) p xs \<longleftrightarrow> chain nxt p xs"
  by (induction xs arbitrary: p) auto

lemma chain_cong: "(\<And>x. x \<in> set xs \<Longrightarrow> f x = g x) \<Longrightarrow> chain f p xs \<longleftrightarrow> chain g p xs"
  by (induction xs arbitrary: p) auto

lemma chain_unique: "chain nxt p xs \<Longrightarrow> chain nxt p ys \<Longrightarrow> xs = ys"
  by (induction xs arbitrary: p ys) (auto simp: chain_Some)

text \<open>The segment of a chain up to a node, and its last link redirected.\<close>

lemma chain_snoc:
  assumes "chain nxt p (xs @ [x])" "distinct (xs @ [x])" "y \<notin> set (xs @ [x])"
  shows "chain (nxt(x := Some y, y := None)) p (xs @ [x, y])"
  using assms by (induction xs arbitrary: p) auto

lemma chain_append:
  assumes "chain nxt p (xs @ [x])" "distinct (xs @ [x])" "chain nxt q ys" "x \<notin> set ys"
  shows "chain (nxt(x := q)) p (xs @ x # ys)"
  using assms by (induction xs arbitrary: p) auto

lemma chain_suffix: "chain nxt p (xs @ x # ys) \<Longrightarrow> chain nxt (nxt x) ys"
  by (induction xs arbitrary: p) auto

lemma chain_remove:
  assumes "chain nxt p (xs @ x # y # ys)" "distinct (xs @ x # y # ys)"
  shows "chain (nxt(x := nxt y)) p (xs @ x # ys)"
  using assms by (induction xs arbitrary: p) auto

lemma chain_last: "chain nxt p xs \<Longrightarrow> xs \<noteq> [] \<Longrightarrow> nxt (last xs) = None"
  by (induction xs arbitrary: p) (auto split: if_splits)

end
