(* ===== verification/CString.thy ===== *)
theory CString
  imports Kernel_Prelude
begin

unbundle bit_operations_syntax

text \<open>
  \<open>string.c\<close> on byte-addressed memory: \<open>memset\<close> (with its 4-byte \<open>stosl\<close> path), \<open>memcmp\<close>,
  \<open>memmove\<close> (with its backward loop), \<open>memcpy\<close>, \<open>strncmp\<close>, \<open>strncpy\<close>, \<open>safestrcpy\<close>, \<open>strlen\<close>; and the
  \<open>rep stosb\<close> and \<open>rep stosl\<close> of \<open>x86.h\<close>. Pointers are 32-bit words, so that address arithmetic
  wraps as on the machine; a counted loop runs on the number of iterations left.
\<close>

section \<open>The routines\<close>

definition store32 :: "bmem \<Rightarrow> uint \<Rightarrow> uint \<Rightarrow> bmem" where
  "store32 m a w = m(a := ucast w, a + 1 := ucast (drop_bit 8 w),
     a + 2 := ucast (drop_bit 16 w), a + 3 := ucast (drop_bit 24 w))"

definition load32 :: "bmem \<Rightarrow> uint \<Rightarrow> uint" where
  "load32 m a = ucast (m a) OR push_bit 8 (ucast (m (a + 1)))
     OR push_bit 16 (ucast (m (a + 2))) OR push_bit 24 (ucast (m (a + 3)))"

fun stosb :: "nat \<Rightarrow> bmem \<Rightarrow> uint \<Rightarrow> u8 \<Rightarrow> bmem" where
  "stosb 0 m a v = m"
| "stosb (Suc n) m a v = stosb n (m(a := v)) (a + 1) v"

fun stosl :: "nat \<Rightarrow> bmem \<Rightarrow> uint \<Rightarrow> uint \<Rightarrow> bmem" where
  "stosl 0 m a w = m"
| "stosl (Suc n) m a w = stosl n (store32 m a w) (a + 4) w"

definition memset :: "bmem \<Rightarrow> uint \<Rightarrow> uint \<Rightarrow> uint \<Rightarrow> bmem" where
  "memset m dst c n =
     (if dst mod 4 = 0 \<and> n mod 4 = 0
      then let c = c AND 0xFF in
        stosl (unat (n div 4)) m dst (push_bit 24 c OR push_bit 16 c OR push_bit 8 c OR c)
      else stosb (unat n) m dst (ucast c))"

fun memcmp_loop :: "nat \<Rightarrow> bmem \<Rightarrow> uint \<Rightarrow> uint \<Rightarrow> int" where
  "memcmp_loop 0 m s1 s2 = 0"
| "memcmp_loop (Suc n) m s1 s2 =
     (if m s1 \<noteq> m s2 then uint (m s1) - uint (m s2) else memcmp_loop n m (s1 + 1) (s2 + 1))"

definition memcmp :: "bmem \<Rightarrow> uint \<Rightarrow> uint \<Rightarrow> uint \<Rightarrow> int" where
  "memcmp m v1 v2 n = memcmp_loop (unat n) m v1 v2"

fun move_up :: "nat \<Rightarrow> bmem \<Rightarrow> uint \<Rightarrow> uint \<Rightarrow> bmem" where
  "move_up 0 m d s = m"
| "move_up (Suc n) m d s = move_up n (m(d := m s)) (d + 1) (s + 1)"

fun move_down :: "nat \<Rightarrow> bmem \<Rightarrow> uint \<Rightarrow> uint \<Rightarrow> bmem" where
  "move_down 0 m d s = m"
| "move_down (Suc n) m d s = move_down n (m(d - 1 := m (s - 1))) (d - 1) (s - 1)"

definition memmove :: "bmem \<Rightarrow> uint \<Rightarrow> uint \<Rightarrow> uint \<Rightarrow> bmem" where
  "memmove m dst src n =
     (if src < dst \<and> src + n > dst then move_down (unat n) m (dst + n) (src + n)
      else move_up (unat n) m dst src)"

definition memcpy :: "bmem \<Rightarrow> uint \<Rightarrow> uint \<Rightarrow> uint \<Rightarrow> bmem" where
  "memcpy m dst src n = memmove m dst src n"

fun strncmp_loop :: "nat \<Rightarrow> bmem \<Rightarrow> uint \<Rightarrow> uint \<Rightarrow> int" where
  "strncmp_loop 0 m p q = 0"
| "strncmp_loop (Suc n) m p q =
     (if m p \<noteq> 0 \<and> m p = m q then strncmp_loop n m (p + 1) (q + 1)
      else uint (m p) - uint (m q))"

definition strncmp :: "bmem \<Rightarrow> uint \<Rightarrow> uint \<Rightarrow> uint \<Rightarrow> int" where
  "strncmp m p q n = strncmp_loop (unat n) m p q"

fun strncpy_loop :: "nat \<Rightarrow> bmem \<Rightarrow> uint \<Rightarrow> uint \<Rightarrow> bmem" where
  "strncpy_loop 0 m s t = m"
| "strncpy_loop (Suc n) m s t =
     (let c = m t; m' = m(s := c) in
      if c \<noteq> 0 then strncpy_loop n m' (s + 1) (t + 1) else stosb n m' (s + 1) 0)"

definition strncpy :: "bmem \<Rightarrow> uint \<Rightarrow> uint \<Rightarrow> int \<Rightarrow> bmem" where
  "strncpy m s t n = strncpy_loop (nat n) m s t"

fun safestrcpy_loop :: "nat \<Rightarrow> bmem \<Rightarrow> uint \<Rightarrow> uint \<Rightarrow> bmem" where
  "safestrcpy_loop 0 m s t = m(s := 0)"
| "safestrcpy_loop (Suc n) m s t =
     (let c = m t; m' = m(s := c) in
      if c \<noteq> 0 then safestrcpy_loop n m' (s + 1) (t + 1) else m'(s + 1 := 0))"

definition safestrcpy :: "bmem \<Rightarrow> uint \<Rightarrow> uint \<Rightarrow> int \<Rightarrow> bmem" where
  "safestrcpy m s t n = (if n \<le> 0 then m else safestrcpy_loop (nat (n - 1)) m s t)"

partial_function (option) strlen_from :: "bmem \<Rightarrow> uint \<Rightarrow> nat \<Rightarrow> nat option" where
  "strlen_from m s n = (if m (s + of_nat n) \<noteq> 0 then strlen_from m s (Suc n) else Some n)"

definition strlen :: "bmem \<Rightarrow> uint \<Rightarrow> nat option" where
  "strlen m s = strlen_from m s 0"

section \<open>Address ranges\<close>

text \<open>\<open>a - d\<close> read as an unsigned number is the offset of \<open>a\<close> in a block that starts at \<open>d\<close>.\<close>

lemma unat_minus_1 [simp]: "unat (- 1 :: uint) = 4294967295"
  by (simp add: unsigned_minus_1_eq_mask mask_eq_exp_minus_1)

lemma unat_of_nat32 [simp]: "i < 4294967296 \<Longrightarrow> unat (of_nat i :: uint) = i"
  by (rule of_nat_inverse) auto

lemma unat_less32 [simp]: "unat (a :: uint) < 4294967296"
  using unsigned_less [where ?'a = nat, of a] by simp

lemma offset_Suc: "(a :: uint) \<noteq> d \<Longrightarrow> unat (a - (d + 1)) = unat (a - d) - 1"
  using unat_minus_one [of "a - d"] by (simp add: diff_diff_eq)

lemma in_block_Suc:
  assumes "n < 4294967296"
  shows "unat (a - (d + 1) :: uint) < n \<longleftrightarrow> a \<noteq> d \<and> unat (a - d) < Suc n"
proof (cases "a = d")
  case True
  with assms show ?thesis by simp
next
  case False
  then have "0 < unat (a - d)" by (simp add: unat_gt_0)
  with False show ?thesis by (auto simp: offset_Suc)
qed

lemma stosb_apply:
  "n \<le> 4294967296 \<Longrightarrow> stosb n m d v a = (if unat (a - d) < n then v else m a)"
proof (induction n arbitrary: m d)
  case 0
  then show ?case by simp
next
  case (Suc n)
  then show ?case by (auto simp: in_block_Suc)
qed

lemma stosb_add: "stosb (i + j) m d v = stosb j (stosb i m d v) (d + of_nat i) v"
  by (induction i arbitrary: m d) (simp_all add: algebra_simps)

lemma stosl_stosb:
  assumes "ucast w = v" "ucast (drop_bit 8 w) = v" "ucast (drop_bit 16 w) = v"
    "ucast (drop_bit 24 w) = v"
  shows "stosl n m d w = stosb (4 * n) m d v"
proof (induction n arbitrary: m d)
  case 0
  then show ?case by simp
next
  case (Suc n)
  have "store32 m d w = stosb 4 m d v"
    using assms by (simp add: store32_def eval_nat_numeral algebra_simps)
  then have "stosl (Suc n) m d w = stosb (4 * n) (stosb 4 m d v) (d + of_nat 4) v"
    using Suc by simp
  also have "\<dots> = stosb (4 + 4 * n) m d v" by (rule stosb_add [symmetric])
  finally show ?case by simp
qed

lemma byte_splat:
  fixes c :: uint
  defines "w \<equiv> push_bit 24 (c AND 0xFF) OR push_bit 16 (c AND 0xFF) OR push_bit 8 (c AND 0xFF)
    OR (c AND 0xFF)"
  shows "ucast w = (ucast c :: u8)" "ucast (drop_bit 8 w) = (ucast c :: u8)"
    "ucast (drop_bit 16 w) = (ucast c :: u8)" "ucast (drop_bit 24 w) = (ucast c :: u8)"
proof -
  have ff: "(0xFF :: uint) = mask 8" by (simp add: mask_eq_exp_minus_1)
  show "ucast w = (ucast c :: u8)" "ucast (drop_bit 8 w) = (ucast c :: u8)"
    "ucast (drop_bit 16 w) = (ucast c :: u8)" "ucast (drop_bit 24 w) = (ucast c :: u8)"
    unfolding w_def ff by (rule bit_word_eqI; auto simp: bit_simps)+
qed

text \<open>\<open>memset\<close>'s two paths do the same: every byte of the block, and no other, becomes the low byte.\<close>

lemma memset_apply:
  "memset m dst c n a = (if a - dst < n then ucast c else m a)"
proof -
  have "memset m dst c n = stosb (unat n) m dst (ucast c)"
  proof (cases "dst mod 4 = 0 \<and> n mod 4 = 0")
    case True
    then have "unat n mod 4 = 0"
      using unat_mod_distrib [of n 4] by simp
    then have "4 * unat (n div 4) = unat n"
      by (auto simp: unat_div_distrib)
    then show ?thesis
      using True unfolding memset_def Let_def stosl_stosb [OF byte_splat] by simp
  next
    case False
    then show ?thesis unfolding memset_def by (simp only: if_False)
  qed
  then show ?thesis by (simp add: stosb_apply less_imp_le word_less_nat_alt)
qed

section \<open>Moving blocks\<close>

lemma move_up_outside:
  "n \<le> 4294967296 \<Longrightarrow> \<not> unat (a - d) < n \<Longrightarrow> move_up n m d s a = m a"
proof (induction n arbitrary: m d s)
  case 0
  then show ?case by simp
next
  case (Suc n)
  then have "a \<noteq> d" by auto
  with Suc show ?case by (simp add: in_block_Suc)
qed

text \<open>
  Copying upwards is right unless the destination starts inside the source block; the hypotheses
  keep both blocks below the top of the address space.
\<close>

lemma move_up_inside:
  assumes "unat s + n < 4294967296" "unat d + n < 4294967296" "unat d \<le> unat s \<or> unat s + n \<le> unat d"
    "i < n"
  shows "move_up n m d s (d + of_nat i) = m (s + of_nat i)"
  using assms
proof (induction n arbitrary: m d s i)
  case 0
  then show ?case by simp
next
  case (Suc n)
  have d1: "unat (d + 1) = unat d + 1" and s1: "unat (s + 1) = unat s + 1"
    using Suc.prems by (simp_all add: unat_plus_if')
  show ?case
  proof (cases i)
    case 0
    have "\<not> unat (d - (d + 1)) < n" using Suc.prems by simp
    then show ?thesis
      using Suc.prems by (simp add: 0 move_up_outside)
  next
    case (Suc j)
    have "move_up n (m(d := m s)) (d + 1) (s + 1) (d + 1 + of_nat j) = (m(d := m s)) (s + 1 + of_nat j)"
      by (rule Suc.IH) (use Suc.prems d1 s1 \<open>i = Suc j\<close> in auto)
    moreover have "s + 1 + of_nat j \<noteq> d"
    proof
      assume "s + 1 + of_nat j = d"
      then have "unat d = unat (s + of_nat i)" using Suc by (simp add: algebra_simps)
      also have "\<dots> = unat s + i" using Suc.prems by (simp add: unat_plus_if')
      finally show False using Suc.prems Suc by auto
    qed
    ultimately show ?thesis using Suc by (simp add: algebra_simps)
  qed
qed

lemma move_down_outside:
  "n < 4294967296 \<Longrightarrow> \<not> unat (a - d) < n \<Longrightarrow> move_down n m (d + of_nat n) s a = m a"
proof (induction n arbitrary: m s)
  case 0
  then show ?case by simp
next
  case (Suc n)
  have "a \<noteq> d + of_nat n"
    using Suc.prems by auto
  with Suc show ?case by (simp add: algebra_simps)
qed

lemma move_down_inside:
  assumes "unat s + n < 4294967296" "unat d + n < 4294967296" "unat s \<le> unat d" "i < n"
  shows "move_down n m (d + of_nat n) (s + of_nat n) (d + of_nat i) = m (s + of_nat i)"
  using assms
proof (induction n arbitrary: m)
  case 0
  then show ?case by simp
next
  case (Suc n)
  let ?m = "m(d + of_nat n := m (s + of_nat n))"
  have step: "move_down (Suc n) m (d + of_nat (Suc n)) (s + of_nat (Suc n))
      = move_down n ?m (d + of_nat n) (s + of_nat n)"
    by (simp add: algebra_simps)
  show ?case
  proof (cases "i = n")
    case True
    then show ?thesis
      using Suc.prems step by (simp add: move_down_outside)
  next
    case False
    have "s + of_nat i \<noteq> d + of_nat n"
    proof
      assume "s + of_nat i = d + of_nat n"
      then have "unat (s + of_nat i) = unat (d + of_nat n)" by simp
      then have "unat s + i = unat d + n"
        using Suc.prems by (simp add: unat_plus_if')
      then show False using Suc.prems False by simp
    qed
    moreover have "move_down n ?m (d + of_nat n) (s + of_nat n) (d + of_nat i) = ?m (s + of_nat i)"
      by (rule Suc.IH) (use Suc.prems False in auto)
    ultimately show ?thesis unfolding step by simp
  qed
qed

lemma memmove_inside:
  assumes "unat src + unat n < 4294967296" "unat dst + unat n < 4294967296" "i < unat n"
  shows "memmove m dst src n (dst + of_nat i) = m (src + of_nat i)"
proof -
  have sn: "unat (src + n) = unat src + unat n" using assms by (simp add: unat_plus_if')
  show ?thesis
  proof (cases "src < dst \<and> src + n > dst")
    case True
    then have "unat src \<le> unat dst" by (simp add: word_less_nat_alt)
    then show ?thesis
      using True assms move_down_inside [of src "unat n" dst i m] by (simp add: memmove_def)
  next
    case False
    then have "unat dst \<le> unat src \<or> unat src + unat n \<le> unat dst"
      by (auto simp: word_less_nat_alt sn not_less)
    with False show ?thesis
      unfolding memmove_def using assms move_up_inside [of src "unat n" dst i m] by (simp only: if_False)
  qed
qed

lemma memmove_outside: "\<not> a - dst < n \<Longrightarrow> memmove m dst src n a = m a"
  using move_down_outside [of "unat n" a dst m "src + n"] move_up_outside [of "unat n" a dst m src]
  by (simp add: memmove_def word_less_nat_alt less_imp_le)

section \<open>Strings\<close>

text \<open>\<open>cstr m a xs\<close>: the bytes \<open>xs\<close>, none of them zero, stand at \<open>a\<close>, followed by a zero byte.\<close>

primrec cstr :: "bmem \<Rightarrow> uint \<Rightarrow> u8 list \<Rightarrow> bool" where
  "cstr m a [] \<longleftrightarrow> m a = 0"
| "cstr m a (x # xs) \<longleftrightarrow> x \<noteq> 0 \<and> m a = x \<and> cstr m (a + 1) xs"

lemma cstr_cong:
  "(\<And>i. i \<le> length xs \<Longrightarrow> m (a + of_nat i) = m' (b + of_nat i)) \<Longrightarrow> cstr m a xs \<longleftrightarrow> cstr m' b xs"
proof (induction xs arbitrary: a b)
  case Nil
  from Nil [of 0] show ?case by simp
next
  case (Cons x xs)
  have "m a = m' b" using Cons.prems [of 0] by simp
  moreover have "cstr m (a + 1) xs \<longleftrightarrow> cstr m' (b + 1) xs"
  proof (rule Cons.IH)
    fix i assume "i \<le> length xs"
    then show "m (a + 1 + of_nat i) = m' (b + 1 + of_nat i)"
      using Cons.prems [of "Suc i"] by (simp add: algebra_simps)
  qed
  ultimately show ?case by simp
qed

lemma cstr_upd: "\<not> unat (b - a) \<le> length xs \<Longrightarrow> length xs < 4294967295 \<Longrightarrow> cstr (m(b := v)) a xs \<longleftrightarrow> cstr m a xs"
  by (rule cstr_cong) auto

lemma cstr_unique: "cstr m a xs \<Longrightarrow> cstr m a ys \<Longrightarrow> xs = ys"
proof (induction xs arbitrary: a ys)
  case Nil
  then show ?case by (cases ys) auto
next
  case (Cons x xs)
  then show ?case by (cases ys) auto
qed

lemma strlen_from_cstr: "cstr m (s + of_nat n) xs \<Longrightarrow> strlen_from m s n = Some (n + length xs)"
proof (induction xs arbitrary: n)
  case Nil
  then show ?case by (simp add: strlen_from.simps)
next
  case (Cons x xs)
  then have "cstr m (s + of_nat (Suc n)) xs" by (simp add: algebra_simps)
  from Cons.IH [OF this] Cons.prems show ?case
    by (subst strlen_from.simps) simp
qed

lemma strlen_cstr: "cstr m s xs \<Longrightarrow> strlen m s = Some (length xs)"
  using strlen_from_cstr [of m s 0 xs] by (simp add: strlen_def)

text \<open>\<open>strncmp\<close> is zero exactly on strings that agree up to the bound.\<close>

lemma strncmp_loop_zero:
  "cstr m p xs \<Longrightarrow> cstr m q ys \<Longrightarrow> strncmp_loop n m p q = 0 \<longleftrightarrow> take n xs = take n ys"
proof (induction n m p q arbitrary: xs ys rule: strncmp_loop.induct)
  case (1 m p q)
  then show ?case by simp
next
  case (2 n m p q)
  have uint_eq: "uint (a :: u8) = uint b \<longleftrightarrow> a = b" "uint a = 0 \<longleftrightarrow> a = 0" for a b :: u8
    by (simp_all add: word_uint_eq_iff)
  show ?case
  proof (cases xs)
    case Nil
    with "2.prems" show ?thesis by (cases ys) (auto simp: uint_eq)
  next
    case (Cons x xs')
    with "2.prems" "2.IH" show ?thesis by (cases ys) (auto simp: uint_eq)
  qed
qed

lemma safestrcpy_loop_outside:
  "k < 4294967295 \<Longrightarrow> \<not> unat (a - s) \<le> k \<Longrightarrow> safestrcpy_loop k m s t a = m a"
proof (induction k arbitrary: m s t)
  case 0
  then show ?case by auto
next
  case (Suc k)
  then have neq: "a \<noteq> s" "\<not> unat (a - (s + 1)) \<le> k"
    using in_block_Suc [of "Suc k" a s] by auto
  then have "a \<noteq> s + 1" by auto
  with Suc neq show ?case by (simp add: Let_def)
qed

lemma safestrcpy_loop_cstr:
  assumes "cstr m t xs" "k < 4294967295"
    "\<And>i j. i \<le> length xs \<Longrightarrow> j \<le> k \<Longrightarrow> t + of_nat i \<noteq> s + of_nat j"
  shows "cstr (safestrcpy_loop k m s t) s (take k xs)"
  using assms
proof (induction k arbitrary: m s t xs)
  case 0
  then show ?case by simp
next
  case (Suc k)
  show ?case
  proof (cases xs)
    case Nil
    with Suc.prems show ?thesis by (simp add: Let_def)
  next
    case (Cons x ys)
    have nz: "m t \<noteq> 0" "m t = x" and c: "cstr m (t + 1) ys" using Suc.prems Cons by auto
    let ?m = "m(s := m t)"
    have sep: "t + 1 + of_nat i \<noteq> s + of_nat j" if "i \<le> length ys" "j \<le> Suc k" for i j
      using Suc.prems(3) [of "Suc i" j] that Cons by (simp add: algebra_simps)
    have c': "cstr ?m (t + 1) ys"
      using c by (subst cstr_cong [where m' = m and b = "t + 1"]) (use sep [of _ 0] in auto)
    have sep': "t + 1 + of_nat i \<noteq> s + 1 + of_nat j" if "i \<le> length ys" "j \<le> k" for i j
      using sep [of i "Suc j"] that by (simp add: algebra_simps)
    have "cstr (safestrcpy_loop k ?m (s + 1) (t + 1)) (s + 1) (take k ys)"
      by (rule Suc.IH [OF c' _ sep']) (use Suc.prems(2) in simp_all)
    moreover have "safestrcpy_loop k ?m (s + 1) (t + 1) s = m t"
      using Suc.prems(2) by (subst safestrcpy_loop_outside) auto
    ultimately show ?thesis using nz Cons by (simp add: Let_def)
  qed
qed

section \<open>Words in memory\<close>

lemma load32_store32 [simp]: "load32 (store32 m a w) a = w"
proof -
  have "a + 1 \<noteq> a" "a + 2 \<noteq> a" "a + 3 \<noteq> a" "a + 2 \<noteq> a + 1" "a + 3 \<noteq> a + 1" "a + 3 \<noteq> a + 2" by simp_all
  moreover have "24 + (n - 24) = n \<or> n - 16 < 8" "16 + (n - 16) = n \<or> n - 8 < 8" "8 + (n - 8) = n \<or> n < 8" for n :: nat
    by auto
  ultimately show ?thesis
    unfolding load32_def store32_def
    by (intro bit_word_eqI) (auto simp: bit_simps; metis (no_types, lifting))
qed

lemma load32_cong: "(\<And>i. i < 4 \<Longrightarrow> m (a + of_nat i) = m' (a + of_nat i)) \<Longrightarrow> load32 m a = load32 m' a"
proof -
  assume eq: "\<And>i. i < 4 \<Longrightarrow> m (a + of_nat i) = m' (a + of_nat i)"
  show ?thesis
    using eq [of 0] eq [of 1] eq [of 2] eq [of 3] by (simp add: load32_def)
qed

lemma store32_outside: "\<not> a' - a < 4 \<Longrightarrow> store32 m a w a' = m a'"
  by (auto simp: store32_def)

section \<open>Properties\<close>

text \<open>C15. \<open>memmove\<close> copies the source block as it was before the call, also when the two blocks
  overlap, and writes nothing outside the destination block; \<open>memset\<close> sets every byte of its block
  to the low byte of its argument, on the 4-byte path as on the bytewise one, and nothing else.\<close>

theorem memmove_memset_correct:
  assumes "unat src + unat n < 2 ^ 32" "unat dst + unat n < 2 ^ 32"
  shows "(\<forall>i. i < unat n \<longrightarrow> memmove m dst src n (dst + of_nat i) = m (src + of_nat i))
    \<and> (\<forall>a. \<not> a - dst < n \<longrightarrow> memmove m dst src n a = m a)
    \<and> (\<forall>a. memset m dst c n a = (if a - dst < n then ucast c else m a))"
  using assms memmove_inside memmove_outside memset_apply by simp

theorem memmove_memset_correct_witness:
  "unat (100 :: uint) + unat (8 :: uint) < 2 ^ 32
    \<and> memmove ucast 104 100 8 109 = 105 \<and> memset ucast 104 0x141 8 105 = 0x41"
proof -
  have h: "unat (100 :: uint) + unat (8 :: uint) < 2 ^ 32" "unat (104 :: uint) + unat (8 :: uint) < 2 ^ 32"
    by simp_all
  have "memmove ucast 104 100 8 (104 + of_nat 5) = (ucast (100 + of_nat 5 :: uint) :: u8)"
    using conjunct1 [OF memmove_memset_correct [OF h, of ucast 0], rule_format, of 5] by simp
  then show ?thesis
    using h(1) memmove_memset_correct [OF h, of ucast "0x141"] by simp
qed

text \<open>C16. \<open>safestrcpy\<close>, on a string that does not overlap the destination: the destination holds
  the longest prefix of the string that fits, ended by a zero byte, so \<open>strlen\<close> of it ends within
  \<open>n\<close> bytes; and no byte outside the \<open>n\<close> bytes of the destination changes.\<close>

theorem safestrcpy_terminates_string:
  assumes "cstr m t xs" "0 < n" "n < 2 ^ 31"
    "\<And>i j. i \<le> length xs \<Longrightarrow> j < nat n \<Longrightarrow> t + of_nat i \<noteq> s + of_nat j"
  shows "cstr (safestrcpy m s t n) s (take (nat n - 1) xs)
    \<and> strlen (safestrcpy m s t n) s = Some (min (length xs) (nat n - 1))
    \<and> (\<forall>a. \<not> unat (a - s) < nat n \<longrightarrow> safestrcpy m s t n a = m a)"
proof -
  let ?k = "nat (n - 1)"
  have k: "?k < 4294967295" "nat n = Suc ?k" using assms(2,3) by auto
  have run: "safestrcpy m s t n = safestrcpy_loop ?k m s t" using assms(2) by (simp add: safestrcpy_def)
  have c: "cstr (safestrcpy_loop ?k m s t) s (take ?k xs)"
    by (rule safestrcpy_loop_cstr) (use assms k in auto)
  moreover have "safestrcpy_loop ?k m s t a = m a" if "\<not> unat (a - s) < nat n" for a
    using that k by (intro safestrcpy_loop_outside) auto
  ultimately show ?thesis
    unfolding run using strlen_cstr [OF c] k(2) by auto
qed

theorem safestrcpy_terminates_string_witness:
  "strlen (safestrcpy (\<lambda>a. if a < 15 then 0x61 else 0) 100 10 4) 100 = Some 3"
proof -
  let ?m = "\<lambda>a :: uint. if a < 15 then 0x61 else 0 :: u8"
  let ?xs = "[0x61, 0x61, 0x61, 0x61, 0x61 :: u8]"
  have str: "cstr ?m 10 ?xs" by simp
  have sep: "10 + of_nat i \<noteq> (100 :: uint) + of_nat j" if "i \<le> length ?xs" "j < nat 4" for i j
  proof
    assume "10 + of_nat i = (100 :: uint) + of_nat j"
    then have "unat (10 + of_nat i :: uint) = unat (100 + of_nat j :: uint)" by simp
    then show False using that by (simp add: unat_plus_if')
  qed
  show ?thesis using safestrcpy_terminates_string [OF str _ _ sep] by simp
qed

end
