(* ===== verification/Hardware.thy ===== *)
theory Hardware
  imports Kernel_Prelude
begin

text \<open>
  What the kernel sees of the machine around the CPUs: the I/O ports, the interrupt controllers, the tables of
  segments and of interrupt gates, and the globals that the code of these devices keeps (\<open>mp.c\<close>, \<open>picirq.c\<close>,
  \<open>ioapic.c\<close>, \<open>lapic.c\<close>). Bytes written to ports are collected, newest first; what a port or a register delivers
  when it is read is given as the list of its future readings.
\<close>

unbundle bit_operations_syntax

section \<open>Descriptors\<close>

text \<open>The bit fields of the descriptors are words of their width.\<close>

record segdesc =
  sd_lim_15_0 :: "16 word"
  sd_base_15_0 :: "16 word"
  sd_base_23_16 :: "8 word"
  sd_type :: "4 word"
  sd_s :: "1 word"
  sd_dpl :: "2 word"
  sd_p :: "1 word"
  sd_lim_19_16 :: "4 word"
  sd_avl :: "1 word"
  sd_rsv1 :: "1 word"
  sd_db :: "1 word"
  sd_g :: "1 word"
  sd_base_31_24 :: "8 word"

record gatedesc =
  gd_off_15_0 :: "16 word"
  gd_cs :: "16 word"
  gd_args :: "5 word"
  gd_rsv1 :: "3 word"
  gd_type :: "4 word"
  gd_s :: "1 word"
  gd_dpl :: "2 word"
  gd_p :: "1 word"
  gd_off_31_16 :: "16 word"

definition SEG :: "uint \<Rightarrow> uint \<Rightarrow> uint \<Rightarrow> uint \<Rightarrow> segdesc" where
  "SEG type base lim dpl = \<lparr>
     sd_lim_15_0 = ucast (drop_bit 12 lim AND 0xffff), sd_base_15_0 = ucast (base AND 0xffff),
     sd_base_23_16 = ucast (drop_bit 16 base AND 0xff), sd_type = ucast type, sd_s = 1, sd_dpl = ucast dpl, sd_p = 1,
     sd_lim_19_16 = ucast (drop_bit 28 lim), sd_avl = 0, sd_rsv1 = 0, sd_db = 1, sd_g = 1,
     sd_base_31_24 = ucast (drop_bit 24 base)\<rparr>"

abbreviation (input) STS_IG32 :: "4 word" where
  "STS_IG32 \<equiv> 0xE"

abbreviation (input) STS_TG32 :: "4 word" where
  "STS_TG32 \<equiv> 0xF"

definition SETGATE :: "bool \<Rightarrow> uint \<Rightarrow> uint \<Rightarrow> uint \<Rightarrow> gatedesc" where
  "SETGATE istrap sel off d = \<lparr>
     gd_off_15_0 = ucast (off AND 0xffff), gd_cs = ucast sel, gd_args = 0, gd_rsv1 = 0,
     gd_type = (if istrap then STS_TG32 else STS_IG32), gd_s = 0, gd_dpl = ucast d, gd_p = 1,
     gd_off_31_16 = ucast (drop_bit 16 off)\<rparr>"

section \<open>The state of the hardware\<close>

text \<open>
  \<open>lapic\<close> is the address of the local APICs, zero when there is none; each CPU has its own registers behind it.
  \<open>ioapic\<close> is the address of the I/O APIC, zero before \<open>ioapicinit\<close>. \<open>cpu_gdt c\<close> is the table of segments
  of CPU \<open>c\<close>, and \<open>idtr c\<close> says that \<open>c\<close> has loaded the table of gates.
\<close>

record hardware =
  ports :: "(u16 \<times> u8) list"
  portin :: "u16 \<Rightarrow> u8 list"
  irqmask :: u16
  ioapic :: uint
  ioapic_regs :: "uint \<Rightarrow> uint"
  lapic :: uint
  lapic_regs :: "nat \<Rightarrow> uint \<Rightarrow> uint"
  lapic_in :: "uint \<Rightarrow> uint list"
  ismp :: bool
  ncpu :: nat
  bcpu :: nat
  ioapicid :: u8
  cpu_ids :: "nat \<Rightarrow> u8"
  cpu_started :: "nat \<Rightarrow> bool"
  cpu_gdt :: "nat \<Rightarrow> nat \<Rightarrow> segdesc"
  idt :: "nat \<Rightarrow> gatedesc"
  idtr :: "nat \<Rightarrow> bool"

text \<open>The globals before \<open>main\<close>: zero, but for the mask of the interrupt controllers.\<close>

abbreviation (input) IRQ_SLAVE :: nat where
  "IRQ_SLAVE \<equiv> 2"

definition boot_hw :: hardware where
  "boot_hw = \<lparr>ports = [], portin = (\<lambda>_. []), irqmask = 0xFFFF AND NOT (push_bit IRQ_SLAVE 1),
     ioapic = 0, ioapic_regs = (\<lambda>_. 0), lapic = 0, lapic_regs = (\<lambda>_ _. 0), lapic_in = (\<lambda>_. []),
     ismp = False, ncpu = 0, bcpu = 0, ioapicid = 0, cpu_ids = (\<lambda>_. 0), cpu_started = (\<lambda>_. False),
     cpu_gdt = (\<lambda>_ _. SEG 0 0 0 0), idt = (\<lambda>_. SETGATE False 0 0 0), idtr = (\<lambda>_. False)\<rparr>"

end
