(* ===== verification/Spinlock.thy ===== *)
theory Spinlock
  imports Hardware
begin

text \<open>
  The spin locks of \<open>spinlock.c\<close> (and \<open>spinlock.h\<close>, the interrupt fields of \<open>struct cpu\<close> in
  \<open>proc.h\<close>), in three groups:
  \<^item> the routines as sequential code run by one CPU: \<open>initlock\<close>, \<open>pushcli\<close>, \<open>popcli\<close>, \<open>holding\<close>,
    \<open>acquire\<close>, \<open>release\<close>, \<open>getcallerpcs\<close>. Interrupts are the \<open>FL_IF\<close> bit of each CPU's
    \<open>EFLAGS\<close>. The field \<open>pcs\<close>, which nothing reads, is left out of \<open>struct spinlock\<close>;
  \<^item> \<open>lock_step\<close>: the same code cut at its shared-memory accesses and interleaved over any number
    of CPUs, with the \<open>xchg\<close> as one atomic step; mutual exclusion is proved for it;
  \<^item> \<open>kcore\<close>: what the other theories see of the locks, an owner per lock and a nesting depth
    per CPU. \<open>acquire_refines\<close> and \<open>release_refines\<close> relate the two.
\<close>

section \<open>The routines\<close>

datatype lockid = PtableLock | KmemLock | TicksLock | BcacheLock | LogLock | IcacheLock
  | FtableLock | IdeLock | ConsLock | PipeLock uint

record spinlock =
  lk_locked :: uint
  lk_name :: string
  lk_cpu :: "nat option"

record cpu_int =
  c_ncli :: int
  c_intena :: bool
  c_if :: bool

record machine =
  lks :: "lockid \<Rightarrow> spinlock"
  cps :: "nat \<Rightarrow> cpu_int"

definition upd_lock :: "lockid \<Rightarrow> (spinlock \<Rightarrow> spinlock) \<Rightarrow> 'z machine_scheme \<Rightarrow> 'z machine_scheme" where
  "upd_lock l f m = m\<lparr>lks := (lks m)(l := f (lks m l))\<rparr>"

definition upd_cpu :: "nat \<Rightarrow> (cpu_int \<Rightarrow> cpu_int) \<Rightarrow> 'z machine_scheme \<Rightarrow> 'z machine_scheme" where
  "upd_cpu c f m = m\<lparr>cps := (cps m)(c := f (cps m c))\<rparr>"

definition initlock :: "lockid \<Rightarrow> string \<Rightarrow> ('z machine_scheme, unit) km" where
  "initlock l nm = kmod (upd_lock l (\<lambda>k. k\<lparr>lk_name := nm, lk_locked := 0, lk_cpu := None\<rparr>))"

definition pushcli :: "nat \<Rightarrow> ('z machine_scheme, unit) km" where
  "pushcli c = kbind (kget (\<lambda>m. c_if (cps m c))) (\<lambda>eflags_if. kdo
     [kmod (upd_cpu c (\<lambda>k. k\<lparr>c_if := False\<rparr>)),
      kbind (kget (\<lambda>m. c_ncli (cps m c))) (\<lambda>n. kdo
        [kmod (upd_cpu c (\<lambda>k. k\<lparr>c_ncli := n + 1\<rparr>)),
         if n = 0 then kmod (upd_cpu c (\<lambda>k. k\<lparr>c_intena := eflags_if\<rparr>)) else kret ()])])"

definition popcli :: "nat \<Rightarrow> ('z machine_scheme, unit) km" where
  "popcli c = kbind (kget (\<lambda>m. cps m c)) (\<lambda>k.
     if c_if k then kpanic ''popcli - interruptible''
     else kthen (kmod (upd_cpu c (\<lambda>k. k\<lparr>c_ncli := c_ncli k - 1\<rparr>)))
       (if c_ncli k - 1 < 0 then kpanic ''popcli''
        else if c_ncli k - 1 = 0 \<and> c_intena k then kmod (upd_cpu c (\<lambda>k. k\<lparr>c_if := True\<rparr>))
        else kret ()))"

definition holding :: "nat \<Rightarrow> lockid \<Rightarrow> 'z machine_scheme \<Rightarrow> bool" where
  "holding c l m \<longleftrightarrow> lk_locked (lks m l) \<noteq> 0 \<and> lk_cpu (lks m l) = Some c"

text \<open>
  \<open>acquire\<close> run by CPU \<open>c\<close> alone: the \<open>xchg\<close> loop is entered with the lock free and ends at once,
  or the lock is taken and the loop spins for as long as nobody else runs.
\<close>

definition acquire :: "nat \<Rightarrow> lockid \<Rightarrow> ('z machine_scheme, unit) km" where
  "acquire c l = kthen (pushcli c) (kbind (kget (\<lambda>m. (holding c l m, lk_locked (lks m l)))) (\<lambda>(h, v).
     if h then kpanic ''acquire''
     else if v \<noteq> 0 then khang ''acquire''
     else kdo [kmod (upd_lock l (\<lambda>k. k\<lparr>lk_locked := 1\<rparr>)),
               kmod (upd_lock l (\<lambda>k. k\<lparr>lk_cpu := Some c\<rparr>))]))"

definition release :: "nat \<Rightarrow> lockid \<Rightarrow> ('z machine_scheme, unit) km" where
  "release c l = kbind (kget (holding c l)) (\<lambda>h.
     if \<not> h then kpanic ''release''
     else kdo [kmod (upd_lock l (\<lambda>k. k\<lparr>lk_cpu := None\<rparr>)),
               kmod (upd_lock l (\<lambda>k. k\<lparr>lk_locked := 0\<rparr>)),
               popcli c])"

text \<open>
  \<open>getcallerpcs\<close>: \<open>word_at a\<close> is the 32-bit word at address \<open>a\<close>. The result is the array \<open>pcs\<close>.
\<close>

definition KERNBASE :: uint where
  "KERNBASE = 0x80000000"

fun getcallerpcs_loop :: "nat \<Rightarrow> (uint \<Rightarrow> uint) \<Rightarrow> uint \<Rightarrow> uint list" where
  "getcallerpcs_loop 0 word_at ebp = []"
| "getcallerpcs_loop (Suc n) word_at ebp =
     (if ebp = 0 \<or> ebp < KERNBASE \<or> ebp = 0xffffffff then replicate (Suc n) 0
      else word_at (ebp + 4) # getcallerpcs_loop n word_at (word_at ebp))"

definition getcallerpcs :: "(uint \<Rightarrow> uint) \<Rightarrow> uint \<Rightarrow> uint list" where
  "getcallerpcs word_at v = getcallerpcs_loop 10 word_at (v - 8)"

lemma length_getcallerpcs: "length (getcallerpcs word_at v) = 10"
proof -
  have "length (getcallerpcs_loop n word_at e) = n" for n e
    by (induction n arbitrary: e) auto
  then show ?thesis by (simp add: getcallerpcs_def)
qed

section \<open>Interrupts nest with the locks\<close>

lemma pushcli_Ret:
  "pushcli c m = Ret () (upd_cpu c (\<lambda>k. k\<lparr>c_if := False, c_ncli := c_ncli k + 1,
     c_intena := (if c_ncli k = 0 then c_if k else c_intena k)\<rparr>) m)"
  by (simp add: pushcli_def kmonad upd_cpu_def)

lemma popcli_Ret:
  assumes "\<not> c_if (cps m c)" "0 < c_ncli (cps m c)"
  shows "popcli c m = Ret () (upd_cpu c (\<lambda>k. k\<lparr>c_ncli := c_ncli k - 1,
     c_if := (c_ncli k = 1 \<and> c_intena k)\<rparr>) m)"
  using assms by (cases "cps m c") (auto simp: popcli_def kmonad upd_cpu_def)

text \<open>
  A balanced pair gives back the interrupt flag and the depth; only the saved copy of the flag,
  which is dead at depth zero, may differ.
\<close>

lemma pushcli_popcli:
  assumes "0 \<le> c_ncli (cps m c)" "c_ncli (cps m c) > 0 \<longrightarrow> \<not> c_if (cps m c)"
  shows "\<exists>m'. kthen (pushcli c) (popcli c) m = Ret () m' \<and> lks m' = lks m
    \<and> c_if (cps m' c) = c_if (cps m c) \<and> c_ncli (cps m' c) = c_ncli (cps m c)
    \<and> (\<forall>d. d \<noteq> c \<longrightarrow> cps m' d = cps m d)"
  using assms by (simp add: pushcli_Ret kmonad popcli_Ret upd_cpu_def)

lemma acquire_Ret:
  assumes "lk_locked (lks m l) = 0"
  shows "acquire c l m = Ret () (upd_lock l (\<lambda>k. k\<lparr>lk_locked := 1, lk_cpu := Some c\<rparr>)
     (upd_cpu c (\<lambda>k. k\<lparr>c_if := False, c_ncli := c_ncli k + 1,
        c_intena := (if c_ncli k = 0 then c_if k else c_intena k)\<rparr>) m))"
  using assms by (simp add: acquire_def pushcli_Ret kmonad upd_cpu_def upd_lock_def holding_def)

lemma acquire_taken:
  assumes "lk_locked (lks m l) \<noteq> 0"
  shows "acquire c l m = (if lk_cpu (lks m l) = Some c then Stop (Panic ''acquire'')
     else Stop (Hang ''acquire''))"
  using assms by (simp add: acquire_def pushcli_Ret kmonad upd_cpu_def holding_def)

lemma release_Ret:
  assumes "holding c l m" "\<not> c_if (cps m c)" "0 < c_ncli (cps m c)"
  shows "release c l m = Ret () (upd_cpu c (\<lambda>k. k\<lparr>c_ncli := c_ncli k - 1,
     c_if := (c_ncli k = 1 \<and> c_intena k)\<rparr>)
     (upd_lock l (\<lambda>k. k\<lparr>lk_cpu := None, lk_locked := 0\<rparr>) m))"
  using assms by (simp add: release_def kmonad popcli_Ret upd_cpu_def upd_lock_def)

section \<open>Interleaving over the CPUs\<close>

text \<open>
  A CPU is outside the lock code (\<open>Run\<close>), in the \<open>xchg\<close> loop of \<open>acquire\<close> (\<open>Spin\<close>), past a winning
  \<open>xchg\<close> and about to record itself (\<open>Won\<close>), or in \<open>release\<close> between clearing \<open>cpu\<close> and the
  final \<open>xchg\<close> (\<open>Leave\<close>). \<open>lheld\<close> is a history variable: the locks a CPU has entered and not left.
\<close>

datatype lpc = Run | Spin lockid | Won lockid | Leave lockid

record lockm = machine +
  lpcs :: "nat \<Rightarrow> lpc"
  lheld :: "nat \<Rightarrow> lockid list"

definition goto :: "nat \<Rightarrow> lpc \<Rightarrow> lockm \<Rightarrow> lockm" where
  "goto c p m = m\<lparr>lpcs := (lpcs m)(c := p)\<rparr>"

inductive lock_step :: "lockm \<Rightarrow> lockm \<Rightarrow> bool" where
  enter: "lpcs m c = Run \<Longrightarrow> \<not> holding c l m \<Longrightarrow> pushcli c m = Ret () m1 \<Longrightarrow>
    lock_step m ((goto c (Spin l) m1)\<lparr>lheld := (lheld m)(c := l # lheld m c)\<rparr>)"
| xchg_busy: "lpcs m c = Spin l \<Longrightarrow> lk_locked (lks m l) \<noteq> 0 \<Longrightarrow>
    lock_step m (upd_lock l (\<lambda>k. k\<lparr>lk_locked := 1\<rparr>) m)"
| xchg_win: "lpcs m c = Spin l \<Longrightarrow> lk_locked (lks m l) = 0 \<Longrightarrow>
    lock_step m (goto c (Won l) (upd_lock l (\<lambda>k. k\<lparr>lk_locked := 1\<rparr>) m))"
| record_cpu: "lpcs m c = Won l \<Longrightarrow>
    lock_step m (goto c Run (upd_lock l (\<lambda>k. k\<lparr>lk_cpu := Some c\<rparr>) m))"
| leave: "lpcs m c = Run \<Longrightarrow> holding c l m \<Longrightarrow>
    lock_step m (goto c (Leave l) (upd_lock l (\<lambda>k. k\<lparr>lk_cpu := None\<rparr>) m))"
| drop: "lpcs m c = Leave l \<Longrightarrow>
    popcli c (upd_lock l (\<lambda>k. k\<lparr>lk_locked := 0\<rparr>) m) = Ret () m1 \<Longrightarrow>
    lock_step m ((goto c Run m1)\<lparr>lheld := (lheld m)(c := remove1 l (lheld m c))\<rparr>)"
| irq_flag: "lpcs m c = Run \<Longrightarrow> lheld m c = [] \<Longrightarrow>
    lock_step m (upd_cpu c (\<lambda>k. k\<lparr>c_if := b\<rparr>) m)"

definition lock_init :: lockm where
  "lock_init = \<lparr>lks = (\<lambda>_. \<lparr>lk_locked = 0, lk_name = [], lk_cpu = None\<rparr>),
     cps = (\<lambda>_. \<lparr>c_ncli = 0, c_intena = False, c_if = False\<rparr>),
     lpcs = (\<lambda>_. Run), lheld = (\<lambda>_. [])\<rparr>"

inductive lock_reachable :: "lockm \<Rightarrow> bool" where
  start: "lock_reachable lock_init"
| step: "lock_reachable m \<Longrightarrow> lock_step m m' \<Longrightarrow> lock_reachable m'"

text \<open>A CPU owns a lock from its winning \<open>xchg\<close> to the releasing one.\<close>

definition owns :: "lockm \<Rightarrow> nat \<Rightarrow> lockid \<Rightarrow> bool" where
  "owns m c l \<longleftrightarrow> lpcs m c = Won l \<or> lpcs m c = Leave l \<or> lk_cpu (lks m l) = Some c"

definition lock_excl :: "lockm \<Rightarrow> bool" where
  "lock_excl m \<longleftrightarrow> (\<forall>c d l. owns m c l \<longrightarrow> owns m d l \<longrightarrow> c = d)
     \<and> (\<forall>c l. owns m c l \<longrightarrow> lk_locked (lks m l) \<noteq> 0)
     \<and> (\<forall>c l. lpcs m c = Won l \<or> lpcs m c = Leave l \<longrightarrow> lk_cpu (lks m l) = None)"

definition lock_nest :: "lockm \<Rightarrow> bool" where
  "lock_nest m \<longleftrightarrow> (\<forall>c. distinct (lheld m c) \<and> c_ncli (cps m c) = int (length (lheld m c))
     \<and> (lheld m c \<noteq> [] \<longrightarrow> \<not> c_if (cps m c))
     \<and> (\<forall>l. l \<in> set (lheld m c) \<longleftrightarrow> owns m c l \<or> lpcs m c = Spin l))"

lemmas lock_inv_defs = lock_excl_def lock_nest_def owns_def goto_def upd_lock_def upd_cpu_def

lemma lock_init_inv: "lock_excl lock_init \<and> lock_nest lock_init"
  by (simp add: lock_inv_defs lock_init_def)

lemma lock_nest_busy:
  assumes "lock_nest m" "owns m c l \<or> lpcs m c = Spin l"
  shows "0 < c_ncli (cps m c) \<and> \<not> c_if (cps m c)"
proof -
  have "l \<in> set (lheld m c)" using assms by (auto simp: lock_nest_def)
  then have "lheld m c \<noteq> []" by auto
  then show ?thesis using assms(1) by (auto simp: lock_nest_def)
qed

lemma lock_step_excl: "lock_step m m' \<Longrightarrow> lock_excl m \<Longrightarrow> lock_nest m \<Longrightarrow> lock_excl m'"
proof (induction rule: lock_step.induct)
  case (enter m c l m1)
  then show ?case
    by (auto simp: lock_inv_defs pushcli_Ret split: if_splits)
next
  case (xchg_win m c l)
  then have "lk_cpu (lks m l) = None"
    by (cases "lk_cpu (lks m l)") (auto simp: lock_inv_defs)
  with xchg_win show ?case
    by (auto simp: lock_inv_defs split: if_splits)
next
  case (drop m c l m1)
  then have "0 < c_ncli (cps m c) \<and> \<not> c_if (cps m c)"
    by (intro lock_nest_busy) (auto simp: owns_def)
  with drop show ?case
    by (auto simp: popcli_Ret upd_lock_def) (auto simp: lock_inv_defs split: if_splits)
qed (auto simp: lock_inv_defs holding_def split: if_splits)

lemma lock_step_nest: "lock_step m m' \<Longrightarrow> lock_excl m \<Longrightarrow> lock_nest m \<Longrightarrow> lock_nest m'"
proof (induction rule: lock_step.induct)
  case (enter m c l m1)
  then show ?case
    by (auto simp: lock_inv_defs pushcli_Ret holding_def split: if_splits)
next
  case (drop m c l m1)
  then have b: "0 < c_ncli (cps m c) \<and> \<not> c_if (cps m c)"
    by (intro lock_nest_busy) (auto simp: owns_def)
  have in_l: "l \<in> set (lheld m c)" using drop by (auto simp: lock_nest_def owns_def)
  then have len: "int (length (remove1 l (lheld m c))) = int (length (lheld m c)) - 1"
    by (cases "length (lheld m c)") (auto simp: length_remove1)
  from in_l have one: "length (lheld m c) = Suc 0 \<longrightarrow> lheld m c = [l]"
    by (auto simp: length_Suc_conv)
  have oc: "\<forall>k. lk_cpu (lks m k) = Some c \<longrightarrow> k \<in> set (lheld m c)"
    using drop by (auto simp: lock_nest_def owns_def)
  from drop b len one oc show ?case
    by (auto simp: popcli_Ret upd_lock_def) (auto simp: lock_inv_defs split: if_splits)
qed (auto simp: lock_inv_defs holding_def split: if_splits)

lemma lock_reachable_inv: "lock_reachable m \<Longrightarrow> lock_excl m \<and> lock_nest m"
  by (induction rule: lock_reachable.induct)
    (auto simp: lock_init_inv intro: lock_step_excl lock_step_nest)

section \<open>Locks as the rest of the kernel sees them\<close>

text \<open>
  \<open>kcore\<close> is the root of the kernel state: which CPU owns each lock, how deep each CPU is nested in
  \<open>pushcli\<close>, the CPU that is executing, the messages \<open>cprintf\<close> has delivered, and the devices. The other theories
  extend this record.
\<close>

record kcore =
  owner :: "lockid \<Rightarrow> nat option"
  ncli :: "nat \<Rightarrow> int"
  cpuid :: nat
  printed :: "string list"
  devices :: hardware

definition kprint :: "string \<Rightarrow> ('z kcore_scheme, unit) km" where
  "kprint msg = kmod (\<lambda>s. s\<lparr>printed := printed s @ [msg]\<rparr>)"

definition nl :: string where
  "nl = [CHR 0x0A]"

definition acquire_lk :: "lockid \<Rightarrow> ('z kcore_scheme, unit) km" where
  "acquire_lk l = kbind (kget (\<lambda>s. (owner s l, cpuid s))) (\<lambda>(own, c). case own of
     None \<Rightarrow> kmod (\<lambda>s. s\<lparr>owner := (owner s)(l := Some c), ncli := (ncli s)(c := ncli s c + 1)\<rparr>)
   | Some d \<Rightarrow> if d = c then kpanic ''acquire'' else khang ''acquire'')"

definition release_lk :: "lockid \<Rightarrow> ('z kcore_scheme, unit) km" where
  "release_lk l = kbind (kget (\<lambda>s. (owner s l, cpuid s, ncli s (cpuid s)))) (\<lambda>(own, c, n).
     if own \<noteq> Some c then kpanic ''release''
     else if n - 1 < 0 then kpanic ''popcli''
     else kmod (\<lambda>s. s\<lparr>owner := (owner s)(l := None), ncli := (ncli s)(c := ncli s c - 1)\<rparr>))"

definition lock_rel :: "nat \<Rightarrow> machine \<Rightarrow> 'z kcore_scheme \<Rightarrow> bool" where
  "lock_rel c m s \<longleftrightarrow> cpuid s = c
     \<and> (\<forall>l. owner s l = (if lk_locked (lks m l) = 0 then None else lk_cpu (lks m l)))
     \<and> (\<forall>l. lk_locked (lks m l) \<noteq> 0 \<longrightarrow> lk_cpu (lks m l) \<noteq> None)
     \<and> (\<forall>d. ncli s d = c_ncli (cps m d) \<and> 0 \<le> c_ncli (cps m d)
          \<and> (0 < c_ncli (cps m d) \<longrightarrow> \<not> c_if (cps m d)))"

definition sim :: "('m \<Rightarrow> 's \<Rightarrow> bool) \<Rightarrow> ('m, unit) outcome \<Rightarrow> ('s, unit) outcome \<Rightarrow> bool" where
  "sim R x y = (case (x, y) of
     (Ret _ m, Ret _ s) \<Rightarrow> R m s
   | (Stop e, Stop e') \<Rightarrow> e = e'
   | _ \<Rightarrow> False)"

lemma acquire_refines: "lock_rel c m s \<Longrightarrow> sim (lock_rel c) (acquire c l m) (acquire_lk l s)"
proof (cases "lk_locked (lks m l) = 0")
  case True
  then show "lock_rel c m s \<Longrightarrow> ?thesis"
    by (auto simp: sim_def lock_rel_def acquire_Ret acquire_lk_def kmonad upd_lock_def upd_cpu_def
        split: if_splits)
next
  case False
  then show "lock_rel c m s \<Longrightarrow> ?thesis"
    by (auto simp: sim_def lock_rel_def acquire_taken acquire_lk_def kmonad)
qed

lemma release_refines:
  assumes "lock_rel c m s" "holding c l m \<longrightarrow> 0 < ncli s c"
  shows "sim (lock_rel c) (release c l m) (release_lk l s)"
proof (cases "holding c l m")
  case True
  then have "0 < c_ncli (cps m c)" "\<not> c_if (cps m c)"
    using assms by (auto simp: lock_rel_def)
  with assms(1) True show ?thesis
    by (auto simp: release_Ret sim_def lock_rel_def release_lk_def kmonad upd_lock_def upd_cpu_def
        holding_def)
next
  case False
  with assms(1) show ?thesis
    by (auto simp: sim_def lock_rel_def release_def release_lk_def kmonad holding_def)
qed

text \<open>
  The contract of a lock for its clients: on a free lock \<open>acq\<close> returns with the lock taken, \<open>rel\<close>
  undoes that, so a body that leaves the lock taken leaves exactly its own effect behind.
\<close>

locale lock_api =
  fixes acq rel :: "lockid \<Rightarrow> ('s, unit) km"
    and free :: "lockid \<Rightarrow> 's \<Rightarrow> bool"
    and taken :: "lockid \<Rightarrow> 's \<Rightarrow> 's"
  assumes acq_free: "free l s \<Longrightarrow> acq l s = Ret () (taken l s)"
    and rel_taken: "free l s \<Longrightarrow> rel l (taken l s) = Ret () s"
begin

lemma bracket:
  assumes "free l s" "body (taken l s) = Ret a (taken l t)" "free l t"
  shows "kthen (acq l) (kbind body (\<lambda>a. kthen (rel l) (k a))) s = k a t"
  using assms by (simp add: kmonad acq_free rel_taken)

lemma bracket_unit:
  assumes "free l s" "body (taken l s) = Ret () (taken l t)" "free l t"
  shows "kdo [acq l, body, rel l] s = Ret () t"
  using assms by (simp add: kmonad acq_free rel_taken)

end

definition lock_free :: "lockid \<Rightarrow> 'z kcore_scheme \<Rightarrow> bool" where
  "lock_free l s \<longleftrightarrow> owner s l = None \<and> 0 \<le> ncli s (cpuid s)"

definition lock_taken :: "lockid \<Rightarrow> 'z kcore_scheme \<Rightarrow> 'z kcore_scheme" where
  "lock_taken l s = s\<lparr>owner := (owner s)(l := Some (cpuid s)),
     ncli := (ncli s)(cpuid s := ncli s (cpuid s) + 1)\<rparr>"

interpretation klock: lock_api acquire_lk release_lk lock_free lock_taken
  by unfold_locales
    (auto simp: lock_free_def lock_taken_def acquire_lk_def release_lk_def kmonad fun_upd_idem)

lemma acquire_lk_eq_Ret: "acquire_lk l s = Ret u s' \<longleftrightarrow> owner s l = None \<and> s' = lock_taken l s"
  by (auto simp: acquire_lk_def lock_taken_def kmonad split: option.splits)

lemma release_lk_eq_Ret: "release_lk l s = Ret u s' \<longleftrightarrow> owner s l = Some (cpuid s) \<and> 0 < ncli s (cpuid s)
    \<and> s' = s\<lparr>owner := (owner s)(l := None), ncli := (ncli s)(cpuid s := ncli s (cpuid s) - 1)\<rparr>"
  by (auto simp: release_lk_def kmonad)

lemma lock_ops_not_Sleeps [simp]: "acquire_lk l s \<noteq> Sleeps t" "release_lk l s \<noteq> Sleeps t"
  by (auto simp: acquire_lk_def release_lk_def kmonad split: option.splits)

lemma release_lk_Ret:
  "owner s l = Some (cpuid s) \<Longrightarrow> 0 < ncli s (cpuid s) \<Longrightarrow> release_lk l s =
     Ret () (s\<lparr>owner := (owner s)(l := None), ncli := (ncli s)(cpuid s := ncli s (cpuid s) - 1)\<rparr>)"
  by (simp add: release_lk_def kmonad)

section \<open>Properties\<close>

text \<open>A run for the witnesses: CPU 0 enters \<open>acquire\<close> on the process table's lock and wins.\<close>

lemma lock_demo: "\<exists>m. lock_reachable m \<and> owns m 0 PtableLock \<and> lheld m 0 = [PtableLock]"
proof -
  let ?m1 = "(goto 0 (Spin PtableLock) (upd_cpu 0 (\<lambda>k. k\<lparr>c_if := False, c_ncli := c_ncli k + 1,
     c_intena := (if c_ncli k = 0 then c_if k else c_intena k)\<rparr>) lock_init))
     \<lparr>lheld := (lheld lock_init)(0 := PtableLock # lheld lock_init 0)\<rparr>"
  let ?m2 = "goto 0 (Won PtableLock) (upd_lock PtableLock (\<lambda>k. k\<lparr>lk_locked := 1\<rparr>) ?m1)"
  have "lock_step lock_init ?m1"
    by (rule lock_step.enter) (simp_all add: lock_init_def holding_def pushcli_Ret)
  moreover have "lock_step ?m1 ?m2"
    by (rule lock_step.xchg_win) (simp_all add: lock_init_def goto_def upd_cpu_def)
  ultimately have "lock_reachable ?m2"
    by (blast intro: lock_reachable.intros)
  moreover have "owns ?m2 0 PtableLock \<and> lheld ?m2 0 = [PtableLock]"
    by (simp add: owns_def goto_def upd_lock_def lock_init_def)
  ultimately show ?thesis by blast
qed

text \<open>C3. Mutual exclusion: in every reachable state of the interleaved machine, at most one CPU is
  between a winning \<open>xchg\<close> in \<open>acquire\<close> and the \<open>xchg\<close> that ends \<open>release\<close> of the same lock, the
  lock word is then non-zero, and \<open>holding\<close> on a CPU implies that this CPU is the owner.\<close>

theorem spinlock_mutual_exclusion:
  assumes "lock_reachable m" "owns m c l"
  shows "lk_locked (lks m l) \<noteq> 0 \<and> (\<forall>d. owns m d l \<longrightarrow> d = c) \<and> (\<forall>d. holding d l m \<longrightarrow> d = c)"
  using lock_reachable_inv [OF assms(1)] assms(2)
  by (auto simp: lock_excl_def holding_def owns_def)

theorem spinlock_mutual_exclusion_witness:
  "\<exists>m. lock_reachable m \<and> owns m 0 PtableLock \<and> lk_locked (lks m PtableLock) \<noteq> 0
     \<and> (\<forall>d. owns m d PtableLock \<longrightarrow> d = 0)"
proof -
  obtain m where "lock_reachable m" "owns m 0 PtableLock" using lock_demo by blast
  with spinlock_mutual_exclusion [OF this] show ?thesis by blast
qed



text \<open>C14. Refinement: \<open>acquire\<close> and \<open>release\<close> of \<open>spinlock.c\<close>, run by a CPU on related states, have the
  outcome (result state, panic or spin) of the owner-map operations the rest of the kernel model
  uses.\<close>

theorem spinlock_refines_owner_map:
  assumes "lock_rel c m s"
  shows "sim (lock_rel c) (acquire c l m) (acquire_lk l s)
    \<and> (0 < ncli s c \<longrightarrow> sim (lock_rel c) (release c l m) (release_lk l s))"
  using assms acquire_refines release_refines by blast

theorem spinlock_refines_owner_map_witness:
  "\<exists>m s. lock_rel 0 m (s :: kcore) \<and> 0 < ncli s 0
     \<and> sim (lock_rel 0) (acquire 0 KmemLock m) (acquire_lk KmemLock s)
     \<and> sim (lock_rel 0) (release 0 PtableLock m) (release_lk PtableLock s)"
proof -
  define m :: machine where "m = \<lparr>lks = (\<lambda>l. if l = PtableLock
      then \<lparr>lk_locked = 1, lk_name = [], lk_cpu = Some 0\<rparr>
      else \<lparr>lk_locked = 0, lk_name = [], lk_cpu = None\<rparr>),
    cps = (\<lambda>c. \<lparr>c_ncli = (if c = 0 then 1 else 0), c_intena = True, c_if = False\<rparr>)\<rparr>"
  define s :: kcore where "s = \<lparr>owner = (\<lambda>l. if l = PtableLock then Some 0 else None),
    ncli = (\<lambda>c. if c = 0 then 1 else 0), cpuid = 0, printed = [], devices = boot_hw\<rparr>"
  have r: "lock_rel 0 m s" by (simp add: lock_rel_def m_def s_def)
  moreover have "0 < ncli s 0" by (simp add: s_def)
  ultimately show ?thesis using spinlock_refines_owner_map [OF r] by blast
qed

end
