(* ===== verification/Kalloc.thy ===== *)
theory Kalloc
  imports CString Spinlock
begin

unbundle bit_operations_syntax

text \<open>
  The physical page allocator \<open>kalloc.c\<close> with the address macros of \<open>mmu.h\<close> and \<open>memlayout.h\<close>.
  The free list is kept in the free pages themselves: the first word of a free page is the
  address of the next one, read and written in the byte memory of the kernel. The allocator is an
  instance of the interface \<open>free_store\<close>, a stack of free nodes, which the process table's free list
  implements as well.
\<close>

section \<open>Addresses\<close>

definition PGSIZE :: uint where
  "PGSIZE = 4096"

definition PGROUNDUP :: "uint \<Rightarrow> uint" where
  "PGROUNDUP sz = (sz + PGSIZE - 1) AND NOT (PGSIZE - 1)"

definition PGROUNDDOWN :: "uint \<Rightarrow> uint" where
  "PGROUNDDOWN a = a AND NOT (PGSIZE - 1)"

definition PHYSTOP :: uint where
  "PHYSTOP = 0xE000000"

definition v2p :: "uint \<Rightarrow> uint" where
  "v2p a = a - KERNBASE"

definition p2v :: "uint \<Rightarrow> uint" where
  "p2v a = a + KERNBASE"

text \<open>A C pointer kept as a word: zero is the null pointer.\<close>

definition ptr :: "uint \<Rightarrow> uint option" where
  "ptr a = (if a = 0 then None else Some a)"

section \<open>The allocator\<close>

text \<open>\<open>kend\<close> and \<open>kdata\<close> are the addresses the linker gives to \<open>end\<close> and \<open>data\<close>.\<close>

record kmem = kcore +
  mem :: bmem
  freelist :: uint
  use_lock :: bool
  kend :: uint
  kdata :: uint

definition kfree :: "uint \<Rightarrow> ('z kmem_scheme, unit) km" where
  "kfree v = kbind (kget (\<lambda>s. (kend s, use_lock s))) (\<lambda>(e, locking).
     if v mod PGSIZE \<noteq> 0 \<or> v < e \<or> PHYSTOP \<le> v2p v then kpanic ''kfree''
     else kdo [
       kmod (\<lambda>s. s\<lparr>mem := memset (mem s) v 1 PGSIZE\<rparr>),
       (if locking then acquire_lk KmemLock else kret ()),
       kmod (\<lambda>s. s\<lparr>mem := store32 (mem s) v (freelist s)\<rparr>),
       kmod (\<lambda>s. s\<lparr>freelist := v\<rparr>),
       (if locking then release_lk KmemLock else kret ())])"

definition kalloc :: "('z kmem_scheme, uint option) km" where
  "kalloc = kbind (kget use_lock) (\<lambda>locking.
     kthen (if locking then acquire_lk KmemLock else kret ())
     (kbind (kget freelist) (\<lambda>r.
       kdo2 [(if r \<noteq> 0 then kmod (\<lambda>s. s\<lparr>freelist := load32 (mem s) r\<rparr>) else kret ()),
             (if locking then release_lk KmemLock else kret ())]
         (kret (ptr r)))))"

text \<open>
  The loop of \<open>freerange\<close> steps through page addresses, of which there are \<open>2 ^ 20\<close>; a run that
  has not ended by then does not end.
\<close>

fun freerange_loop :: "nat \<Rightarrow> uint \<Rightarrow> uint \<Rightarrow> ('z kmem_scheme, unit) km" where
  "freerange_loop 0 p vend = khang ''freerange''"
| "freerange_loop (Suc n) p vend =
     (if p + PGSIZE \<le> vend then kthen (kfree p) (freerange_loop n (p + PGSIZE) vend) else kret ())"

definition freerange :: "uint \<Rightarrow> uint \<Rightarrow> ('z kmem_scheme, unit) km" where
  "freerange vstart vend = freerange_loop (2 ^ 20) (PGROUNDUP vstart) vend"

definition kinit1 :: "uint \<Rightarrow> uint \<Rightarrow> ('z kmem_scheme, unit) km" where
  "kinit1 vstart vend = kdo [
     kmod (\<lambda>s. s\<lparr>owner := (owner s)(KmemLock := None)\<rparr>),
     kmod (\<lambda>s. s\<lparr>use_lock := False\<rparr>),
     freerange vstart vend]"

definition kinit2 :: "uint \<Rightarrow> uint \<Rightarrow> ('z kmem_scheme, unit) km" where
  "kinit2 vstart vend = kdo [freerange vstart vend, kmod (\<lambda>s. s\<lparr>use_lock := True\<rparr>)]"

section \<open>Page arithmetic\<close>

lemma and_not_mask: "a AND NOT (mask n) = a - take_bit n (a :: uint)"
proof -
  have "(a AND NOT (mask n)) + take_bit n a = (a AND NOT (mask n)) OR take_bit n a"
    by (rule disjunctive_add_eq_or) (simp add: take_bit_eq_mask bit_eq_iff bit_simps)
  also have "\<dots> = a"
    by (rule bit_word_eqI) (auto simp: bit_simps)
  finally show ?thesis by (simp add: algebra_simps)
qed

lemma page_mask: "(PGSIZE - 1 :: uint) = mask 12"
  by (simp add: PGSIZE_def mask_eq_exp_minus_1)

lemma PGROUNDDOWN_eq: "PGROUNDDOWN a = a - a mod PGSIZE"
  unfolding PGROUNDDOWN_def page_mask and_not_mask by (simp add: PGSIZE_def take_bit_eq_mod)

lemma PGROUNDUP_eq: "PGROUNDUP a = PGROUNDDOWN (a + PGSIZE - 1)"
  by (simp add: PGROUNDUP_def PGROUNDDOWN_def)

lemma unat_PGSIZE [simp]: "unat PGSIZE = 4096"
  by (simp add: PGSIZE_def)

lemma unat_mod_PGSIZE: "unat (a mod PGSIZE) = unat a mod 4096"
  by (simp add: unat_mod_distrib)

lemma aligned_iff: "a mod PGSIZE = 0 \<longleftrightarrow> 4096 dvd unat a"
  using unat_mod_PGSIZE [of a] by (simp add: dvd_eq_mod_eq_0 unat_eq_0 [symmetric])

lemma unat_PGROUNDDOWN: "unat (PGROUNDDOWN a) = unat a - unat a mod 4096"
proof -
  have "a mod PGSIZE \<le> a" by (simp add: word_le_nat_alt unat_mod_PGSIZE)
  then show ?thesis by (simp add: PGROUNDDOWN_eq unat_sub unat_mod_PGSIZE)
qed

lemma PGROUNDDOWN_aligned [simp]: "PGROUNDDOWN a mod PGSIZE = 0"
  by (simp add: aligned_iff unat_PGROUNDDOWN dvd_minus_mod)

lemma PGROUNDUP_aligned [simp]: "PGROUNDUP a mod PGSIZE = 0"
  by (simp add: PGROUNDUP_eq)
lemma in_page_iff:
  assumes "v mod PGSIZE = 0"
  shows "a - v < PGSIZE \<longleftrightarrow> PGROUNDDOWN a = v"
proof
  assume in_page: "a - v < PGSIZE"
  have "v \<le> a"
  proof (rule ccontr)
    assume "\<not> v \<le> a"
    moreover from this have "unat (a - v) = 2 ^ 32 + unat a - unat v"
      by (simp add: unat_sub_if' word_le_nat_alt)
    ultimately have "2 ^ 32 - 4096 < unat v"
      using in_page unat_less32 [of v] by (simp add: word_less_nat_alt)
    moreover obtain k where "unat v = 4096 * k" using assms by (auto simp: aligned_iff)
    ultimately show False using unat_less32 [of v] by simp
  qed
  then have sub: "unat (a - v) = unat a - unat v" "unat v \<le> unat a"
    by (simp_all add: unat_sub word_le_nat_alt)
  obtain k where k: "unat v = 4096 * k" using assms by (auto simp: aligned_iff)
  define r where "r = unat a - unat v"
  have "unat a = 4096 * k + r" "r < 4096"
    using sub k in_page by (simp_all add: r_def word_less_nat_alt)
  then have "unat (PGROUNDDOWN a) = unat v" using k by (simp add: unat_PGROUNDDOWN)
  then show "PGROUNDDOWN a = v" by (simp add: word_unat_eq_iff)
next
  assume "PGROUNDDOWN a = v"
  then have "a - v = a mod PGSIZE" by (auto simp: PGROUNDDOWN_eq)
  then show "a - v < PGSIZE" by (simp add: word_less_nat_alt unat_mod_PGSIZE)
qed

lemma store32_in_page: "a - v < 4 \<Longrightarrow> a - v < PGSIZE"
  by (simp add: PGSIZE_def word_less_nat_alt)

lemma word_in_page: "i < 4 \<Longrightarrow> v + of_nat i - v < PGSIZE"
  by (simp add: word_less_nat_alt)

text \<open>Writing one page leaves the words at the start of the other pages alone.\<close>

lemma load32_other_page:
  assumes "v mod PGSIZE = 0" "w mod PGSIZE = 0" "v \<noteq> w"
    "\<And>a. \<not> a - v < PGSIZE \<Longrightarrow> m' a = m a"
  shows "load32 m' w = load32 m w"
proof (rule load32_cong)
  fix i :: nat assume "i < 4"
  then have "PGROUNDDOWN (w + of_nat i) = w"
    using in_page_iff [OF assms(2)] word_in_page by blast
  then have "\<not> w + of_nat i - v < PGSIZE" using assms(1,3) by (simp add: in_page_iff)
  then show "m' (w + of_nat i) = m (w + of_nat i)" by (rule assms(4))
qed

section \<open>A store of free nodes\<close>

text \<open>
  Repeated allocation until the store is empty or \<open>n\<close> nodes have been obtained.
\<close>

fun take_nodes :: "('s, 'n option) km \<Rightarrow> nat \<Rightarrow> ('s, 'n list) km" where
  "take_nodes alloc 0 = kret []"
| "take_nodes alloc (Suc n) = kbind alloc (\<lambda>r. case r of
     None \<Rightarrow> kret [] | Some x \<Rightarrow> kbind (take_nodes alloc n) (\<lambda>xs. kret (x # xs)))"

text \<open>
  \<open>rep s xs\<close>: in state \<open>s\<close> the free nodes are \<open>xs\<close>, the next one first; \<open>ok s x\<close>: \<open>x\<close> is a node that
  may be given back.
\<close>

locale free_store =
  fixes alloc :: "('s, 'n option) km"
    and free :: "'n \<Rightarrow> ('s, unit) km"
    and rep :: "'s \<Rightarrow> 'n list \<Rightarrow> bool"
    and ok :: "'s \<Rightarrow> 'n \<Rightarrow> bool"
  assumes alloc_Cons: "rep s (x # xs) \<Longrightarrow> \<exists>s'. alloc s = Ret (Some x) s' \<and> rep s' xs \<and> ok s' = ok s"
    and alloc_Nil: "rep s [] \<Longrightarrow> \<exists>s'. alloc s = Ret None s' \<and> rep s' [] \<and> ok s' = ok s"
    and free_push: "rep s xs \<Longrightarrow> ok s x \<Longrightarrow> x \<notin> set xs \<Longrightarrow>
      \<exists>s'. free x s = Ret () s' \<and> rep s' (x # xs) \<and> ok s' = ok s"
begin

lemma take_nodes_rep:
  "rep s xs \<Longrightarrow> \<exists>s'. take_nodes alloc n s = Ret (take n xs) s' \<and> rep s' (drop n xs) \<and> ok s' = ok s"
proof (induction n arbitrary: s xs)
  case 0
  then show ?case by (simp add: kmonad)
next
  case (Suc n)
  show ?case
  proof (cases xs)
    case Nil
    with alloc_Nil [of s] Suc.prems obtain s' where "alloc s = Ret None s'" "rep s' []" "ok s' = ok s"
      by auto
    with Nil show ?thesis by (simp add: kmonad)
  next
    case (Cons y ys)
    with alloc_Cons [of s y ys] Suc.prems obtain s1
      where s1: "alloc s = Ret (Some y) s1" "rep s1 ys" "ok s1 = ok s" by auto
    from Suc.IH [OF s1(2)] obtain s2
      where "take_nodes alloc n s1 = Ret (take n ys) s2" "rep s2 (drop n ys)" "ok s2 = ok s1" by blast
    with s1 Cons show ?thesis by (simp add: kmonad)
  qed
qed

lemma free_all_rep:
  "rep s xs \<Longrightarrow> distinct ys \<Longrightarrow> set ys \<inter> set xs = {} \<Longrightarrow> (\<And>y. y \<in> set ys \<Longrightarrow> ok s y) \<Longrightarrow>
    \<exists>s'. kfor ys free s = Ret () s' \<and> rep s' (rev ys @ xs) \<and> ok s' = ok s"
proof (induction ys arbitrary: s xs)
  case Nil
  then show ?case by (simp add: kmonad)
next
  case (Cons y ys)
  from free_push [of s xs y] Cons.prems obtain s1
    where s1: "free y s = Ret () s1" "rep s1 (y # xs)" "ok s1 = ok s" by auto
  from Cons.IH [OF s1(2)] Cons.prems s1(3) obtain s2
    where "kfor ys free s1 = Ret () s2" "rep s2 (rev ys @ y # xs)" "ok s2 = ok s1" by auto
  with s1 show ?case by (simp add: kmonad)
qed

lemma free_take_all:
  assumes "rep s []" "distinct ys" "\<And>y. y \<in> set ys \<Longrightarrow> ok s y"
  shows "\<exists>s'. kbind (kfor ys free) (\<lambda>_. take_nodes alloc (length ys)) s = Ret (rev ys) s' \<and> rep s' []"
proof -
  from free_all_rep [OF assms(1,2)] assms(3) obtain s1
    where s1: "kfor ys free s = Ret () s1" "rep s1 (rev ys)" by auto
  with take_nodes_rep [OF s1(2), of "length ys"] show ?thesis by (auto simp: kmonad)
qed

end

section \<open>The page allocator is a store of pages\<close>

definition page_ok :: "'z kmem_scheme \<Rightarrow> uint \<Rightarrow> bool" where
  "page_ok s v \<longleftrightarrow> v mod PGSIZE = 0 \<and> kend s \<le> v \<and> v2p v < PHYSTOP"

abbreviation free_next :: "bmem \<Rightarrow> uint \<Rightarrow> uint option" where
  "free_next m \<equiv> \<lambda>a. ptr (load32 m a)"

definition kmem_rep :: "'z kmem_scheme \<Rightarrow> uint list \<Rightarrow> bool" where
  "kmem_rep s xs \<longleftrightarrow> chain (free_next (mem s)) (ptr (freelist s)) xs \<and> distinct xs
     \<and> (\<forall>v \<in> set xs. page_ok s v) \<and> (use_lock s \<longrightarrow> lock_free KmemLock s) \<and> 0 < kend s"

lemma ptr_eq: "ptr a = Some b \<longleftrightarrow> a = b \<and> b \<noteq> 0" "ptr a = None \<longleftrightarrow> a = 0" "b \<noteq> 0 \<Longrightarrow> ptr b = Some b"
  by (auto simp: ptr_def)

lemma page_ok_nonzero: "page_ok s v \<Longrightarrow> 0 < kend s \<Longrightarrow> v \<noteq> 0"
  by (auto simp: page_ok_def)

text \<open>The new contents of memory: the page filled with ones, its first word the old list.\<close>

definition freed_mem :: "'z kmem_scheme \<Rightarrow> uint \<Rightarrow> bmem" where
  "freed_mem s v = store32 (memset (mem s) v 1 PGSIZE) v (freelist s)"

lemma kfree_run:
  assumes "page_ok s v" "use_lock s \<longrightarrow> lock_free KmemLock s"
  shows "kfree v s = Ret () (s\<lparr>mem := freed_mem s v, freelist := v\<rparr>)"
proof -
  have guard: "\<not> (v mod PGSIZE \<noteq> 0 \<or> v < kend s \<or> PHYSTOP \<le> v2p v)"
    using assms(1) by (auto simp: page_ok_def)
  show ?thesis
  proof (cases "use_lock s")
    case True
    with assms(2) have "owner s KmemLock = None" "0 \<le> ncli s (cpuid s)" by (auto simp: lock_free_def)
    with True guard show ?thesis
      by (simp add: kfree_def kmonad acquire_lk_def release_lk_def freed_mem_def fun_upd_idem)
  next
    case False
    with guard show ?thesis by (simp add: kfree_def kmonad freed_mem_def)
  qed
qed

lemma kfree_panics: "\<not> page_ok s v \<Longrightarrow> kfree v s = Stop (Panic ''kfree'')"
  by (auto simp: kfree_def page_ok_def kmonad)

lemma kalloc_run:
  assumes "use_lock s \<longrightarrow> lock_free KmemLock s"
  shows "kalloc s = Ret (ptr (freelist s))
    (if freelist s = 0 then s else s\<lparr>freelist := load32 (mem s) (freelist s)\<rparr>)"
proof (cases "use_lock s")
  case True
  with assms have "owner s KmemLock = None" "0 \<le> ncli s (cpuid s)" by (auto simp: lock_free_def)
  with True show ?thesis
    by (simp add: kalloc_def kmonad acquire_lk_def release_lk_def fun_upd_idem)
next
  case False
  then show ?thesis by (simp add: kalloc_def kmonad)
qed

lemma freed_mem_outside: "\<not> a - v < PGSIZE \<Longrightarrow> freed_mem s v a = mem s a"
proof -
  assume out: "\<not> a - v < PGSIZE"
  then have "\<not> a - v < 4" using store32_in_page by blast
  with out show ?thesis by (simp only: freed_mem_def store32_outside memset_apply if_False not_False_eq_True)
qed

lemma lock_free_update [simp]:
  "lock_free l (s\<lparr>mem := x\<rparr>) = lock_free l s" "lock_free l (s\<lparr>freelist := y\<rparr>) = lock_free l s"
  by (simp_all add: lock_free_def)

lemma page_ok_update [simp]:
  "page_ok (s\<lparr>mem := x\<rparr>) = page_ok s" "page_ok (s\<lparr>freelist := y\<rparr>) = page_ok s"
  by (auto simp: page_ok_def fun_eq_iff)

lemma kfree_rep:
  assumes "kmem_rep s xs" "page_ok s v" "v \<notin> set xs"
  shows "kmem_rep (s\<lparr>mem := freed_mem s v, freelist := v\<rparr>) (v # xs)"
proof -
  have "load32 (freed_mem s v) w = load32 (mem s) w" if "w \<in> set xs" for w
    using assms that by (intro load32_other_page [where v = v]) (auto simp: kmem_rep_def page_ok_def freed_mem_outside)
  then have "chain (free_next (freed_mem s v)) (ptr (freelist s)) xs"
    using assms(1) by (subst chain_cong [where g = "free_next (mem s)"]) (auto simp: kmem_rep_def)
  moreover have "load32 (freed_mem s v) v = freelist s" by (simp add: freed_mem_def)
  moreover have "v \<noteq> 0" using assms page_ok_nonzero by (auto simp: kmem_rep_def)
  ultimately show ?thesis using assms by (auto simp: kmem_rep_def ptr_eq)
qed

lemma kalloc_rep:
  assumes "kmem_rep s (x # xs)"
  shows "kalloc s = Ret (Some x) (s\<lparr>freelist := load32 (mem s) x\<rparr>)"
    "kmem_rep (s\<lparr>freelist := load32 (mem s) x\<rparr>) xs"
  using assms kalloc_run [of s] by (auto simp: kmem_rep_def ptr_eq)

interpretation pages: free_store kalloc kfree kmem_rep page_ok
proof
  fix s :: "'a kmem_scheme" and x xs
  show "kmem_rep s (x # xs) \<Longrightarrow> \<exists>s'. kalloc s = Ret (Some x) s' \<and> kmem_rep s' xs \<and> page_ok s' = page_ok s"
    using kalloc_rep [of s x xs] by simp
  show "kmem_rep s [] \<Longrightarrow> \<exists>s'. kalloc s = Ret None s' \<and> kmem_rep s' [] \<and> page_ok s' = page_ok s"
    using kalloc_run [of s] by (auto simp: kmem_rep_def ptr_eq)
  show "kmem_rep s xs \<Longrightarrow> page_ok s x \<Longrightarrow> x \<notin> set xs \<Longrightarrow>
      \<exists>s'. kfree x s = Ret () s' \<and> kmem_rep s' (x # xs) \<and> page_ok s' = page_ok s"
    using kfree_run [of s x] kfree_rep [of s xs x] by (auto simp: kmem_rep_def)
qed

text \<open>\<open>freerange\<close> frees the whole pages of its range in ascending order.\<close>

definition pages_from :: "uint \<Rightarrow> nat \<Rightarrow> uint list" where
  "pages_from p k = map (\<lambda>i. p + of_nat (4096 * i)) [0..<k]"

lemma pages_from_Suc: "pages_from p (Suc k) = p # pages_from (p + PGSIZE) k"
  by (simp add: pages_from_def upt_conv_Cons map_Suc_upt [symmetric] PGSIZE_def algebra_simps del: upt_Suc)

lemma freerange_loop_pages:
  assumes "unat vend + 8192 < 2 ^ 32" "unat p < unat vend + 4096" "(unat vend - unat p) div 4096 = k" "k < n"
  shows "freerange_loop n p vend = (kfor (pages_from p k) kfree :: ('z kmem_scheme, unit) km)"
  using assms
proof (induction k arbitrary: n p)
  case 0
  then have next_page: "unat (p + PGSIZE) = unat p + 4096" by (simp add: unat_plus_if')
  from 0 obtain n' where "n = Suc n'" by (cases n) auto
  moreover have "\<not> p + PGSIZE \<le> vend" using 0 by (simp add: word_le_nat_alt next_page)
  ultimately show ?case by (simp add: pages_from_def)
next
  case (Suc k)
  then have next_page: "unat (p + PGSIZE) = unat p + 4096" by (simp add: unat_plus_if')
  from Suc.prems obtain n' where n: "n = Suc n'" by (cases n) auto
  have more: "p + PGSIZE \<le> vend"
    using Suc.prems(3) by (simp add: word_le_nat_alt next_page)
  moreover have "freerange_loop n' (p + PGSIZE) vend
      = (kfor (pages_from (p + PGSIZE) k) kfree :: ('z kmem_scheme, unit) km)"
    by (rule Suc.IH) (use Suc.prems n more in \<open>auto simp: next_page word_le_nat_alt\<close>)
  ultimately show ?case by (simp add: n pages_from_Suc)
qed

lemma pages_from_ok:
  assumes "unat p + 4096 * k < 2 ^ 32" "p mod PGSIZE = 0" "kend s \<le> p" "unat p + 4096 * k \<le> 0x8E000000" "KERNBASE \<le> p"
  shows "distinct (pages_from p k) \<and> (\<forall>v \<in> set (pages_from p k). page_ok s v)"
proof -
  have at: "unat (p + of_nat (4096 * i)) = unat p + 4096 * i" if "i < k" for i
    using assms(1) that unat_of_nat32 [of "4096 * i"] by (simp add: unat_plus_if' del: unat_of_nat32 of_nat_mult)
  have "page_ok s (p + of_nat (4096 * i))" if "i < k" for i
  proof -
    have "KERNBASE \<le> p + of_nat (4096 * i)" "kend s \<le> p + of_nat (4096 * i)"
      using assms(3,5) at [OF that] by (simp_all add: word_le_nat_alt)
    moreover have "unat (v2p (p + of_nat (4096 * i))) < unat PHYSTOP"
      using assms(4) at [OF that] that calculation(1)
      by (simp add: v2p_def unat_sub KERNBASE_def PHYSTOP_def)
    moreover have "4096 dvd unat (p + of_nat (4096 * i))"
      using assms(2) at [OF that] by (simp add: aligned_iff del: of_nat_mult)
    ultimately show ?thesis by (simp add: page_ok_def aligned_iff word_less_nat_alt del: of_nat_mult)
  qed
  moreover have "inj_on (\<lambda>i. p + of_nat (4096 * i)) {0..<k}"
  proof (rule inj_onI)
    fix i j assume "i \<in> {0..<k}" "j \<in> {0..<k}" "p + of_nat (4096 * i) = p + (of_nat (4096 * j) :: uint)"
    then show "i = j" using at [of i] at [of j] by simp
  qed
  ultimately show ?thesis by (auto simp: pages_from_def distinct_map)
qed
lemma freerange_run:
  assumes "kmem_rep s xs" "KERNBASE \<le> vstart" "kend s \<le> vstart" "vstart \<le> vend" "vend \<le> p2v PHYSTOP"
    "\<And>v. v \<in> set xs \<Longrightarrow> v < vstart \<or> vend \<le> v"
  defines "p \<equiv> PGROUNDUP vstart" and "k \<equiv> (unat vend - unat (PGROUNDUP vstart)) div 4096"
  shows "\<exists>s'. freerange vstart vend s = Ret () s' \<and> kmem_rep s' (rev (pages_from p k) @ xs)"
proof -
  have top: "unat vend \<le> 0x8E000000"
    using assms(5) by (simp add: p2v_def PHYSTOP_def KERNBASE_def word_le_nat_alt)
  have start: "unat vstart \<le> unat vend" using assms(4) by (simp add: word_le_nat_alt)
  have "unat (vstart + PGSIZE - 1) = unat vstart + 4095"
    using top start by (simp add: PGSIZE_def unat_plus_if')
  then have p: "unat p = unat vstart + 4095 - (unat vstart + 4095) mod 4096"
    by (simp add: p_def PGROUNDUP_eq unat_PGROUNDDOWN)
  have p_bounds: "unat vstart \<le> unat p" "unat p < unat vend + 4096"
    using start mod_less_divisor [of 4096 "unat vstart + 4095"] unfolding p by auto
  have run: "freerange vstart vend = kfor (pages_from p k) (kfree :: uint \<Rightarrow> ('a kmem_scheme, unit) km)"
    unfolding freerange_def p_def k_def
    by (rule freerange_loop_pages) (use top p_bounds p_def in auto)
  have fits: "unat p + 4096 * k \<le> unat vend \<or> k = 0"
    unfolding k_def p_def [symmetric] by (cases "unat p \<le> unat vend") auto
  show ?thesis
  proof (cases "k = 0")
    case True
    with assms(1) show ?thesis by (simp add: run pages_from_def kmonad)
  next
    case False
    with fits have fits: "unat p + 4096 * k \<le> unat vend" by simp
    have ok: "distinct (pages_from p k) \<and> (\<forall>v \<in> set (pages_from p k). page_ok s v)"
      by (rule pages_from_ok) (use assms top p_bounds fits p_def in \<open>auto simp: word_le_nat_alt\<close>)
    have "v \<notin> set xs" if v: "v \<in> set (pages_from p k)" for v
    proof -
      from v obtain i where i: "i < k" "v = p + of_nat (4096 * i)" by (auto simp: pages_from_def)
      have "unat v = unat p + 4096 * i"
        using i fits top unat_of_nat32 [of "4096 * i"] by (simp add: unat_plus_if' del: unat_of_nat32 of_nat_mult)
      then have "vstart \<le> v" "v < vend"
        using i(1) fits p_bounds(1) by (simp_all add: word_le_nat_alt word_less_nat_alt)
      with assms(6) show ?thesis by force
    qed
    then have "set (pages_from p k) \<inter> set xs = {}" by blast
    with pages.free_all_rep [OF assms(1), of "pages_from p k"] ok show ?thesis
      unfolding run by blast
  qed
qed

section \<open>Properties\<close>

text \<open>A state with two pages of memory after the kernel, for the witnesses.\<close>

definition kmem_demo :: kmem where
  "kmem_demo = \<lparr>owner = (\<lambda>_. None), ncli = (\<lambda>_. 0), cpuid = 0, printed = [], devices = boot_hw, mem = (\<lambda>_. 0), freelist = 0,
     use_lock = True, kend = 0x80200000, kdata = 0x80108000\<rparr>"

lemma kmem_demo_rep: "kmem_rep kmem_demo []"
  by (simp add: kmem_rep_def kmem_demo_def ptr_def lock_free_def)

text \<open>C5. \<open>kfree\<close> and \<open>kalloc\<close> are push and pop of a stack of pages: freeing a page the kernel may
  free puts it in front of the free list, fills it with ones behind the link word and writes no
  other page; the next \<open>kalloc\<close> returns that page and the list is as before. An address that is not
  page-aligned, lies below the end of the kernel or above \<open>PHYSTOP\<close> makes \<open>kfree\<close> panic.\<close>

theorem kalloc_kfree_stack:
  assumes "kmem_rep s xs" "v \<notin> set xs"
  shows "if v mod PGSIZE = 0 \<and> kend s \<le> v \<and> v2p v < PHYSTOP
    then \<exists>s' s''. kfree v s = Ret () s' \<and> kmem_rep s' (v # xs)
      \<and> (\<forall>a. mem s' a = (if a - v < 4 then mem s' a else if a - v < PGSIZE then 1 else mem s a))
      \<and> kalloc s' = Ret (Some v) s'' \<and> kmem_rep s'' xs
    else kfree v s = Stop (Panic ''kfree'')"
proof (cases "page_ok s v")
  case True
  let ?s = "s\<lparr>mem := freed_mem s v, freelist := v\<rparr>"
  have rep: "kmem_rep ?s (v # xs)" using assms True by (intro kfree_rep)
  have "kfree v s = Ret () ?s" using assms True by (intro kfree_run) (auto simp: kmem_rep_def)
  moreover have "freed_mem s v a = (if a - v < PGSIZE then 1 else mem s a)" if "\<not> a - v < 4" for a
    using that by (simp only: freed_mem_def store32_outside memset_apply not_False_eq_True) simp
  ultimately have "kfree v s = Ret () ?s \<and> kmem_rep ?s (v # xs)
      \<and> (\<forall>a. mem ?s a = (if a - v < 4 then mem ?s a else if a - v < PGSIZE then 1 else mem s a))
      \<and> kalloc ?s = Ret (Some v) (?s\<lparr>freelist := load32 (mem ?s) v\<rparr>)
      \<and> kmem_rep (?s\<lparr>freelist := load32 (mem ?s) v\<rparr>) xs"
    using rep kalloc_rep [OF rep] by auto
  with True show ?thesis unfolding page_ok_def by auto
next
  case False
  then show ?thesis using kfree_panics [OF False] by (auto simp: page_ok_def)
qed

theorem kalloc_kfree_stack_witness:
  "(\<exists>s'. kfree 0x80201000 kmem_demo = Ret () s' \<and> kmem_rep s' [0x80201000])
    \<and> kfree 0x80201004 kmem_demo = Stop (Panic ''kfree'')"
  using kalloc_kfree_stack [OF kmem_demo_rep, of "0x80201000"]
    kalloc_kfree_stack [OF kmem_demo_rep, of "0x80201004"]
  by (auto simp: PGSIZE_def kmem_demo_def v2p_def KERNBASE_def PHYSTOP_def)

text \<open>C17. \<open>freerange\<close>, on an empty free list and a range of kernel memory that ends at or below
  \<open>PHYSTOP\<close>, ends and frees every whole page of the range: as many calls of \<open>kalloc\<close> as there are
  such pages return each of them exactly once, the highest first, and the list is empty again.\<close>

theorem freerange_gives_each_page_once:
  assumes "kmem_rep s []" "KERNBASE \<le> vstart" "kend s \<le> vstart" "vstart \<le> vend" "vend \<le> p2v PHYSTOP"
  defines "k \<equiv> (unat vend - unat (PGROUNDUP vstart)) div 4096"
  shows "\<exists>s'. kbind (freerange vstart vend) (\<lambda>_. take_nodes kalloc (Suc k)) s
      = Ret (rev (pages_from (PGROUNDUP vstart) k)) s' \<and> kmem_rep s' []"
proof -
  from freerange_run [OF assms(1-5)] obtain s1
    where s1: "freerange vstart vend s = Ret () s1"
      "kmem_rep s1 (rev (pages_from (PGROUNDUP vstart) k))" by (auto simp: k_def)
  moreover have "length (pages_from p k) = k" for p by (simp add: pages_from_def)
  ultimately show ?thesis
    using pages.take_nodes_rep [OF s1(2), of "Suc k"] by (auto simp: kmonad)
qed

theorem freerange_gives_each_page_once_witness:
  "\<exists>s'. kbind (freerange 0x80200800 0x80203800) (\<lambda>_. take_nodes kalloc 3) kmem_demo
     = Ret [0x80202000, 0x80201000] s' \<and> kmem_rep s' []"
proof -
  have up: "PGROUNDUP 0x80200800 = 0x80201000"
    by (simp add: PGROUNDUP_eq PGROUNDDOWN_eq PGSIZE_def)
  have k: "(unat (0x80203800 :: uint) - unat (0x80201000 :: uint)) div 4096 = Suc (Suc 0)" by simp
  have "pages_from 0x80201000 (Suc (Suc 0)) = [0x80201000, 0x80202000]" by (simp add: pages_from_def)
  then show ?thesis
    using freerange_gives_each_page_once [OF kmem_demo_rep, of "0x80200800" "0x80203800", unfolded up k]
    by (simp add: kmem_demo_def KERNBASE_def p2v_def PHYSTOP_def numeral_3_eq_3 del: take_nodes.simps)
qed

end
