(* ===== verification/Proc_Table.thy ===== *)
theory Proc_Table
  imports Kalloc
begin

text \<open>
  The process table of \<open>proc.c\<close>: \<open>struct proc\<close>, the table with its three ready lists and its free
  list, and the routines that maintain the lists. All lists are threaded through the \<open>next\<close> field of
  the processes, so a process can be on one list at a time; \<open>lists_rep\<close> relates the pointers to the
  lists they stand for, and each routine is shown to act on these lists as it should.

  The pointer \<open>&ptable.proc[i]\<close> is the number \<open>i\<close>, the null pointer is \<open>None\<close>. A traversal takes as
  fuel the number of processes: a chain without a cycle is never longer, so running out of fuel is
  the outcome \<open>Hang\<close> of a traversal that would go round for ever.
\<close>

section \<open>Data\<close>

definition NPROC :: nat where
  "NPROC = 64"

definition NOFILE :: nat where
  "NOFILE = 16"

definition KSTACKSIZE :: uint where
  "KSTACKSIZE = 4096"

datatype procstate = UNUSED | EMBRYO | SLEEPING | RUNNABLE | RUNNING | ZOMBIE

text \<open>The addresses processes sleep on, by the object they belong to.\<close>

datatype chan = CNull | ProcChan nat | TicksChan | BufChan nat | LogChan | InodeChan nat
  | PipeRead uint | PipeWrite uint | InputChan

definition proc_chan :: "nat option \<Rightarrow> chan" where
  "proc_chan p = (case p of None \<Rightarrow> CNull | Some q \<Rightarrow> ProcChan q)"

record trapframe =
  tf_edi :: uint
  tf_esi :: uint
  tf_ebp :: uint
  tf_oesp :: uint
  tf_ebx :: uint
  tf_edx :: uint
  tf_ecx :: uint
  tf_eax :: uint
  tf_gs :: u16
  tf_fs :: u16
  tf_es :: u16
  tf_ds :: u16
  tf_trapno :: uint
  tf_err :: uint
  tf_eip :: uint
  tf_cs :: u16
  tf_eflags :: uint
  tf_esp :: uint
  tf_ss :: u16

record kcontext =
  cx_edi :: uint
  cx_esi :: uint
  cx_ebx :: uint
  cx_ebp :: uint
  cx_eip :: uint

record proc =
  p_sz :: uint
  p_pgdir :: uint
  p_kstack :: uint
  p_state :: procstate
  p_pid :: int
  p_uid :: int
  p_gid :: int
  p_priority :: int
  p_parent :: "nat option"
  p_tf :: trapframe
  p_context :: kcontext
  p_chan :: chan
  p_killed :: bool
  p_ofile :: "nat \<Rightarrow> nat option"
  p_cwd :: "nat option"
  p_next :: "nat option"
  p_name :: "u8 list"

text \<open>Zeroed memory, as the loader leaves the table at boot.\<close>

definition zero_tf :: trapframe where
  "zero_tf = \<lparr>tf_edi = 0, tf_esi = 0, tf_ebp = 0, tf_oesp = 0, tf_ebx = 0, tf_edx = 0, tf_ecx = 0, tf_eax = 0,
     tf_gs = 0, tf_fs = 0, tf_es = 0, tf_ds = 0, tf_trapno = 0, tf_err = 0, tf_eip = 0, tf_cs = 0,
     tf_eflags = 0, tf_esp = 0, tf_ss = 0\<rparr>"

definition zero_context :: kcontext where
  "zero_context = \<lparr>cx_edi = 0, cx_esi = 0, cx_ebx = 0, cx_ebp = 0, cx_eip = 0\<rparr>"

definition zero_proc :: proc where
  "zero_proc = \<lparr>p_sz = 0, p_pgdir = 0, p_kstack = 0, p_state = UNUSED, p_pid = 0, p_uid = 0, p_gid = 0,
     p_priority = 0, p_parent = None, p_tf = zero_tf, p_context = zero_context, p_chan = CNull,
     p_killed = False, p_ofile = (\<lambda>_. None), p_cwd = None, p_next = None, p_name = []\<rparr>"

text \<open>
  The kernel state with the process table: \<open>cproc c\<close> is the variable \<open>proc\<close> of CPU \<open>c\<close>, \<open>cr3\<close> and
  \<open>esp0\<close> its page directory register and the stack pointer in its task segment, \<open>kpgdir\<close> the page
  directory of the scheduler and \<open>forkret_at\<close> the address at which \<open>forkret\<close> is linked.
\<close>

record ptable = kmem +
  procs :: "nat \<Rightarrow> proc"
  pReadyList :: "nat \<Rightarrow> nat option"
  pFreeList :: "nat option"
  TimeToReset :: uint
  initproc :: "nat option"
  nextpid :: int
  cproc :: "nat \<Rightarrow> nat option"
  cr3 :: "nat \<Rightarrow> uint"
  esp0 :: "nat \<Rightarrow> uint"
  kpgdir :: uint
  forkret_at :: uint
  ticks :: uint

definition upd_proc :: "nat \<Rightarrow> (proc \<Rightarrow> proc) \<Rightarrow> ('z ptable_scheme, unit) km" where
  "upd_proc p f = kmod (\<lambda>s. s\<lparr>procs := (procs s)(p := f (procs s p))\<rparr>)"

definition the_proc :: "nat \<Rightarrow> (proc \<Rightarrow> 'a) \<Rightarrow> ('z ptable_scheme, 'a) km" where
  "the_proc p f = kget (\<lambda>s. f (procs s p))"

definition set_next :: "nat \<Rightarrow> nat option \<Rightarrow> ('z ptable_scheme, unit) km" where
  "set_next p q = upd_proc p (\<lambda>x. x\<lparr>p_next := q\<rparr>)"

definition set_state :: "nat \<Rightarrow> procstate \<Rightarrow> ('z ptable_scheme, unit) km" where
  "set_state p st = upd_proc p (\<lambda>x. x\<lparr>p_state := st\<rparr>)"

definition nexts :: "'z ptable_scheme \<Rightarrow> nat \<Rightarrow> nat option" where
  "nexts s = (\<lambda>p. p_next (procs s p))"

lemma p_next_procs: "p_next (procs s p) = nexts s p"
  by (simp add: nexts_def)

lemma nexts_upd [simp]:
  "nexts (s\<lparr>procs := (procs s)(p := x)\<rparr>) = (nexts s)(p := p_next x)"
  "nexts (s\<lparr>pReadyList := rl\<rparr>) = nexts s" "nexts (s\<lparr>pFreeList := fl\<rparr>) = nexts s"
  by (auto simp: nexts_def fun_eq_iff)

text \<open>\<open>ptable.pReadyList[i]\<close>: an index outside the array has no meaning.\<close>

definition ready_at :: "int \<Rightarrow> ('z ptable_scheme, nat option) km" where
  "ready_at i = (if 0 \<le> i \<and> i < 3 then kget (\<lambda>s. pReadyList s (nat i)) else kfault ''pReadyList'')"

definition set_ready :: "int \<Rightarrow> nat option \<Rightarrow> ('z ptable_scheme, unit) km" where
  "set_ready i q = (if 0 \<le> i \<and> i < 3 then kmod (\<lambda>s. s\<lparr>pReadyList := (pReadyList s)(nat i := q)\<rparr>)
     else kfault ''pReadyList'')"

section \<open>The list routines\<close>

text \<open>\<open>while (temp->next != 0) temp = temp->next\<close>\<close>

fun list_end :: "nat \<Rightarrow> (nat \<Rightarrow> nat option) \<Rightarrow> nat \<Rightarrow> nat option" where
  "list_end 0 nxt t = None"
| "list_end (Suc n) nxt t = (case nxt t of None \<Rightarrow> Some t | Some u \<Rightarrow> list_end n nxt u)"

definition to_end :: "nat \<Rightarrow> ('z ptable_scheme, nat) km" where
  "to_end t = kbind (kget (\<lambda>s. list_end NPROC (nexts s) t)) (\<lambda>r. case r of
     None \<Rightarrow> khang ''list'' | Some e \<Rightarrow> kret e)"

definition AddFreeList :: "nat option \<Rightarrow> ('z ptable_scheme, int) km" where
  "AddFreeList toadd = (case toadd of
     None \<Rightarrow> kret (- 1)
   | Some p \<Rightarrow> kbind (kget pFreeList) (\<lambda>hd.
       if hd = None then
         kdo2 [kmod (\<lambda>s. s\<lparr>pFreeList := Some p\<rparr>), set_next p None] (kret 0)
       else
         kdo2 [kmod (\<lambda>s. s\<lparr>pFreeList := Some p\<rparr>), set_next p hd] (kret 0)))"

definition RemoveFreeList :: "('z ptable_scheme, nat option) km" where
  "RemoveFreeList = kbind (kget pFreeList) (\<lambda>hd. case hd of
     None \<Rightarrow> kret None
   | Some p \<Rightarrow> kdo2 [kmod (\<lambda>s. s\<lparr>pFreeList := nexts s p\<rparr>)] (kret (Some p)))"

definition AddReadyList :: "nat \<Rightarrow> ('z ptable_scheme, int) km" where
  "AddReadyList toadd = kbind (the_proc toadd p_state) (\<lambda>st.
     if st \<noteq> RUNNABLE then kret (- 1)
     else kbind (the_proc toadd p_priority) (\<lambda>priority.
       kbind (ready_at priority) (\<lambda>hd. case hd of
         None \<Rightarrow> kdo2 [set_ready priority (Some toadd), set_next toadd None] (kret 0)
       | Some h \<Rightarrow> kbind (to_end h) (\<lambda>temp.
           kdo2 [set_next toadd None, set_next temp (Some toadd)] (kret 0)))))"

text \<open>
  \<open>while (current != toremove) { prev = current; current = current->next; }\<close>: the result is the
  final \<open>prev\<close>; a step from the null pointer has no meaning.
\<close>

fun find_prev :: "nat \<Rightarrow> (nat \<Rightarrow> nat option) \<Rightarrow> nat option \<Rightarrow> nat option \<Rightarrow> nat \<Rightarrow> stop + nat option" where
  "find_prev 0 nxt prev cur t = Inl (Hang ''list'')"
| "find_prev (Suc n) nxt prev cur t =
     (if cur = Some t then Inr prev
      else case cur of None \<Rightarrow> Inl (Fault ''RemoveReadyList'') | Some c \<Rightarrow> find_prev n nxt (Some c) (nxt c) t)"

definition RemoveReadyList :: "nat \<Rightarrow> ('z ptable_scheme, int) km" where
  "RemoveReadyList toremove = kbind (the_proc toremove p_priority) (\<lambda>priority.
     kbind (ready_at priority) (\<lambda>hd. case hd of
       None \<Rightarrow> kret (- 1)
     | Some h \<Rightarrow> kbind (the_proc h p_next) (\<lambda>n.
         if n = None then kdo2 [set_ready priority None] (kret 0)
         else if h = toremove then kdo2 [set_ready priority n] (kret 0)
         else kbind (kget (\<lambda>s. find_prev (Suc NPROC) (nexts s) None (Some h) toremove)) (\<lambda>r. case r of
             Inl e \<Rightarrow> (\<lambda>s. Stop e)
           | Inr prev \<Rightarrow> kbind (kderef ''prev'' prev) (\<lambda>q.
               kbind (the_proc toremove p_next) (\<lambda>nn. kdo2 [set_next q nn] (kret 0)))))))"

definition GetReady :: "('z ptable_scheme, nat option) km" where
  "GetReady = kget (\<lambda>s. case pReadyList s 0 of Some p \<Rightarrow> Some p | None \<Rightarrow>
     (case pReadyList s 1 of Some p \<Rightarrow> Some p | None \<Rightarrow> pReadyList s 2))"

text \<open>The two halves of \<open>ResetPriority\<close> have the same text for the lists 0 and 2.\<close>

definition merge_into_1 :: "nat \<Rightarrow> ('z ptable_scheme, unit) km" where
  "merge_into_1 i = kbind (kget (\<lambda>s. pReadyList s i)) (\<lambda>from.
     if from \<noteq> None then
       kdo [kbind (kget (\<lambda>s. pReadyList s 1)) (\<lambda>hd. case hd of
              None \<Rightarrow> kmod (\<lambda>s. s\<lparr>pReadyList := (pReadyList s)(1 := from)\<rparr>)
            | Some h \<Rightarrow> kbind (to_end h) (\<lambda>temp. set_next temp from)),
            kmod (\<lambda>s. s\<lparr>pReadyList := (pReadyList s)(i := None)\<rparr>)]
     else kret ())"

definition ResetPriority :: "('z ptable_scheme, int) km" where
  "ResetPriority = kdo2 [
     kfor [0..<NPROC] (\<lambda>p. upd_proc p (\<lambda>x. x\<lparr>p_priority := 1\<rparr>)),
     merge_into_1 0,
     merge_into_1 2] (kret 0)"

text \<open>\<open>setpriority\<close>: the first process with the pid, if any.\<close>

fun setpriority_loop :: "nat list \<Rightarrow> int \<Rightarrow> int \<Rightarrow> ('z ptable_scheme, int) km" where
  "setpriority_loop [] pid priority = kret 0"
| "setpriority_loop (p # ps) pid priority = kbind (the_proc p p_pid) (\<lambda>n.
     if n = pid then kdo2 [upd_proc p (\<lambda>x. x\<lparr>p_priority := priority\<rparr>)] (kret 0)
     else setpriority_loop ps pid priority)"

definition setpriority :: "int \<Rightarrow> int \<Rightarrow> ('z ptable_scheme, int) km" where
  "setpriority pid priority = setpriority_loop [0..<NPROC] pid priority"
section \<open>The lists behind the pointers\<close>

text \<open>\<open>links_ok nx rl fl R F\<close>: the links \<open>nx\<close>, ready heads \<open>rl\<close> and free head \<open>fl\<close> represent the three
  ready lists \<open>R 0\<close>, \<open>R 1\<close>, \<open>R 2\<close> and the free list \<open>F\<close>.\<close>

definition links_ok :: "(nat \<Rightarrow> nat option) \<Rightarrow> (nat \<Rightarrow> nat option) \<Rightarrow> nat option \<Rightarrow> (nat \<Rightarrow> nat list)
    \<Rightarrow> nat list \<Rightarrow> bool" where
  "links_ok nx rl fl R F \<longleftrightarrow> (\<forall>i < 3. chain nx (rl i) (R i)) \<and> chain nx fl F
     \<and> distinct (R 0 @ R 1 @ R 2 @ F) \<and> set (R 0 @ R 1 @ R 2 @ F) \<subseteq> {..<NPROC}"

definition lists_rep :: "'z ptable_scheme \<Rightarrow> (nat \<Rightarrow> nat list) \<Rightarrow> nat list \<Rightarrow> bool" where
  "lists_rep s R F = links_ok (nexts s) (pReadyList s) (pFreeList s) R F"

text \<open>The part of the state the list routines change.\<close>

definition relink :: "(nat \<Rightarrow> nat option) \<Rightarrow> (nat \<Rightarrow> nat option) \<Rightarrow> nat option \<Rightarrow> 'z ptable_scheme
    \<Rightarrow> 'z ptable_scheme" where
  "relink nx rl fl s = s\<lparr>procs := (\<lambda>p. (procs s p)\<lparr>p_next := nx p\<rparr>), pReadyList := rl, pFreeList := fl\<rparr>"

lemma relink_relink [simp]: "relink nx rl fl (relink nx' rl' fl' s) = relink nx rl fl s"
  by (simp add: relink_def)

lemma nexts_relink [simp]: "nexts (relink nx rl fl s) = nx"
  by (simp add: relink_def nexts_def)

lemma relink_same [simp]: "relink (nexts s) (pReadyList s) (pFreeList s) s = s"
  by (simp add: relink_def nexts_def)

lemma relink_sel [simp]:
  "procs (relink nx rl fl s) p = (procs s p)\<lparr>p_next := nx p\<rparr>"
  "pReadyList (relink nx rl fl s) = rl" "pFreeList (relink nx rl fl s) = fl"
  "TimeToReset (relink nx rl fl s) = TimeToReset s" "initproc (relink nx rl fl s) = initproc s"
  "nextpid (relink nx rl fl s) = nextpid s" "cproc (relink nx rl fl s) = cproc s"
  "cr3 (relink nx rl fl s) = cr3 s" "esp0 (relink nx rl fl s) = esp0 s" "ticks (relink nx rl fl s) = ticks s"
  "kpgdir (relink nx rl fl s) = kpgdir s" "forkret_at (relink nx rl fl s) = forkret_at s"
  "owner (relink nx rl fl s) = owner s" "ncli (relink nx rl fl s) = ncli s" "cpuid (relink nx rl fl s) = cpuid s"
  "mem (relink nx rl fl s) = mem s" "freelist (relink nx rl fl s) = freelist s"
  "use_lock (relink nx rl fl s) = use_lock s" "kend (relink nx rl fl s) = kend s"
  by (simp_all add: relink_def)

lemma lists_rep_relink [simp]: "lists_rep (relink nx rl fl s) R F = links_ok nx rl fl R F"
  by (simp add: lists_rep_def)

lemma set_next_run: "set_next p q s = Ret () (relink ((nexts s)(p := q)) (pReadyList s) (pFreeList s) s)"
proof -
  have "(procs s)(p := (procs s p)\<lparr>p_next := q\<rparr>) = (\<lambda>x. (procs s x)\<lparr>p_next := ((nexts s)(p := q)) x\<rparr>)"
    by (rule ext) (simp add: nexts_def)
  then show ?thesis by (simp only: set_next_def upd_proc_def relink_def kmod_apply) simp
qed

lemma set_ready_run:
  "i < 3 \<Longrightarrow> set_ready (int i) q s = Ret () (relink (nexts s) ((pReadyList s)(i := q)) (pFreeList s) s)"
  by (simp add: set_ready_def relink_def nexts_def kmonad)

lemma set_free_eq: "s\<lparr>pFreeList := q\<rparr> = relink (nexts s) (pReadyList s) q s"
  by (simp add: relink_def nexts_def)

lemma ready_at_run: "i < 3 \<Longrightarrow> ready_at (int i) s = Ret (pReadyList s i) s"
  by (simp add: ready_at_def kmonad)

text \<open>Lists of processes fit the fuel.\<close>

lemma procs_length: "distinct xs \<Longrightarrow> set xs \<subseteq> {..<NPROC} \<Longrightarrow> length xs \<le> NPROC"
  by (metis card_lessThan card_mono distinct_card finite_lessThan)

lemma list_end_chain:
  "chain nx (Some t) xs \<Longrightarrow> length xs \<le> n \<Longrightarrow> list_end n nx t = Some (last xs)"
proof (induction n nx t arbitrary: xs rule: list_end.induct)
  case (1 nx t)
  then show ?case by (auto simp: chain_Some)
next
  case (2 n nx t)
  then obtain ys where ys: "xs = t # ys" "chain nx (nx t) ys" by (auto simp: chain_Some)
  show ?case
  proof (cases "nx t")
    case None
    with ys show ?thesis by simp
  next
    case (Some u)
    with "2.IH" [OF Some, of ys] "2.prems" ys show ?thesis by (auto simp: chain_Some)
  qed
qed

lemma to_end_run:
  assumes "chain (nexts s) (Some t) xs" "distinct xs" "set xs \<subseteq> {..<NPROC}"
  shows "to_end t s = Ret (last xs) s"
  using list_end_chain [OF assms(1) procs_length] assms by (simp add: to_end_def kmonad)

lemma find_prev_chain:
  assumes "chain nx (Some h) (xs @ q # t # ys)" "t \<notin> set (xs @ [q])" "length xs + 2 < n"
  shows "find_prev n nx pr (Some h) t = Inr (Some q)"
  using assms
proof (induction xs arbitrary: n h pr)
  case Nil
  then obtain m where "n = Suc (Suc m)" by (auto simp: less_iff_Suc_add)
  with Nil show ?case by auto
next
  case (Cons x xs)
  from Cons.prems(3) obtain m where m: "n = Suc m" by (cases n) auto
  from Cons.prems have x: "x = h" "h \<noteq> t" "chain nx (nx h) (xs @ q # t # ys)" by auto
  then obtain u where u: "nx h = Some u" by (cases "nx h") auto
  have "find_prev m nx (Some h) (Some u) t = Inr (Some q)"
    by (rule Cons.IH) (use x u m Cons.prems in auto)
  with x u m show ?case by simp
qed

section \<open>What the list routines do\<close>

lemma less_3_cases: "i < (3 :: nat) \<Longrightarrow> i = 0 \<or> i = 1 \<or> i = 2"
  by auto

lemma links_okD:
  assumes "links_ok nx rl fl R F" "i < 3"
  shows "chain nx (rl i) (R i)" "distinct (R i)" "set (R i) \<subseteq> {..<NPROC}" "set (R i) \<inter> set F = {}"
    "j < 3 \<Longrightarrow> j \<noteq> i \<Longrightarrow> set (R i) \<inter> set (R j) = {}"
proof -
  have i: "i = 0 \<or> i = 1 \<or> i = 2" using assms(2) by auto
  show "chain nx (rl i) (R i)" "distinct (R i)" "set (R i) \<subseteq> {..<NPROC}" "set (R i) \<inter> set F = {}"
    using assms(1) i by (auto simp: links_ok_def)
  assume "j < 3" "j \<noteq> i"
  then show "set (R i) \<inter> set (R j) = {}"
    using less_3_cases [of j] assms(1) i by (auto simp: links_ok_def)
qed

lemma links_ok_freeD:
  "links_ok nx rl fl R F \<Longrightarrow> chain nx fl F \<and> distinct F \<and> set F \<subseteq> {..<NPROC}"
  by (auto simp: links_ok_def)

definition off_lists :: "nat \<Rightarrow> (nat \<Rightarrow> nat list) \<Rightarrow> nat list \<Rightarrow> bool" where
  "off_lists p R F \<longleftrightarrow> p < NPROC \<and> (\<forall>i < 3. p \<notin> set (R i)) \<and> p \<notin> set F"

text \<open>One step on the links of list \<open>i\<close>: the other lists do not use the changed link.\<close>

lemma links_ok_change:
  assumes "links_ok nx rl fl R F" "i < 3" "chain nx' q ys" "distinct ys" "set ys \<subseteq> {..<NPROC}"
    "\<And>x. x \<notin> set ys \<union> set (R i) \<Longrightarrow> nx' x = nx x"
    "\<And>x. x \<in> set ys \<Longrightarrow> x \<in> set (R i) \<or> off_lists x R F"
  shows "links_ok nx' (rl(i := q)) fl (R(i := ys)) F"
proof -
  have disj: "set ys \<inter> set (R j) = {}" if "j < 3" "j \<noteq> i" for j
    using assms(7) links_okD(5) [OF assms(1,2) that] that(1) by (auto simp: off_lists_def)
  have disjF: "set ys \<inter> set F = {}"
    using assms(7) links_okD(4) [OF assms(1,2)] by (auto simp: off_lists_def)
  have other: "chain nx' (rl j) (R j)" if "j < 3" "j \<noteq> i" for j
  proof -
    have "nx' x = nx x" if "x \<in> set (R j)" for x
      using assms(6) [of x] that disj links_okD(5) [OF assms(1,2) \<open>j < 3\<close> \<open>j \<noteq> i\<close>] \<open>j < 3\<close> \<open>j \<noteq> i\<close> by auto
    then show ?thesis using links_okD(1) [OF assms(1) that(1)] chain_cong by metis
  qed
  have free: "chain nx' fl F"
  proof -
    have "nx' x = nx x" if "x \<in> set F" for x
      using assms(6) [of x] that disjF links_okD(4) [OF assms(1,2)] by auto
    then show ?thesis using links_ok_freeD [OF assms(1)] chain_cong by metis
  qed
  have "distinct ((R(i := ys)) 0 @ (R(i := ys)) 1 @ (R(i := ys)) 2 @ F)"
    using assms(1,4) disj [of 0] disj [of 1] disj [of 2] disjF less_3_cases [OF assms(2)]
    by (auto simp: links_ok_def)
  moreover have "set ((R(i := ys)) 0 @ (R(i := ys)) 1 @ (R(i := ys)) 2 @ F) \<subseteq> {..<NPROC}"
    using assms(1,5) by (auto simp: links_ok_def)
  ultimately show ?thesis
    using other free assms(3) by (simp add: links_ok_def)
qed

lemma AddReadyList_run:
  assumes rep: "lists_rep s R F" and off: "off_lists p R F"
    and st: "p_state (procs s p) = RUNNABLE" and pr: "p_priority (procs s p) = int i" "i < 3"
  shows "\<exists>nx rl. AddReadyList p s = Ret 0 (relink nx rl (pFreeList s) s)
    \<and> links_ok nx rl (pFreeList s) (R(i := R i @ [p])) F"
proof -
  have ok: "links_ok (nexts s) (pReadyList s) (pFreeList s) R F" using rep by (simp add: lists_rep_def)
  note Ri = links_okD [OF ok pr(2)]
  have new: "distinct (R i @ [p])" "set (R i @ [p]) \<subseteq> {..<NPROC}"
    using Ri off pr(2) by (auto simp: off_lists_def)
  show ?thesis
  proof (cases "R i = []")
    case True
    then have empty: "pReadyList s i = None" using Ri(1) by simp
    have run: "AddReadyList p s
        = Ret 0 (relink ((nexts s)(p := None)) ((pReadyList s)(i := Some p)) (pFreeList s) s)"
      using pr st empty
      by (simp add: AddReadyList_def the_proc_def p_next_procs kmonad ready_at_run set_ready_run set_next_run)
    have "links_ok ((nexts s)(p := None)) ((pReadyList s)(i := Some p)) (pFreeList s) (R(i := R i @ [p])) F"
      by (rule links_ok_change [OF ok pr(2)]) (use True new off in auto)
    with run show ?thesis by blast
  next
    case False
    then obtain h where h: "pReadyList s i = Some h" using Ri(1) by (cases "pReadyList s i") auto
    from False obtain xs e where xs: "R i = xs @ [e]" by (metis rev_exhaust)
    have "to_end h s = Ret e s"
      using to_end_run [of s h "R i"] Ri h xs by simp
    then have run: "AddReadyList p s
        = Ret 0 (relink ((nexts s)(p := None, e := Some p)) (pReadyList s) (pFreeList s) s)"
      using pr st h
      by (simp add: AddReadyList_def the_proc_def p_next_procs kmonad ready_at_run set_next_run)
    have pe: "p \<noteq> e" using new xs by auto
    have "chain ((nexts s)(e := Some p, p := None)) (pReadyList s i) (xs @ [e, p])"
      by (rule chain_snoc) (use Ri xs new in auto)
    then have "links_ok ((nexts s)(p := None, e := Some p)) ((pReadyList s)(i := pReadyList s i))
        (pFreeList s) (R(i := R i @ [p])) F"
      by (intro links_ok_change [OF ok pr(2)]) (use xs new off pe in \<open>auto simp: fun_upd_twist\<close>)
    with run show ?thesis by auto
  qed
qed

lemma AddReadyList_not_runnable: "p_state (procs s p) \<noteq> RUNNABLE \<Longrightarrow> AddReadyList p s = Ret (- 1) s"
  by (simp add: AddReadyList_def the_proc_def kmonad)

lemma RemoveReadyList_run:
  assumes rep: "lists_rep s R F" and on: "p \<in> set (R i)"
    and pr: "p_priority (procs s p) = int i" "i < 3"
  shows "\<exists>nx rl. RemoveReadyList p s = Ret 0 (relink nx rl (pFreeList s) s)
    \<and> links_ok nx rl (pFreeList s) (R(i := remove1 p (R i))) F"
proof -
  have ok: "links_ok (nexts s) (pReadyList s) (pFreeList s) R F" using rep by (simp add: lists_rep_def)
  note Ri = links_okD [OF ok pr(2)]
  have sub: "set (remove1 p (R i)) \<subseteq> set (R i)" by (rule set_remove1_subset)
  obtain h where h: "pReadyList s i = Some h" using Ri(1) on by (cases "pReadyList s i") auto
  then obtain hs where hs: "R i = h # hs" "chain (nexts s) (nexts s h) hs" using Ri(1) by (auto simp: chain_Some)
  consider "nexts s h = None" | "nexts s h \<noteq> None" "h = p" | "nexts s h \<noteq> None" "h \<noteq> p" by blast
  then show ?thesis
  proof cases
    case 1
    then have "hs = []" "h = p" using hs on by auto
    moreover have "links_ok (nexts s) ((pReadyList s)(i := None)) (pFreeList s) (R(i := [])) F"
      by (rule links_ok_change [OF ok pr(2)]) auto
    moreover have "RemoveReadyList p s
        = Ret 0 (relink (nexts s) ((pReadyList s)(i := None)) (pFreeList s) s)"
      using pr h 1 by (simp add: RemoveReadyList_def the_proc_def p_next_procs kmonad ready_at_run set_ready_run)
    ultimately show ?thesis using hs by auto
  next
    case 2
    have "links_ok (nexts s) ((pReadyList s)(i := nexts s h)) (pFreeList s) (R(i := hs)) F"
      by (rule links_ok_change [OF ok pr(2)]) (use hs Ri in auto)
    moreover have "RemoveReadyList p s
        = Ret 0 (relink (nexts s) ((pReadyList s)(i := nexts s h)) (pFreeList s) s)"
      using pr h 2 by (simp add: RemoveReadyList_def the_proc_def p_next_procs kmonad ready_at_run set_ready_run)
    ultimately show ?thesis using 2 hs by auto
  next
    case 3
    then have "p \<in> set hs" using on hs by auto
    then obtain xs' ys where "hs = xs' @ p # ys" by (meson split_list)
    then obtain xs q where split: "R i = xs @ q # p # ys"
      using hs by (cases xs' rule: rev_cases) auto
    have "distinct (xs @ q # p # ys)" using Ri(2) split by simp
    have "length xs + 2 < Suc NPROC" using procs_length [OF Ri(2,3)] split by simp
    then have "find_prev (Suc NPROC) (nexts s) None (Some h) p = Inr (Some q)"
      using Ri(1,2) h split by (intro find_prev_chain) auto
    then have run: "RemoveReadyList p s
        = Ret 0 (relink ((nexts s)(q := nexts s p)) (pReadyList s) (pFreeList s) s)"
      using pr h 3
      by (auto simp: RemoveReadyList_def the_proc_def p_next_procs kmonad ready_at_run set_next_run
          simp del: find_prev.simps)
    have "chain ((nexts s)(q := nexts s p)) (pReadyList s i) (xs @ q # ys)"
      by (rule chain_remove) (use Ri split in auto)
    then have "links_ok ((nexts s)(q := nexts s p)) ((pReadyList s)(i := pReadyList s i)) (pFreeList s)
        (R(i := xs @ q # ys)) F"
      by (intro links_ok_change [OF ok pr(2)]) (use Ri split in auto)
    moreover have "remove1 p (R i) = xs @ q # ys"
      using Ri(2) split by (auto simp: remove1_append)
    ultimately show ?thesis using run by auto
  qed
qed

text \<open>The free list is a stack.\<close>

lemma links_ok_free_change:
  assumes "links_ok nx rl fl R F" "chain nx' q ys" "distinct ys" "set ys \<subseteq> {..<NPROC}"
    "\<And>x. x \<notin> set ys \<union> set F \<Longrightarrow> nx' x = nx x"
    "\<And>x. x \<in> set ys \<Longrightarrow> x \<in> set F \<or> off_lists x R F"
  shows "links_ok nx' rl q R ys"
proof -
  have disj: "set ys \<inter> set (R j) = {}" if "j < 3" for j
    using assms(6) links_okD(4) [OF assms(1) that] that by (auto simp: off_lists_def)
  have other: "chain nx' (rl j) (R j)" if "j < 3" for j
  proof -
    have "nx' x = nx x" if "x \<in> set (R j)" for x
      using assms(5) [of x] that disj [OF \<open>j < 3\<close>] links_okD(4) [OF assms(1) \<open>j < 3\<close>] by auto
    then show ?thesis using links_okD(1) [OF assms(1) that] chain_cong by metis
  qed
  have "distinct (R 0 @ R 1 @ R 2 @ ys)" "set (R 0 @ R 1 @ R 2 @ ys) \<subseteq> {..<NPROC}"
    using assms(1,3,4) disj [of 0] disj [of 1] disj [of 2] by (auto simp: links_ok_def)
  with other assms(2) show ?thesis by (simp add: links_ok_def)
qed

lemma AddFreeList_run:
  assumes rep: "lists_rep s R F" and off: "off_lists p R F"
  shows "AddFreeList (Some p) s = Ret 0 (relink ((nexts s)(p := pFreeList s)) (pReadyList s) (Some p) s)
    \<and> links_ok ((nexts s)(p := pFreeList s)) (pReadyList s) (Some p) R (p # F)"
proof -
  have ok: "links_ok (nexts s) (pReadyList s) (pFreeList s) R F" using rep by (simp add: lists_rep_def)
  have "AddFreeList (Some p) s = Ret 0 (relink ((nexts s)(p := pFreeList s)) (pReadyList s) (Some p) s)"
    by (simp add: AddFreeList_def kmonad set_next_run set_free_eq)
  moreover have "links_ok ((nexts s)(p := pFreeList s)) (pReadyList s) (Some p) R (p # F)"
    by (rule links_ok_free_change [OF ok]) (use links_ok_freeD [OF ok] off in \<open>auto simp: off_lists_def\<close>)
  ultimately show ?thesis by blast
qed

lemma RemoveFreeList_run:
  assumes rep: "lists_rep s R F"
  shows "case F of
      [] \<Rightarrow> RemoveFreeList s = Ret None s
    | p # F' \<Rightarrow> RemoveFreeList s = Ret (Some p) (relink (nexts s) (pReadyList s) (nexts s p) s)
        \<and> links_ok (nexts s) (pReadyList s) (nexts s p) R F' \<and> off_lists p R F'"
proof -
  have ok: "links_ok (nexts s) (pReadyList s) (pFreeList s) R F" using rep by (simp add: lists_rep_def)
  note F = links_ok_freeD [OF ok]
  show ?thesis
  proof (cases F)
    case Nil
    with F show ?thesis by (simp add: RemoveFreeList_def kmonad)
  next
    case (Cons p F')
    have "links_ok (nexts s) (pReadyList s) (nexts s p) R F'"
      by (rule links_ok_free_change [OF ok]) (use F Cons in auto)
    moreover have "off_lists p R F'"
      using F Cons links_okD(4) [OF ok] by (auto simp: off_lists_def)
    ultimately show ?thesis
      using F Cons by (simp add: RemoveFreeList_def kmonad set_free_eq)
  qed
qed

lemma GetReady_run:
  assumes "lists_rep s R F"
  shows "GetReady s = Ret (case R 0 @ R 1 @ R 2 of [] \<Rightarrow> None | p # _ \<Rightarrow> Some p) s"
proof -
  have ok: "links_ok (nexts s) (pReadyList s) (pFreeList s) R F" using assms by (simp add: lists_rep_def)
  have hd: "pReadyList s i = (case R i of [] \<Rightarrow> None | p # _ \<Rightarrow> Some p)" if "i < 3" for i
    using links_okD(1) [OF ok that] by (cases "R i") auto
  show ?thesis
    by (simp add: GetReady_def kmonad hd split: list.splits option.splits)
qed

text \<open>\<open>ResetPriority\<close>: the loop over the table, then list 0 and list 2 behind list 1.\<close>

lemma kfor_upd_proc:
  assumes "distinct ps"
  shows "kfor ps (\<lambda>p. upd_proc p f) s = Ret () (s\<lparr>procs := (\<lambda>p. if p \<in> set ps then f (procs s p) else procs s p)\<rparr>)"
  using assms
proof (induction ps arbitrary: s)
  case Nil
  then show ?case by (simp add: kmonad)
next
  case (Cons p ps)
  have "kfor ps (\<lambda>p. upd_proc p f) (s\<lparr>procs := (procs s)(p := f (procs s p))\<rparr>) = Ret ()
    (s\<lparr>procs := (\<lambda>q. if q \<in> set ps then f (((procs s)(p := f (procs s p))) q) else ((procs s)(p := f (procs s p))) q)\<rparr>)"
    using Cons by (simp cong: if_cong)
  moreover have "(\<lambda>q. if q \<in> set ps then f (((procs s)(p := f (procs s p))) q) else ((procs s)(p := f (procs s p))) q)
      = (\<lambda>q. if q \<in> set (p # ps) then f (procs s q) else procs s q)"
    using Cons.prems by auto
  moreover have "upd_proc p f s = Ret () (s\<lparr>procs := (procs s)(p := f (procs s p))\<rparr>)"
    by (simp add: upd_proc_def kmonad)
  ultimately show ?case by (simp add: kthen_Ret)
qed

lemma merge_into_1_run:
  assumes rep: "lists_rep s R F" and i: "i = 0 \<or> i = 2"
  shows "\<exists>nx rl. merge_into_1 i s = Ret () (relink nx rl (pFreeList s) s)
    \<and> links_ok nx rl (pFreeList s) (R(1 := R 1 @ R i, i := [])) F"
proof -
  have ok: "links_ok (nexts s) (pReadyList s) (pFreeList s) R F" using rep by (simp add: lists_rep_def)
  have i3: "i < 3" "i \<noteq> 1" using i by auto
  note Ri = links_okD [OF ok i3(1)] and R1 = links_okD [OF ok, of 1, simplified]
  show ?thesis
  proof (cases "R i = []")
    case True
    then have "merge_into_1 i s = Ret () (relink (nexts s) (pReadyList s) (pFreeList s) s)"
      using Ri(1) by (simp add: merge_into_1_def kmonad)
    moreover have "R(1 := R 1 @ R i, i := []) = R" using True by auto
    ultimately show ?thesis using ok by (metis)
  next
    case False
    then obtain f where f: "pReadyList s i = Some f" using Ri(1) by (cases "pReadyList s i") auto
    define nx where "nx = (if R 1 = [] then nexts s else (nexts s)(last (R 1) := Some f))"
    define rl where "rl = (if R 1 = [] then (pReadyList s)(1 := Some f, i := None) else (pReadyList s)(i := None))"
    have run: "merge_into_1 i s = Ret () (relink nx rl (pFreeList s) s)"
    proof (cases "R 1 = []")
      case True
      then have "pReadyList s 1 = None" using R1(1) by simp
      with f True show ?thesis
        by (simp add: merge_into_1_def kmonad nx_def rl_def) (simp add: relink_def nexts_def)
    next
      case no: False
      then obtain h where h: "pReadyList s 1 = Some h" using R1(1) by (cases "pReadyList s 1") auto
      then have "to_end h s = Ret (last (R 1)) s"
        using to_end_run [of s h "R 1"] R1 by simp
      with f h no show ?thesis
        by (simp add: merge_into_1_def kmonad nx_def rl_def set_next_run) (simp add: relink_def nexts_def)
    qed
    have chain1: "chain nx (rl 1) (R 1 @ R i)"
    proof (cases "R 1 = []")
      case True
      with Ri(1) f i3 show ?thesis by (simp add: nx_def rl_def)
    next
      case no: False
      then obtain xs e where xs: "R 1 = xs @ [e]" by (metis rev_exhaust)
      have "chain ((nexts s)(e := Some f)) (pReadyList s 1) (xs @ e # R i)"
        by (rule chain_append) (use R1 Ri xs f i3 links_okD(5) [OF ok i3(1), of 1] in auto)
      with xs no i3 show ?thesis by (simp add: nx_def rl_def)
    qed
    have "chain nx (rl j) ((R(1 := R 1 @ R i, i := [])) j)" if "j < 3" for j
    proof -
      have "chain nx (pReadyList s j) (R j)" if "j \<noteq> 1" "j \<noteq> i"
      proof -
        have "last (R 1) \<notin> set (R j)" if "R 1 \<noteq> []"
          using links_okD(5) [OF ok \<open>j < 3\<close>, of 1] that \<open>j \<noteq> 1\<close> last_in_set [OF that] by auto
        then show ?thesis using links_okD(1) [OF ok \<open>j < 3\<close>] by (auto simp: nx_def)
      qed
      then show ?thesis using chain1 i3 by (auto simp: rl_def)
    qed
    moreover have "chain nx (pFreeList s) F"
    proof -
      have "last (R 1) \<notin> set F" if "R 1 \<noteq> []"
        using R1(4) last_in_set [OF that] by auto
      then show ?thesis using links_ok_freeD [OF ok] by (auto simp: nx_def)
    qed
    ultimately have "links_ok nx rl (pFreeList s) (R(1 := R 1 @ R i, i := [])) F"
      using ok i unfolding links_ok_def by auto
    with run show ?thesis by blast
  qed
qed

definition all_priority_1 :: "'z ptable_scheme \<Rightarrow> 'z ptable_scheme" where
  "all_priority_1 s = s\<lparr>procs := (\<lambda>p. if p < NPROC then (procs s p)\<lparr>p_priority := 1\<rparr> else procs s p)\<rparr>"

lemma all_priority_1_sel [simp]:
  "nexts (all_priority_1 s) = nexts s" "pReadyList (all_priority_1 s) = pReadyList s"
  "pFreeList (all_priority_1 s) = pFreeList s"
  by (auto simp: all_priority_1_def nexts_def)

lemma ResetPriority_run:
  assumes "lists_rep s R F"
  shows "\<exists>nx rl. ResetPriority s = Ret 0 (relink nx rl (pFreeList s) (all_priority_1 s))
    \<and> links_ok nx rl (pFreeList s) (R(0 := [], 1 := R 1 @ R 0 @ R 2, 2 := [])) F"
proof -
  have loop: "kfor [0..<NPROC] (\<lambda>p. upd_proc p (\<lambda>x. x\<lparr>p_priority := 1\<rparr>)) s = Ret () (all_priority_1 s)"
    by (simp add: kfor_upd_proc all_priority_1_def)
  have "lists_rep (all_priority_1 s) R F" using assms by (simp add: lists_rep_def)
  from merge_into_1_run [OF this, of 0] obtain nx rl
    where m0: "merge_into_1 0 (all_priority_1 s) = Ret () (relink nx rl (pFreeList s) (all_priority_1 s))"
      "links_ok nx rl (pFreeList s) (R(1 := R 1 @ R 0, 0 := [])) F" by auto
  from m0(2) have "lists_rep (relink nx rl (pFreeList s) (all_priority_1 s)) (R(1 := R 1 @ R 0, 0 := [])) F"
    by simp
  from merge_into_1_run [OF this, of 2] obtain nx' rl'
    where m2: "merge_into_1 2 (relink nx rl (pFreeList s) (all_priority_1 s))
        = Ret () (relink nx' rl' (pFreeList s) (all_priority_1 s))"
      "links_ok nx' rl' (pFreeList s) (R(0 := [], 1 := R 1 @ R 0 @ R 2, 2 := [])) F"
    by (auto simp: fun_upd_twist)
  from loop m0(1) m2 show ?thesis by (auto simp: ResetPriority_def kmonad)
qed

section \<open>The free list as a store of table slots\<close>

definition free_rep :: "'z ptable_scheme \<Rightarrow> nat list \<Rightarrow> bool" where
  "free_rep s F \<longleftrightarrow> chain (nexts s) (pFreeList s) F \<and> distinct F"

interpretation slots: free_store RemoveFreeList "\<lambda>p. kthen (AddFreeList (Some p)) (kret ())" free_rep
    "\<lambda>s p. p < NPROC"
proof
  fix s :: "'a ptable_scheme" and p F
  show "free_rep s (p # F) \<Longrightarrow> \<exists>s'. RemoveFreeList s = Ret (Some p) s' \<and> free_rep s' F
      \<and> (\<lambda>p. p < NPROC) = (\<lambda>p. p < NPROC)"
    by (simp add: RemoveFreeList_def free_rep_def kmonad)
  show "free_rep s [] \<Longrightarrow> \<exists>s'. RemoveFreeList s = Ret None s' \<and> free_rep s' []
      \<and> (\<lambda>p. p < NPROC) = (\<lambda>p. p < NPROC)"
    by (simp add: RemoveFreeList_def free_rep_def kmonad)
  show "free_rep s F \<Longrightarrow> p < NPROC \<Longrightarrow> p \<notin> set F \<Longrightarrow>
      \<exists>s'. kthen (AddFreeList (Some p)) (kret ()) s = Ret () s' \<and> free_rep s' (p # F)
        \<and> (\<lambda>p. p < NPROC) = (\<lambda>p. p < NPROC)"
    by (cases "pFreeList s") (simp_all add: AddFreeList_def free_rep_def kmonad set_next_run set_free_eq)
qed

section \<open>The ready lists as a queue with levels\<close>

text \<open>
  The contract between the scheduler and the ready lists: \<open>rep s R\<close> says that \<open>R i\<close> is the list of
  level \<open>i\<close>; \<open>addable s i x\<close>, that \<open>x\<close> may join level \<open>i\<close>.
\<close>

definition next_ready :: "('s, 'n option) km \<Rightarrow> ('n \<Rightarrow> ('s, int) km) \<Rightarrow> ('s, 'n option) km" where
  "next_ready get remove = kbind get (\<lambda>r. case r of None \<Rightarrow> kret None
     | Some x \<Rightarrow> kthen (remove x) (kret (Some x)))"

locale ready_queue =
  fixes add remove :: "'n \<Rightarrow> ('s, int) km"
    and get :: "('s, 'n option) km"
    and rep :: "'s \<Rightarrow> (nat \<Rightarrow> 'n list) \<Rightarrow> bool"
    and addable :: "'s \<Rightarrow> nat \<Rightarrow> 'n \<Rightarrow> bool"
  assumes add_last: "rep s R \<Longrightarrow> addable s i x \<Longrightarrow> (\<And>j. x \<notin> set (R j)) \<Longrightarrow>
      \<exists>s'. add x s = Ret 0 s' \<and> rep s' (R(i := R i @ [x])) \<and> addable s' = addable s"
    and get_first: "rep s R \<Longrightarrow> get s = Ret (case R 0 @ R 1 @ R 2 of [] \<Rightarrow> None | x # _ \<Rightarrow> Some x) s"
    and remove_one: "rep s R \<Longrightarrow> x \<in> set (R i) \<Longrightarrow>
      \<exists>s'. remove x s = Ret 0 s' \<and> rep s' (R(i := remove1 x (R i)))"
    and levels: "rep s R \<Longrightarrow> x \<in> set (R i) \<Longrightarrow> i < 3"
begin

lemma next_ready_rep:
  assumes "rep s R" "R 0 @ R 1 @ R 2 = x # xs"
  shows "\<exists>s' R'. next_ready get remove s = Ret (Some x) s' \<and> rep s' R' \<and> R' 0 @ R' 1 @ R' 2 = xs"
proof -
  consider ys where "R 0 = x # ys" | ys where "R 0 = []" "R 1 = x # ys" | ys where "R 0 = []" "R 1 = []" "R 2 = x # ys"
    using assms(2) by (cases "R 0"; cases "R 1"; cases "R 2") auto
  then obtain i ys where i: "R i = x # ys" "(R(i := ys)) 0 @ (R(i := ys)) 1 @ (R(i := ys)) 2 = xs"
    using assms(2) by cases auto
  have "x \<in> set (R i)" "remove1 x (R i) = ys" using i(1) by simp_all
  with remove_one [OF assms(1), of x i] obtain s' where s': "remove x s = Ret 0 s'" "rep s' (R(i := ys))"
    by metis
  have "get s = Ret (Some x) s" using get_first [OF assms(1)] assms(2) by simp
  with s'(1) have "next_ready get remove s = Ret (Some x) s'" by (simp add: next_ready_def kmonad)
  with s'(2) i(2) show ?thesis by blast
qed

lemma drain:
  assumes "rep s R"
  shows "\<exists>s'. take_nodes (next_ready get remove) (length (R 0 @ R 1 @ R 2)) s = Ret (R 0 @ R 1 @ R 2) s'"
  using assms
proof (induction "R 0 @ R 1 @ R 2" arbitrary: R s)
  case Nil
  show ?case unfolding Nil.hyps [symmetric] by (simp add: kmonad)
next
  case (Cons x xs)
  from next_ready_rep [OF Cons.prems Cons.hyps(2) [symmetric]] obtain s' R'
    where s': "next_ready get remove s = Ret (Some x) s'" "rep s' R'" "R' 0 @ R' 1 @ R' 2 = xs" by blast
  from Cons.hyps(1) [OF s'(3) [symmetric] s'(2)] obtain t
    where "take_nodes (next_ready get remove) (length xs) s' = Ret xs t" using s'(3) by auto
  with s' show ?case unfolding Cons.hyps(2) [symmetric] by (simp add: kmonad)
qed

lemma add_all:
  assumes "rep s R" "distinct xs" "\<And>x. x \<in> set xs \<Longrightarrow> addable s i x" "\<And>j. set xs \<inter> set (R j) = {}"
  shows "\<exists>s'. kfor xs (\<lambda>x. kthen (add x) (kret ())) s = Ret () s' \<and> rep s' (R(i := R i @ xs))
    \<and> addable s' = addable s"
  using assms
proof (induction xs arbitrary: s R)
  case Nil
  then show ?case by (simp add: kmonad)
next
  case (Cons x xs)
  then obtain s1 where s1: "add x s = Ret 0 s1" "rep s1 (R(i := R i @ [x]))" "addable s1 = addable s"
    using add_last [of s R i x] by auto
  have disj: "set xs \<inter> set ((R(i := R i @ [x])) j) = {}" for j
    using Cons.prems by auto
  have "\<exists>s2. kfor xs (\<lambda>x. kthen (add x) (kret ())) s1 = Ret () s2
      \<and> rep s2 ((R(i := R i @ [x]))(i := (R(i := R i @ [x])) i @ xs)) \<and> addable s2 = addable s1"
    by (rule Cons.IH [OF s1(2) _ _ disj]) (use Cons.prems s1(3) in simp_all)
  then obtain s2 where s2: "kfor xs (\<lambda>x. kthen (add x) (kret ())) s1 = Ret () s2"
    "rep s2 (R(i := R i @ x # xs))" "addable s2 = addable s" using s1(3) by auto
  have "kthen (add x) (kret ()) s = Ret () s1" using s1(1) by (simp add: kmonad)
  with s2(1) have "kfor (x # xs) (\<lambda>x. kthen (add x) (kret ())) s = Ret () s2" by (simp add: kthen_Ret)
  with s2(2,3) show ?case by blast
qed

text \<open>First in, first out on each level, the lower levels first.\<close>

lemma fifo:
  assumes "rep s (\<lambda>_. [])" "i < j" "j < 3" "distinct (xs @ ys)"
    "\<And>x. x \<in> set xs \<Longrightarrow> addable s i x" "\<And>y. y \<in> set ys \<Longrightarrow> addable s j y"
  shows "\<exists>s'. kthen (kfor ys (\<lambda>x. kthen (add x) (kret ())))
      (kthen (kfor xs (\<lambda>x. kthen (add x) (kret ()))) (take_nodes (next_ready get remove) (length (xs @ ys)))) s
    = Ret (xs @ ys) s'"
proof -
  from add_all [OF assms(1), of ys j] assms(4,6) obtain s1
    where s1: "kfor ys (\<lambda>x. kthen (add x) (kret ())) s = Ret () s1" "rep s1 ((\<lambda>_. [])(j := ys))"
      "addable s1 = addable s" by auto
  have "set xs \<inter> set (((\<lambda>_. [])(j := ys)) k) = {}" for k using assms(4) by auto
  then have "\<exists>s2. kfor xs (\<lambda>x. kthen (add x) (kret ())) s1 = Ret () s2
      \<and> rep s2 (((\<lambda>_. [])(j := ys))(i := ((\<lambda>_. [])(j := ys)) i @ xs)) \<and> addable s2 = addable s1"
    by (rule add_all [OF s1(2), rotated 2]) (use assms(4,5) s1(3) in simp_all)
  then obtain s2
    where s2: "kfor xs (\<lambda>x. kthen (add x) (kret ())) s1 = Ret () s2" "rep s2 ((\<lambda>_. [])(j := ys, i := xs))"
    using assms(2) by auto
  let ?R = "(\<lambda>_. [])(j := ys, i := xs)"
  have order: "?R 0 @ ?R 1 @ ?R 2 = xs @ ys"
    using assms(2,3) less_3_cases [of i] less_3_cases [of j] by auto
  obtain s3 where s3: "take_nodes (next_ready get remove) (length (xs @ ys)) s2 = Ret (xs @ ys) s3"
    using drain [OF s2(2), unfolded order] by blast
  show ?thesis
    by (rule exI [of _ s3]) (simp add: kthen_Ret [where m = "kfor ys _", OF s1(1)]
        kthen_Ret [where m = "kfor xs _", OF s2(1)] s3 [simplified])
qed

end
definition ready_rep :: "'z ptable_scheme \<Rightarrow> (nat \<Rightarrow> nat list) \<Rightarrow> bool" where
  "ready_rep s R \<longleftrightarrow> (\<exists>F. lists_rep s R F) \<and> (\<forall>i p. p \<in> set (R i) \<longrightarrow> i < 3 \<and> p_priority (procs s p) = int i)"

definition ready_addable :: "'z ptable_scheme \<Rightarrow> nat \<Rightarrow> nat \<Rightarrow> bool" where
  "ready_addable s i p \<longleftrightarrow> p < NPROC \<and> i < 3 \<and> p_state (procs s p) = RUNNABLE
     \<and> p_priority (procs s p) = int i \<and> (\<forall>F. chain (nexts s) (pFreeList s) F \<longrightarrow> p \<notin> set F)"

lemma ready_addable_F:
  assumes "chain (nexts s) (pFreeList s) F"
  shows "ready_addable s i p \<longleftrightarrow> p < NPROC \<and> i < 3 \<and> p_state (procs s p) = RUNNABLE
     \<and> p_priority (procs s p) = int i \<and> p \<notin> set F"
proof -
  have "(\<forall>F'. chain (nexts s) (pFreeList s) F' \<longrightarrow> p \<notin> set F') \<longleftrightarrow> p \<notin> set F"
    using assms chain_unique by metis
  then show ?thesis by (simp add: ready_addable_def)
qed

interpretation readyq: ready_queue AddReadyList RemoveReadyList GetReady ready_rep ready_addable
proof
  fix s :: "'a ptable_scheme" and R i p
  {
    assume rep: "ready_rep s R" and add: "ready_addable s i p" and new: "\<And>j. p \<notin> set (R j)"
    then obtain F where F: "lists_rep s R F" by (auto simp: ready_rep_def)
    then have fr: "chain (nexts s) (pFreeList s) F" by (simp add: lists_rep_def links_ok_def)
    have "off_lists p R F" using add new by (auto simp: ready_addable_F [OF fr] off_lists_def)
    with AddReadyList_run [OF F, of p i] add obtain nx rl
      where run: "AddReadyList p s = Ret 0 (relink nx rl (pFreeList s) s)"
        "links_ok nx rl (pFreeList s) (R(i := R i @ [p])) F" by (auto simp: ready_addable_def)
    have fr': "chain (nexts (relink nx rl (pFreeList s) s)) (pFreeList (relink nx rl (pFreeList s) s)) F"
      using run(2) by (simp add: links_ok_def)
    have "ready_addable (relink nx rl (pFreeList s) s) = ready_addable s"
      by (intro ext) (simp add: ready_addable_F [OF fr] ready_addable_F [OF fr'])
    moreover have "ready_rep (relink nx rl (pFreeList s) s) (R(i := R i @ [p]))"
      using rep add run(2) by (auto simp: ready_rep_def ready_addable_def)
    ultimately show "\<exists>s'. AddReadyList p s = Ret 0 s' \<and> ready_rep s' (R(i := R i @ [p]))
        \<and> ready_addable s' = ready_addable s" using run(1) by auto
  next
    assume "ready_rep s R"
    then show "GetReady s = Ret (case R 0 @ R 1 @ R 2 of [] \<Rightarrow> None | x # _ \<Rightarrow> Some x) s"
      by (auto simp: ready_rep_def GetReady_run)
  next
    assume rep: "ready_rep s R" and p: "p \<in> set (R i)"
    then obtain F where F: "lists_rep s R F" by (auto simp: ready_rep_def)
    with RemoveReadyList_run [OF F, of p i] rep p obtain nx rl
      where "RemoveReadyList p s = Ret 0 (relink nx rl (pFreeList s) s)"
        "links_ok nx rl (pFreeList s) (R(i := remove1 p (R i))) F" by (auto simp: ready_rep_def)
    with rep show "\<exists>s'. RemoveReadyList p s = Ret 0 s' \<and> ready_rep s' (R(i := remove1 p (R i)))"
      by (auto simp: ready_rep_def split: if_splits dest: notin_set_remove1)
  next
    assume "ready_rep s R" "p \<in> set (R i)"
    then show "i < 3" by (auto simp: ready_rep_def)
  }
qed

section \<open>Properties\<close>

text \<open>The table in zeroed memory at boot, and one with runnable processes, for the witnesses.\<close>

definition boot_ptable :: ptable where
  "boot_ptable = \<lparr>owner = (\<lambda>_. None), ncli = (\<lambda>_. 0), cpuid = 0, printed = [], devices = boot_hw, mem = (\<lambda>_. 0), freelist = 0,
     use_lock = True, kend = 0x80200000, kdata = 0x80108000, procs = (\<lambda>_. zero_proc), pReadyList = (\<lambda>_. None),
     pFreeList = None, TimeToReset = 0, initproc = None, nextpid = 1, cproc = (\<lambda>_. None),
     cr3 = (\<lambda>_. 0), esp0 = (\<lambda>_. 0), kpgdir = 0, forkret_at = 0x80103000, ticks = 0\<rparr>"

definition runnable_demo :: ptable where
  "runnable_demo = boot_ptable\<lparr>procs := (\<lambda>p. zero_proc\<lparr>p_state := RUNNABLE,
     p_priority := (if p < 2 then 0 else 1)\<rparr>)\<rparr>"

lemma runnable_demo_rep: "lists_rep runnable_demo (\<lambda>_. []) []"
  by (simp add: lists_rep_def links_ok_def runnable_demo_def boot_ptable_def)

lemma runnable_demo_ready: "ready_rep runnable_demo (\<lambda>_. [])"
  using runnable_demo_rep by (auto simp: ready_rep_def)

text \<open>The ready lists are first-in first-out queues with levels: on empty ready lists, adding
  runnable processes of priority \<open>j\<close> in any order with runnable processes of a smaller priority \<open>i\<close>,
  then taking processes with \<open>GetReady\<close> and \<open>RemoveReadyList\<close>, returns first the processes of
  priority \<open>i\<close> in the order in which \<open>AddReadyList\<close> got them and then those of priority \<open>j\<close> in their
  order, each exactly once.\<close>

theorem ready_lists_fifo:
  assumes "ready_rep s (\<lambda>_. [])" "i < j" "j < 3" "distinct (xs @ ys)"
    "\<And>p. p \<in> set xs \<Longrightarrow> ready_addable s i p" "\<And>p. p \<in> set ys \<Longrightarrow> ready_addable s j p"
  shows "\<exists>s'. kthen (kfor ys (\<lambda>p. kthen (AddReadyList p) (kret ())))
      (kthen (kfor xs (\<lambda>p. kthen (AddReadyList p) (kret ())))
        (take_nodes (next_ready GetReady RemoveReadyList) (length (xs @ ys)))) s
    = Ret (xs @ ys) s'"
  using assms by (rule readyq.fifo)

theorem ready_lists_fifo_witness:
  "\<exists>s'. kthen (kfor [2, 3] (\<lambda>p. kthen (AddReadyList p) (kret ())))
      (kthen (kfor [1, 0] (\<lambda>p. kthen (AddReadyList p) (kret ())))
        (take_nodes (next_ready GetReady RemoveReadyList) (length [1 :: nat, 0, 2, 3]))) runnable_demo
    = Ret [1, 0, 2, 3] s'"
proof -
  have chain: "chain (nexts runnable_demo) (pFreeList runnable_demo) []"
    by (simp add: runnable_demo_def boot_ptable_def)
  have "ready_addable runnable_demo 0 p" if "p \<in> set [1, 0]" for p
    by (subst ready_addable_F [OF chain]) (use that in \<open>auto simp: runnable_demo_def NPROC_def\<close>)
  moreover have "ready_addable runnable_demo 1 p" if "p \<in> set [2, 3]" for p
    by (subst ready_addable_F [OF chain]) (use that in \<open>auto simp: runnable_demo_def NPROC_def\<close>)
  ultimately show ?thesis
    using ready_lists_fifo [OF runnable_demo_ready, of 0 1 "[1, 0]" "[2, 3]"] by simp
qed



text \<open>C18. \<open>ResetPriority\<close> ends and loses no process: every process of the table gets priority 1,
  list 1 becomes list 1 followed by list 0 and by list 2, which become empty, and the free list is
  untouched.\<close>

theorem ResetPriority_merges:
  assumes "lists_rep s R F"
  shows "\<exists>s'. ResetPriority s = Ret 0 s' \<and> lists_rep s' (R(0 := [], 1 := R 1 @ R 0 @ R 2, 2 := [])) F
    \<and> (\<forall>p < NPROC. p_priority (procs s' p) = 1 \<and> p_state (procs s' p) = p_state (procs s p))"
proof -
  from ResetPriority_run [OF assms] obtain nx rl
    where "ResetPriority s = Ret 0 (relink nx rl (pFreeList s) (all_priority_1 s))"
      "links_ok nx rl (pFreeList s) (R(0 := [], 1 := R 1 @ R 0 @ R 2, 2 := [])) F" by blast
  then show ?thesis
    by (intro exI [of _ "relink nx rl (pFreeList s) (all_priority_1 s)"]) (simp add: all_priority_1_def)
qed

theorem ResetPriority_merges_witness:
  "\<exists>s s'. AddReadyList 0 runnable_demo = Ret 0 s \<and> lists_rep s ((\<lambda>_. [])(0 := [0])) []
    \<and> ResetPriority s = Ret 0 s' \<and> lists_rep s' ((\<lambda>_. [])(0 := [], 1 := [0], 2 := [])) []
    \<and> p_priority (procs s' 0) = 1"
proof -
  have "off_lists 0 (\<lambda>_. []) []" by (simp add: off_lists_def NPROC_def)
  with AddReadyList_run [OF runnable_demo_rep, of 0 0] obtain s
    where s: "AddReadyList 0 runnable_demo = Ret 0 s" "lists_rep s ((\<lambda>_. [])(0 := [0])) []"
    by (auto simp: runnable_demo_def)
  from ResetPriority_merges [OF s(2)] obtain s'
    where "ResetPriority s = Ret 0 s'" "lists_rep s' ((\<lambda>_. [])(0 := [], 1 := [0], 2 := [])) []"
      "p_priority (procs s' 0) = 1" by (auto simp: NPROC_def)
  with s show ?thesis by blast
qed
end
