(* ===== verification/Scheduler.thy ===== *)
theory Scheduler
  imports Proc_Table
begin

text \<open>
  The scheduling part of \<open>proc.c\<close> on the process table: \<open>allocproc\<close>, \<open>scheduler\<close>, \<open>sched\<close>, \<open>yield\<close>,
  \<open>sleep\<close>, \<open>wakeup\<close>, \<open>kill\<close>, and the parts of \<open>fork\<close>, \<open>exit\<close> and \<open>wait\<close> that run under \<open>ptable.lock\<close>.
  For each routine a lemma \<open>..._run\<close> gives its outcome on a table that satisfies the invariant
  \<open>table_ok\<close>: every process is on exactly the list its state and priority ask for.

  A routine that calls \<open>sched\<close> ends in the outcome \<open>Sleeps\<close>; the code behind the call is a
  definition of its own (\<open>yield_tail\<close>, \<open>sleep_tail\<close>), run when the process is dispatched again.
\<close>

section \<open>Switching\<close>

definition curproc :: "('z ptable_scheme, nat) km" where
  "curproc = kbind (kget (\<lambda>s. cproc s (cpuid s))) (kderef ''proc'')"

definition set_cproc :: "nat option \<Rightarrow> ('z ptable_scheme, unit) km" where
  "set_cproc p = kmod (\<lambda>s. s\<lparr>cproc := (cproc s)(cpuid s := p)\<rparr>)"

definition push_cli :: "('z kcore_scheme, unit) km" where
  "push_cli = kmod (\<lambda>s. s\<lparr>ncli := (ncli s)(cpuid s := ncli s (cpuid s) + 1)\<rparr>)"

definition pop_cli :: "('z kcore_scheme, unit) km" where
  "pop_cli = kbind (kget (\<lambda>s. ncli s (cpuid s))) (\<lambda>n. if n - 1 < 0 then kpanic ''popcli''
     else kmod (\<lambda>s. s\<lparr>ncli := (ncli s)(cpuid s := n - 1)\<rparr>))"

definition lcr3 :: "uint \<Rightarrow> ('z ptable_scheme, unit) km" where
  "lcr3 v = kmod (\<lambda>s. s\<lparr>cr3 := (cr3 s)(cpuid s := v)\<rparr>)"

text \<open>
  The descriptor of the task segment, which \<open>switchuvm\<close> writes as well, is the same at every call
  and is left out.
\<close>

definition switchuvm :: "nat \<Rightarrow> ('z ptable_scheme, unit) km" where
  "switchuvm p = kdo [
     push_cli,
     kbind curproc (\<lambda>cur. kbind (the_proc cur p_kstack) (\<lambda>k.
       kmod (\<lambda>s. s\<lparr>esp0 := (esp0 s)(cpuid s := k + KSTACKSIZE)\<rparr>))),
     kbind (the_proc p p_pgdir) (\<lambda>d.
       if d = 0 then kpanic ''switchuvm: no pgdir'' else lcr3 (v2p d)),
     pop_cli]"

definition switchkvm :: "('z ptable_scheme, unit) km" where
  "switchkvm = kbind (kget kpgdir) (\<lambda>d. lcr3 (v2p d))"

text \<open>The two statements with which every routine makes a process runnable.\<close>

definition make_runnable :: "nat \<Rightarrow> ('z ptable_scheme, unit) km" where
  "make_runnable p = kdo [set_state p RUNNABLE, kthen (AddReadyList p) (kret ())]"

section \<open>The scheduler\<close>

definition MaxTimeToReset :: uint where
  "MaxTimeToReset = 100"

text \<open>The countdown to the next reset at the head of the loop.\<close>

definition reset_tick :: "('z ptable_scheme, unit) km" where
  "reset_tick = kbind (kget TimeToReset) (\<lambda>t.
     if t = 0 then kthen ResetPriority (kmod (\<lambda>s. s\<lparr>TimeToReset := MaxTimeToReset\<rparr>))
     else kmod (\<lambda>s. s\<lparr>TimeToReset := t - 1\<rparr>))"

text \<open>
  One round of the \<open>while\<close> loop of \<open>scheduler\<close> up to the call of \<open>swtch\<close>; the result says whether the
  loop was entered.
\<close>

definition scheduler_pick :: "('z ptable_scheme, bool) km" where
  "scheduler_pick = kbind (kget pReadyList) (\<lambda>rl.
     if rl 0 \<noteq> None \<or> rl 1 \<noteq> None \<or> rl 2 \<noteq> None then
       kdo2 [
         reset_tick,
         kbind GetReady (\<lambda>r. kthen (set_cproc r) (kbind (kderef ''p'' r) (\<lambda>p. kdo [
           switchuvm p,
           set_state p RUNNING,
           kthen (RemoveReadyList p) (kret ())])))]
         (kret True)
     else kret False)"

text \<open>Back from \<open>swtch\<close>, and the two ends of the outer loop.\<close>

definition scheduler_back :: "('z ptable_scheme, unit) km" where
  "scheduler_back = kdo [switchkvm, set_cproc None]"

definition scheduler_round :: "('z ptable_scheme, unit) km" where
  "scheduler_round = kbind scheduler_pick (\<lambda>run.
     if run then kret () else release_lk PtableLock)"

text \<open>
  \<open>sched\<close>: interrupts are off whenever \<open>ncli\<close> is not zero, so after the test of \<open>ncli\<close> the last test
  of the code cannot fail.
\<close>

definition sched :: "('z ptable_scheme, unit) km" where
  "sched = kbind (kget (\<lambda>s. (owner s PtableLock = Some (cpuid s), ncli s (cpuid s)))) (\<lambda>(held, n).
     if \<not> held then kpanic ''sched ptable.lock''
     else if n \<noteq> 1 then kpanic ''sched locks''
     else kbind curproc (\<lambda>p. kbind (the_proc p p_state) (\<lambda>st.
       if st = RUNNING then kpanic ''sched running'' else (\<lambda>s. Sleeps s))))"

definition yield :: "('z ptable_scheme, unit) km" where
  "yield = kdo [
     acquire_lk PtableLock,
     kbind curproc make_runnable,
     sched,
     release_lk PtableLock]"

definition yield_tail :: "('z ptable_scheme, unit) km" where
  "yield_tail = release_lk PtableLock"

section \<open>Sleeping and waking\<close>

definition sleep_tail :: "lockid \<Rightarrow> ('z ptable_scheme, unit) km" where
  "sleep_tail lk = kdo [
     kbind curproc (\<lambda>p. upd_proc p (\<lambda>x. x\<lparr>p_chan := CNull\<rparr>)),
     (if lk \<noteq> PtableLock then kdo [release_lk PtableLock, acquire_lk lk] else kret ())]"

definition sleep :: "chan \<Rightarrow> lockid option \<Rightarrow> ('z ptable_scheme, unit) km" where
  "sleep ch lko = kbind (kget (\<lambda>s. cproc s (cpuid s))) (\<lambda>cur. case cur of
     None \<Rightarrow> kpanic ''sleep''
   | Some p \<Rightarrow> (case lko of
       None \<Rightarrow> kpanic ''sleep without lk''
     | Some lk \<Rightarrow> kdo [
         (if lk \<noteq> PtableLock then kdo [acquire_lk PtableLock, release_lk lk] else kret ()),
         upd_proc p (\<lambda>x. x\<lparr>p_chan := ch\<rparr>),
         set_state p SLEEPING,
         sched,
         sleep_tail lk]))"

text \<open>The body of \<open>wakeup1\<close> for one process.\<close>

definition wake_proc :: "chan \<Rightarrow> nat \<Rightarrow> ('z ptable_scheme, unit) km" where
  "wake_proc ch p = kbind (kget (\<lambda>s. procs s p)) (\<lambda>x.
     if p_state x = SLEEPING \<and> p_chan x = ch
     then make_runnable p else kret ())"

definition wakeup1 :: "chan \<Rightarrow> ('z ptable_scheme, unit) km" where
  "wakeup1 ch = kfor [0..<NPROC] (wake_proc ch)"

definition wakeup :: "chan \<Rightarrow> ('z ptable_scheme, unit) km" where
  "wakeup ch = kdo [acquire_lk PtableLock, wakeup1 ch, release_lk PtableLock]"

fun kill_loop :: "nat list \<Rightarrow> int \<Rightarrow> ('z ptable_scheme, int) km" where
  "kill_loop [] pid = kdo2 [release_lk PtableLock] (kret (- 1))"
| "kill_loop (p # ps) pid = kbind (the_proc p p_pid) (\<lambda>n.
     if n = pid then
       kdo2 [
         upd_proc p (\<lambda>x. x\<lparr>p_killed := True\<rparr>),
         kbind (the_proc p p_state) (\<lambda>st. if st = SLEEPING
           then make_runnable p else kret ()),
         release_lk PtableLock] (kret 0)
     else kill_loop ps pid)"

definition kill :: "int \<Rightarrow> ('z ptable_scheme, int) km" where
  "kill pid = kthen (acquire_lk PtableLock) (kill_loop [0..<NPROC] pid)"

section \<open>Table slots\<close>

text \<open>Values of C's \<open>int\<close>.\<close>

definition int32 :: "int \<Rightarrow> int" where
  "int32 n = (n + 2 ^ 31) mod 2 ^ 32 - 2 ^ 31"

text \<open>
  \<open>allocproc\<close>: the slot is taken under the lock, the rest runs without it. The trap frame and the
  context, which the code lays out at the top of the new kernel stack, are fields of the process.
\<close>

definition alloc_slot :: "('z ptable_scheme, nat option) km" where
  "alloc_slot = kthen (acquire_lk PtableLock) (kbind RemoveFreeList (\<lambda>r. case r of
     None \<Rightarrow> kdo2 [release_lk PtableLock] (kret None)
   | Some p \<Rightarrow> kdo2 [
       set_state p EMBRYO,
       kbind (kget nextpid) (\<lambda>n. kthen (upd_proc p (\<lambda>x. x\<lparr>p_pid := n\<rparr>))
         (kmod (\<lambda>s. s\<lparr>nextpid := int32 (n + 1)\<rparr>))),
       release_lk PtableLock] (kret (Some p))))"

definition alloc_stack :: "nat \<Rightarrow> ('z ptable_scheme, nat option) km" where
  "alloc_stack p = kbind kalloc (\<lambda>k. case k of
     None \<Rightarrow> kdo2 [
       upd_proc p (\<lambda>x. x\<lparr>p_kstack := 0\<rparr>),
       set_state p UNUSED,
       kthen (AddFreeList (Some p)) (kret ())] (kret None)
   | Some stk \<Rightarrow> kbind (kget forkret_at) (\<lambda>fr. kdo2 [
       upd_proc p (\<lambda>x. x\<lparr>p_kstack := stk\<rparr>),
       upd_proc p (\<lambda>x. x\<lparr>p_context := zero_context\<lparr>cx_eip := fr\<rparr>\<rparr>)] (kret (Some p))))"

definition allocproc :: "('z ptable_scheme, nat option) km" where
  "allocproc = kbind alloc_slot (\<lambda>r. case r of None \<Rightarrow> kret None | Some p \<Rightarrow> alloc_stack p)"

text \<open>The end of \<open>fork\<close>, and of \<open>userinit\<close>: the new process becomes runnable.\<close>

definition fork_ready :: "nat \<Rightarrow> ('z ptable_scheme, unit) km" where
  "fork_ready np = kdo [
     acquire_lk PtableLock,
     make_runnable np,
     release_lk PtableLock]"

text \<open>The end of \<open>exit\<close>, from taking \<open>ptable.lock\<close>.\<close>

definition reparent :: "nat \<Rightarrow> nat \<Rightarrow> ('z ptable_scheme, unit) km" where
  "reparent me p = kbind (kget (\<lambda>s. (procs s p, initproc s))) (\<lambda>(x, ini).
     if p_parent x = Some me then
       kdo [upd_proc p (\<lambda>x. x\<lparr>p_parent := ini\<rparr>),
            (if p_state x = ZOMBIE then wakeup1 (proc_chan ini) else kret ())]
     else kret ())"

definition exit_table :: "('z ptable_scheme, unit) km" where
  "exit_table = kthen (acquire_lk PtableLock) (kbind curproc (\<lambda>me. kdo [
     kbind (the_proc me p_parent) (\<lambda>q. wakeup1 (proc_chan q)),
     kfor [0..<NPROC] (reparent me),
     set_state me ZOMBIE,
     sched,
     kpanic ''zombie exit'']))"

text \<open>The release of the table slot of a zombie in \<open>wait\<close>.\<close>

definition reap_slot :: "nat \<Rightarrow> ('z ptable_scheme, unit) km" where
  "reap_slot p = kdo [
     set_state p UNUSED,
     kthen (AddFreeList (Some p)) (kret ()),
     upd_proc p (\<lambda>x. x\<lparr>p_pid := 0\<rparr>),
     upd_proc p (\<lambda>x. x\<lparr>p_parent := None\<rparr>),
     upd_proc p (\<lambda>x. x\<lparr>p_name := []\<rparr>),
     upd_proc p (\<lambda>x. x\<lparr>p_killed := False\<rparr>)]"
section \<open>The invariant of the table\<close>

definition table_ok :: "'z ptable_scheme \<Rightarrow> (nat \<Rightarrow> nat list) \<Rightarrow> nat list \<Rightarrow> bool" where
  "table_ok s R F \<longleftrightarrow> lists_rep s R F
     \<and> (\<forall>p < NPROC. (p \<in> set F \<longleftrightarrow> p_state (procs s p) = UNUSED)
          \<and> (\<forall>i < 3. p \<in> set (R i) \<longleftrightarrow> p_state (procs s p) = RUNNABLE \<and> p_priority (procs s p) = int i)
          \<and> 0 \<le> p_priority (procs s p) \<and> p_priority (procs s p) < 3)"

definition cpus_ok :: "'z ptable_scheme \<Rightarrow> bool" where
  "cpus_ok s \<longleftrightarrow> (\<forall>c p. cproc s c = Some p \<longrightarrow> p < NPROC \<and> p_state (procs s p) = RUNNING)
     \<and> (\<forall>p < NPROC. p_state (procs s p) = RUNNING \<longrightarrow> (\<exists>c. cproc s c = Some p))
     \<and> (\<forall>c d p. cproc s c = Some p \<longrightarrow> cproc s d = Some p \<longrightarrow> c = d)"

definition sched_inv :: "'z ptable_scheme \<Rightarrow> bool" where
  "sched_inv s \<longleftrightarrow> (\<exists>R F. table_ok s R F) \<and> cpus_ok s"

text \<open>A run that changed only process states and list pointers.\<close>

definition only_states :: "'z ptable_scheme \<Rightarrow> 'z ptable_scheme \<Rightarrow> bool" where
  "only_states s s' \<longleftrightarrow> s' = s\<lparr>procs := procs s', pReadyList := pReadyList s', pFreeList := pFreeList s'\<rparr>
     \<and> (\<forall>q. procs s' q = (procs s q)\<lparr>p_state := p_state (procs s' q), p_next := p_next (procs s' q)\<rparr>)"

lemma only_states_refl [simp]: "only_states s s"
  by (simp add: only_states_def)

lemma only_states_trans: "only_states s t \<Longrightarrow> only_states t u \<Longrightarrow> only_states s u"
  unfolding only_states_def
proof (elim conjE, intro conjI allI)
  assume a: "t = s\<lparr>procs := procs t, pReadyList := pReadyList t, pFreeList := pFreeList t\<rparr>"
    and b: "u = t\<lparr>procs := procs u, pReadyList := pReadyList u, pFreeList := pFreeList u\<rparr>"
  show "u = s\<lparr>procs := procs u, pReadyList := pReadyList u, pFreeList := pFreeList u\<rparr>"
    by (subst b, subst a) simp
next
  fix q
  assume a: "\<forall>q. procs t q = (procs s q)\<lparr>p_state := p_state (procs t q), p_next := p_next (procs t q)\<rparr>"
    and b: "\<forall>q. procs u q = (procs t q)\<lparr>p_state := p_state (procs u q), p_next := p_next (procs u q)\<rparr>"
  show "procs u q = (procs s q)\<lparr>p_state := p_state (procs u q), p_next := p_next (procs u q)\<rparr>"
    by (subst b [rule_format], subst a [rule_format]) simp
qed

lemma only_states_kernel:
  assumes "only_states s s'"
  shows "cproc s' = cproc s" "owner s' = owner s" "ncli s' = ncli s" "cpuid s' = cpuid s"
    "TimeToReset s' = TimeToReset s" "initproc s' = initproc s" "nextpid s' = nextpid s" "mem s' = mem s"
    "freelist s' = freelist s" "use_lock s' = use_lock s" "kend s' = kend s" "cr3 s' = cr3 s"
    "kpgdir s' = kpgdir s" "ticks s' = ticks s"
proof -
  have eq: "s' = s\<lparr>procs := procs s', pReadyList := pReadyList s', pFreeList := pFreeList s'\<rparr>"
    using assms by (simp add: only_states_def)
  show "cproc s' = cproc s" "owner s' = owner s" "ncli s' = ncli s" "cpuid s' = cpuid s"
    "TimeToReset s' = TimeToReset s" "initproc s' = initproc s" "nextpid s' = nextpid s" "mem s' = mem s"
    "freelist s' = freelist s" "use_lock s' = use_lock s" "kend s' = kend s" "cr3 s' = cr3 s"
    "kpgdir s' = kpgdir s" "ticks s' = ticks s"
    by (subst eq, simp)+
qed

lemma only_states_proc:
  assumes "only_states s s'"
  shows "p_priority (procs s' q) = p_priority (procs s q)" "p_chan (procs s' q) = p_chan (procs s q)"
    "p_pid (procs s' q) = p_pid (procs s q)" "p_parent (procs s' q) = p_parent (procs s q)"
    "p_killed (procs s' q) = p_killed (procs s q)" "p_pgdir (procs s' q) = p_pgdir (procs s q)"
    "p_kstack (procs s' q) = p_kstack (procs s q)"
proof -
  have eq: "procs s' q = (procs s q)\<lparr>p_state := p_state (procs s' q), p_next := p_next (procs s' q)\<rparr>"
    using assms by (simp add: only_states_def)
  show "p_priority (procs s' q) = p_priority (procs s q)" "p_chan (procs s' q) = p_chan (procs s q)"
    "p_pid (procs s' q) = p_pid (procs s q)" "p_parent (procs s' q) = p_parent (procs s q)"
    "p_killed (procs s' q) = p_killed (procs s q)" "p_pgdir (procs s' q) = p_pgdir (procs s q)"
    "p_kstack (procs s' q) = p_kstack (procs s q)"
    by (subst eq, simp)+
qed

lemma only_states_relink [simp]:
  "only_states s (relink nx rl fl s)"
  by (simp add: only_states_def relink_def)

lemma table_okD:
  assumes "table_ok s R F" "p < NPROC"
  shows "p \<in> set F \<longleftrightarrow> p_state (procs s p) = UNUSED"
    "i < 3 \<Longrightarrow> p \<in> set (R i) \<longleftrightarrow> p_state (procs s p) = RUNNABLE \<and> p_priority (procs s p) = int i"
    "\<exists>i < 3. p_priority (procs s p) = int i"
proof -
  show "p \<in> set F \<longleftrightarrow> p_state (procs s p) = UNUSED"
    "i < 3 \<Longrightarrow> p \<in> set (R i) \<longleftrightarrow> p_state (procs s p) = RUNNABLE \<and> p_priority (procs s p) = int i"
    using assms by (auto simp: table_ok_def)
  show "\<exists>i < 3. p_priority (procs s p) = int i"
    using assms by (intro exI [of _ "nat (p_priority (procs s p))"]) (auto simp: table_ok_def)
qed

section \<open>Effects of the operations\<close>

lemma set_state_run: "set_state p st s = Ret () (s\<lparr>procs := (procs s)(p := (procs s p)\<lparr>p_state := st\<rparr>)\<rparr>)"
  by (simp add: set_state_def upd_proc_def kmonad)

lemma only_states_set_state: "only_states s (s\<lparr>procs := (procs s)(p := (procs s p)\<lparr>p_state := st\<rparr>)\<rparr>)"
  by (simp add: only_states_def)

lemma lists_rep_procs [simp]:
  assumes "p_next x = p_next (procs s p)"
  shows "lists_rep (s\<lparr>procs := (procs s)(p := x)\<rparr>) R F = lists_rep s R F"
proof -
  have "nexts (s\<lparr>procs := (procs s)(p := x)\<rparr>) = nexts s"
    using assms by (auto simp: nexts_def fun_eq_iff)
  then show ?thesis by (simp add: lists_rep_def)
qed

lemma make_runnable_run:
  assumes ok: "table_ok s R F" and p: "p < NPROC"
    and st: "p_state (procs s p) \<noteq> UNUSED" "p_state (procs s p) \<noteq> RUNNABLE"
  shows "\<exists>s' i. make_runnable p s = Ret () s' \<and> i < 3 \<and> p_priority (procs s p) = int i
    \<and> table_ok s' (R(i := R i @ [p])) F \<and> only_states s s'
    \<and> (\<forall>q. p_state (procs s' q) = (if q = p then RUNNABLE else p_state (procs s q)))"
proof -
  let ?s = "s\<lparr>procs := (procs s)(p := (procs s p)\<lparr>p_state := RUNNABLE\<rparr>)\<rparr>"
  obtain i where i: "i < 3" "p_priority (procs s p) = int i" using table_okD(3) [OF ok p] by blast
  have rep: "lists_rep ?s R F" using ok by (simp add: table_ok_def)
  have off: "off_lists p R F" using ok p st by (auto simp: off_lists_def table_ok_def)
  from AddReadyList_run [OF rep off, of i] i obtain nx rl
    where run: "AddReadyList p ?s = Ret 0 (relink nx rl (pFreeList ?s) ?s)"
      "links_ok nx rl (pFreeList ?s) (R(i := R i @ [p])) F" by auto
  let ?t = "relink nx rl (pFreeList ?s) ?s"
  have st': "p_state (procs ?t q) = (if q = p then RUNNABLE else p_state (procs s q))" for q
    by simp
  have pr': "p_priority (procs ?t q) = p_priority (procs s q)" for q
    by simp
  have "table_ok ?t (R(i := R i @ [p])) F"
    unfolding table_ok_def st' pr'
  proof (intro conjI allI impI)
    show "lists_rep ?t (R(i := R i @ [p])) F" using run(2) by simp
  qed (use ok st i in \<open>auto simp: table_ok_def\<close>)
  moreover have "make_runnable p s = Ret () ?t"
    using run(1) by (simp add: make_runnable_def kmonad set_state_run)
  moreover have "only_states s ?t"
    by (rule only_states_trans [OF only_states_set_state only_states_relink])
  ultimately show ?thesis using i st' by blast
qed

text \<open>\<open>wakeup1\<close> makes exactly the processes sleeping on the channel runnable, in table order.\<close>

definition sleeps_on :: "'z ptable_scheme \<Rightarrow> chan \<Rightarrow> nat \<Rightarrow> bool" where
  "sleeps_on s ch p \<longleftrightarrow> p_state (procs s p) = SLEEPING \<and> p_chan (procs s p) = ch"

lemma wake_loop_run:
  assumes "table_ok s R F" "distinct ps" "set ps \<subseteq> {..<NPROC}"
  shows "\<exists>s' R'. kfor ps (wake_proc ch) s = Ret () s' \<and> only_states s s' \<and> table_ok s' R' F
    \<and> (\<forall>i < 3. R' i = R i @ filter (\<lambda>p. sleeps_on s ch p \<and> p_priority (procs s p) = int i) ps)
    \<and> (\<forall>q. p_state (procs s' q) = (if q \<in> set ps \<and> sleeps_on s ch q then RUNNABLE else p_state (procs s q)))"
  using assms
proof (induction ps arbitrary: s R)
  case Nil
  show ?case by (rule exI [of _ s], rule exI [of _ R]) (use Nil in \<open>simp add: kmonad\<close>)
next
  case (Cons p ps)
  show ?case
  proof (cases "sleeps_on s ch p")
    case False
    then have "wake_proc ch p s = Ret () s" by (auto simp: wake_proc_def sleeps_on_def kmonad)
    moreover obtain s' R' where "kfor ps (wake_proc ch) s = Ret () s'" "only_states s s'" "table_ok s' R' F"
      "\<forall>i < 3. R' i = R i @ filter (\<lambda>p. sleeps_on s ch p \<and> p_priority (procs s p) = int i) ps"
      "\<forall>q. p_state (procs s' q) = (if q \<in> set ps \<and> sleeps_on s ch q then RUNNABLE else p_state (procs s q))"
      using Cons.IH [OF Cons.prems(1)] Cons.prems by auto
    ultimately show ?thesis
      using False by (intro exI [of _ s'] exI [of _ R']) (auto simp: kthen_Ret)
  next
    case True
    have p: "p < NPROC" "p \<notin> set ps" using Cons.prems by auto
    from make_runnable_run [OF Cons.prems(1) p(1)] True obtain s1 k
      where s1: "make_runnable p s = Ret () s1" "k < 3" "p_priority (procs s p) = int k"
        "table_ok s1 (R(k := R k @ [p])) F" "only_states s s1"
        "\<forall>q. p_state (procs s1 q) = (if q = p then RUNNABLE else p_state (procs s q))"
      by (auto simp: sleeps_on_def)
    have wake: "wake_proc ch p s = Ret () s1" using True s1(1) by (simp add: wake_proc_def sleeps_on_def kmonad)
    have same: "sleeps_on s1 ch q = (q \<noteq> p \<and> sleeps_on s ch q)" for q
      using s1(6) by (auto simp: sleeps_on_def only_states_proc [OF s1(5)])
    obtain s' R' where s': "kfor ps (wake_proc ch) s1 = Ret () s'" "only_states s1 s'" "table_ok s' R' F"
      "\<forall>i < 3. R' i = (R(k := R k @ [p])) i @ filter (\<lambda>p. sleeps_on s1 ch p \<and> p_priority (procs s1 p) = int i) ps"
      "\<forall>q. p_state (procs s' q) = (if q \<in> set ps \<and> sleeps_on s1 ch q then RUNNABLE else p_state (procs s1 q))"
      using Cons.IH [OF s1(4)] Cons.prems by auto
    have "filter (\<lambda>p. sleeps_on s1 ch p \<and> p_priority (procs s1 p) = int i) ps
        = filter (\<lambda>p. sleeps_on s ch p \<and> p_priority (procs s p) = int i) ps" for i
      using p(2) by (auto simp: same only_states_proc [OF s1(5)] intro: filter_cong)
    with s'(4) have R': "\<forall>i < 3. R' i = R i @ filter (\<lambda>p. sleeps_on s ch p \<and> p_priority (procs s p) = int i) (p # ps)"
      using True s1(3) by auto
    have "p_state (procs s' q) = (if q \<in> set (p # ps) \<and> sleeps_on s ch q then RUNNABLE else p_state (procs s q))" for q
      using s'(5) s1(6) True by (auto simp: same)
    with R' s' wake only_states_trans [OF s1(5) s'(2)] show ?thesis
      by (intro exI [of _ s'] exI [of _ R']) (simp add: kthen_Ret)
  qed
qed

lemma table_ok_frame [simp]:
  "table_ok (s\<lparr>owner := v1\<rparr>) R F = table_ok s R F" "table_ok (s\<lparr>ncli := v2\<rparr>) R F = table_ok s R F"
  "table_ok (s\<lparr>cpuid := v3\<rparr>) R F = table_ok s R F" "table_ok (s\<lparr>mem := v4\<rparr>) R F = table_ok s R F"
  "table_ok (s\<lparr>freelist := v5\<rparr>) R F = table_ok s R F" "table_ok (s\<lparr>TimeToReset := v6\<rparr>) R F = table_ok s R F"
  "table_ok (s\<lparr>cproc := v7\<rparr>) R F = table_ok s R F" "table_ok (s\<lparr>cr3 := v8\<rparr>) R F = table_ok s R F"
  "table_ok (s\<lparr>esp0 := v9\<rparr>) R F = table_ok s R F" "table_ok (s\<lparr>nextpid := v10\<rparr>) R F = table_ok s R F"
  "table_ok (s\<lparr>initproc := v11\<rparr>) R F = table_ok s R F" "table_ok (s\<lparr>ticks := v12\<rparr>) R F = table_ok s R F"
  by (simp_all add: table_ok_def lists_rep_def nexts_def)

lemma cpus_ok_frame [simp]:
  "cpus_ok (s\<lparr>owner := v1\<rparr>) = cpus_ok s" "cpus_ok (s\<lparr>ncli := v2\<rparr>) = cpus_ok s"
  "cpus_ok (s\<lparr>cpuid := v3\<rparr>) = cpus_ok s" "cpus_ok (s\<lparr>mem := v4\<rparr>) = cpus_ok s"
  "cpus_ok (s\<lparr>freelist := v5\<rparr>) = cpus_ok s" "cpus_ok (s\<lparr>TimeToReset := v6\<rparr>) = cpus_ok s"
  "cpus_ok (s\<lparr>cr3 := v8\<rparr>) = cpus_ok s"
  "cpus_ok (s\<lparr>esp0 := v9\<rparr>) = cpus_ok s" "cpus_ok (s\<lparr>nextpid := v10\<rparr>) = cpus_ok s"
  "cpus_ok (s\<lparr>initproc := v11\<rparr>) = cpus_ok s" "cpus_ok (s\<lparr>ticks := v12\<rparr>) = cpus_ok s"
  by (simp_all add: cpus_ok_def)

lemma sched_inv_frame [simp]:
  "sched_inv (s\<lparr>owner := v1\<rparr>) = sched_inv s" "sched_inv (s\<lparr>ncli := v2\<rparr>) = sched_inv s"
  "sched_inv (s\<lparr>cpuid := v3\<rparr>) = sched_inv s" "sched_inv (s\<lparr>mem := v4\<rparr>) = sched_inv s"
  "sched_inv (s\<lparr>freelist := v5\<rparr>) = sched_inv s" "sched_inv (s\<lparr>cr3 := v8\<rparr>) = sched_inv s"
  "sched_inv (s\<lparr>esp0 := v9\<rparr>) = sched_inv s" "sched_inv (s\<lparr>nextpid := v10\<rparr>) = sched_inv s"
  "sched_inv (s\<lparr>initproc := v11\<rparr>) = sched_inv s" "sched_inv (s\<lparr>ticks := v12\<rparr>) = sched_inv s"
  by (simp_all add: sched_inv_def)

lemma cpus_ok_cong:
  assumes "cproc s' = cproc s" "\<And>q. p_state (procs s' q) = RUNNING \<longleftrightarrow> p_state (procs s q) = RUNNING"
  shows "cpus_ok s' = cpus_ok s"
  using assms by (simp add: cpus_ok_def)

lemma lock_steps_inv:
  "acquire_lk l s = Ret () s' \<Longrightarrow> sched_inv s' = sched_inv s"
  "release_lk l s = Ret () s' \<Longrightarrow> sched_inv s' = sched_inv s"
  by (auto simp: acquire_lk_def release_lk_def kmonad split: option.splits if_splits)

text \<open>The rounds of the scheduler.\<close>

definition merged :: "(nat \<Rightarrow> nat list) \<Rightarrow> nat \<Rightarrow> nat list" where
  "merged R = R(0 := [], 1 := R 1 @ R 0 @ R 2, 2 := [])"

definition after_tick :: "'z ptable_scheme \<Rightarrow> (nat \<Rightarrow> nat list) \<Rightarrow> nat \<Rightarrow> nat list" where
  "after_tick s R = (if TimeToReset s = 0 then merged R else R)"

lemma less_NPROC_merge:
  assumes "table_ok s R F" "p < NPROC"
  shows "p \<in> set (R 1 @ R 0 @ R 2) \<longleftrightarrow> p_state (procs s p) = RUNNABLE"
proof -
  obtain i where i: "i < 3" "p_priority (procs s p) = int i" using table_okD(3) [OF assms] by blast
  show ?thesis
    using table_okD(2) [OF assms, of 0] table_okD(2) [OF assms, of 1] table_okD(2) [OF assms, of 2] i
      less_3_cases [OF i(1)] by auto
qed

lemma table_ok_reset:
  assumes "table_ok s R F" "links_ok nx rl fl (merged R) F"
  shows "table_ok (relink nx rl fl (all_priority_1 s)) (merged R) F"
proof -
  have st: "p_state (procs (relink nx rl fl (all_priority_1 s)) p) = p_state (procs s p)"
    "p_priority (procs (relink nx rl fl (all_priority_1 s)) p) = 1" if "p < NPROC" for p
    using that by (simp_all add: all_priority_1_def)
  have "p \<in> set (merged R i) \<longleftrightarrow> p_state (procs s p) = RUNNABLE \<and> i = 1" if "p < NPROC" "i < 3" for p i
    using less_NPROC_merge [OF assms(1) that(1)] less_3_cases [OF that(2)] by (auto simp: merged_def)
  then show ?thesis
    using assms st table_okD(1) [OF assms(1)] by (simp add: table_ok_def)
qed

lemma reset_tick_run:
  assumes "table_ok s R F"
  shows "\<exists>s'. reset_tick s = Ret () s' \<and> table_ok s' (after_tick s R) F
    \<and> TimeToReset s' = (if TimeToReset s = 0 then MaxTimeToReset else TimeToReset s - 1)
    \<and> (\<forall>q. p_state (procs s' q) = p_state (procs s q) \<and> p_pgdir (procs s' q) = p_pgdir (procs s q)
        \<and> p_kstack (procs s' q) = p_kstack (procs s q))
    \<and> (\<forall>q < NPROC. p_priority (procs s' q) = (if TimeToReset s = 0 then 1 else p_priority (procs s q)))
    \<and> cproc s' = cproc s \<and> cpuid s' = cpuid s \<and> ncli s' = ncli s \<and> owner s' = owner s"
proof (cases "TimeToReset s = 0")
  case True
  from ResetPriority_run [of s R F] assms obtain nx rl
    where "ResetPriority s = Ret 0 (relink nx rl (pFreeList s) (all_priority_1 s))"
      "links_ok nx rl (pFreeList s) (merged R) F" by (auto simp: table_ok_def merged_def)
  with True assms show ?thesis
    by (simp add: reset_tick_def kmonad after_tick_def table_ok_reset) (simp add: all_priority_1_def)
next
  case False
  with assms show ?thesis by (simp add: reset_tick_def kmonad after_tick_def)
qed

lemma switchuvm_run:
  assumes "cproc s (cpuid s) = Some q" "0 \<le> ncli s (cpuid s)"
  shows "switchuvm p s = (if p_pgdir (procs s p) = 0 then Stop (Panic ''switchuvm: no pgdir'')
    else Ret () (s\<lparr>esp0 := (esp0 s)(cpuid s := p_kstack (procs s q) + KSTACKSIZE),
      cr3 := (cr3 s)(cpuid s := v2p (p_pgdir (procs s p)))\<rparr>))"
  using assms
  by (simp add: switchuvm_def push_cli_def pop_cli_def curproc_def the_proc_def lcr3_def kmonad)

lemma heads_nonempty:
  assumes "lists_rep s R F"
  shows "(pReadyList s 0 \<noteq> None \<or> pReadyList s 1 \<noteq> None \<or> pReadyList s 2 \<noteq> None) \<longleftrightarrow> R 0 @ R 1 @ R 2 \<noteq> []"
proof -
  have "chain (nexts s) (pReadyList s i) (R i)" if "i < 3" for i
    using assms that by (simp add: lists_rep_def links_ok_def)
  then have "pReadyList s i = None \<longleftrightarrow> R i = []" if "i < 3" for i
    using that by (cases "R i") fastforce+
  then show ?thesis by simp
qed

lemma first_level:
  assumes "R 0 @ R 1 @ R 2 = p # ps"
  shows "\<exists>i < 3 :: nat. \<exists>ys. R i = p # ys \<and> (\<forall>j < i. R j = [])"
proof -
  consider "R 0 \<noteq> []" | "R 0 = []" "R 1 \<noteq> []" | "R 0 = []" "R 1 = []" by blast
  then show ?thesis
  proof cases
    case 1
    with assms show ?thesis by (intro exI [of _ 0]) (cases "R 0", auto)
  next
    case 2
    with assms show ?thesis by (intro exI [of _ 1]) (cases "R 1", auto)
  next
    case 3
    with assms show ?thesis by (intro exI [of _ 2]) (auto simp: less_2_cases_iff)
  qed
qed

lemma remove_running:
  assumes ok: "table_ok s R F" and p: "p < NPROC" "p \<in> set (R i)" "i < 3"
    and t: "lists_rep t R F" "\<And>q. p_state (procs t q) = (if q = p then RUNNING else p_state (procs s q))"
      "\<And>q. p_priority (procs t q) = p_priority (procs s q)"
  shows "\<exists>t'. RemoveReadyList p t = Ret 0 t' \<and> table_ok t' (R(i := remove1 p (R i))) F \<and> only_states t t'
    \<and> (\<forall>q. p_state (procs t' q) = p_state (procs t q))"
proof -
  have pr: "p_priority (procs t p) = int i" using table_okD(2) [OF ok p(1,3)] p(2) t(3) by simp
  from RemoveReadyList_run [OF t(1) p(2) pr p(3)] obtain nx rl
    where run: "RemoveReadyList p t = Ret 0 (relink nx rl (pFreeList t) t)"
      "links_ok nx rl (pFreeList t) (R(i := remove1 p (R i))) F" by blast
  have d: "distinct (R i)" "\<And>j. j < 3 \<Longrightarrow> j \<noteq> i \<Longrightarrow> p \<notin> set (R j)"
    using t(1) links_okD(2,5) [of "nexts t" "pReadyList t" "pFreeList t" R F i] p(2,3)
    by (auto simp: lists_rep_def)
  have "table_ok (relink nx rl (pFreeList t) t) (R(i := remove1 p (R i))) F"
    unfolding table_ok_def
  proof (intro conjI allI impI)
    show "lists_rep (relink nx rl (pFreeList t) t) (R(i := remove1 p (R i))) F" using run(2) by simp
  qed (use ok d p t table_okD [OF ok] in \<open>auto simp: table_ok_def\<close>)
  with run(1) show ?thesis by auto
qed

lemma scheduler_pick_run:
  assumes ok: "table_ok s R F" and n: "0 \<le> ncli s (cpuid s)"
  shows "case after_tick s R 0 @ after_tick s R 1 @ after_tick s R 2 of
      [] \<Rightarrow> scheduler_pick s = Ret False s
    | p # _ \<Rightarrow> if p_pgdir (procs s p) = 0 then scheduler_pick s = Stop (Panic ''switchuvm: no pgdir'')
        else \<exists>s' i. scheduler_pick s = Ret True s' \<and> i < 3 \<and> (\<forall>j < i. after_tick s R j = [])
          \<and> after_tick s R i = p # tl (after_tick s R i)
          \<and> table_ok s' ((after_tick s R)(i := tl (after_tick s R i))) F
          \<and> TimeToReset s' = (if TimeToReset s = 0 then MaxTimeToReset else TimeToReset s - 1)
          \<and> (\<forall>q. p_state (procs s' q) = (if q = p then RUNNING else p_state (procs s q)))
          \<and> (\<forall>q < NPROC. p_priority (procs s' q) = (if TimeToReset s = 0 then 1 else p_priority (procs s q)))
          \<and> cproc s' = (cproc s)(cpuid s := Some p) \<and> cpuid s' = cpuid s \<and> ncli s' = ncli s
          \<and> owner s' = owner s \<and> cr3 s' (cpuid s) = v2p (p_pgdir (procs s p))"
proof -
  let ?R = "after_tick s R"
  have rep: "lists_rep s R F" using ok by (simp add: table_ok_def)
  have nonempty: "?R 0 @ ?R 1 @ ?R 2 \<noteq> [] \<longleftrightarrow> R 0 @ R 1 @ R 2 \<noteq> []"
    by (auto simp: after_tick_def merged_def)
  show ?thesis
  proof (cases "?R 0 @ ?R 1 @ ?R 2")
    case Nil
    then have "scheduler_pick s = Ret False s"
      using heads_nonempty [OF rep] nonempty by (simp add: scheduler_pick_def kmonad)
    with Nil show ?thesis by simp
  next
    case (Cons p ps)
    from reset_tick_run [OF ok] obtain s1 where s1: "reset_tick s = Ret () s1" "table_ok s1 ?R F"
      "TimeToReset s1 = (if TimeToReset s = 0 then MaxTimeToReset else TimeToReset s - 1)"
      "\<And>q. p_state (procs s1 q) = p_state (procs s q)" "\<And>q. p_pgdir (procs s1 q) = p_pgdir (procs s q)"
      "\<And>q. q < NPROC \<Longrightarrow> p_priority (procs s1 q) = (if TimeToReset s = 0 then 1 else p_priority (procs s q))"
      "cproc s1 = cproc s" "cpuid s1 = cpuid s" "ncli s1 = ncli s" "owner s1 = owner s" by blast
    have rep1: "lists_rep s1 ?R F" using s1(2) by (simp add: table_ok_def)
    from first_level [of ?R, OF Cons] obtain i ys where i: "i < 3" "?R i = p # ys" "\<forall>j < i. ?R j = []"
      by blast
    have p: "p < NPROC" "p \<in> set (?R i)"
      using rep1 i links_okD(3) [of _ _ _ ?R F i] by (auto simp: lists_rep_def)
    have get: "GetReady s1 = Ret (Some p) s1" using GetReady_run [OF rep1] Cons by simp
    have entered: "pReadyList s 0 \<noteq> None \<or> pReadyList s 1 \<noteq> None \<or> pReadyList s 2 \<noteq> None"
      using heads_nonempty [OF rep] nonempty Cons by (metis list.distinct(1))
    define s2 where "s2 = s1\<lparr>cproc := (cproc s1)(cpuid s1 := Some p)\<rparr>"
    have sw: "switchuvm p s2 = (if p_pgdir (procs s p) = 0 then Stop (Panic ''switchuvm: no pgdir'')
        else Ret () (s2\<lparr>esp0 := (esp0 s2)(cpuid s2 := p_kstack (procs s2 p) + KSTACKSIZE),
          cr3 := (cr3 s2)(cpuid s2 := v2p (p_pgdir (procs s2 p)))\<rparr>))"
      by (subst switchuvm_run [where q = p]) (use n s1 in \<open>simp_all add: s2_def\<close>)
    show ?thesis
    proof (cases "p_pgdir (procs s p) = 0")
      case True
      with sw entered s1(1) get have "scheduler_pick s = Stop (Panic ''switchuvm: no pgdir'')"
        by (auto simp: scheduler_pick_def kmonad set_cproc_def s2_def)
      with True Cons show ?thesis by simp
    next
      case False
      define s3 where "s3 = s2\<lparr>esp0 := (esp0 s2)(cpuid s2 := p_kstack (procs s2 p) + KSTACKSIZE),
          cr3 := (cr3 s2)(cpuid s2 := v2p (p_pgdir (procs s2 p)))\<rparr>"
      define s4 where "s4 = s3\<lparr>procs := (procs s3)(p := (procs s3 p)\<lparr>p_state := RUNNING\<rparr>)\<rparr>"
      have "lists_rep s3 ?R F" using s1(2) by (simp add: s3_def s2_def table_ok_def lists_rep_def nexts_def)
      then have rep4: "lists_rep s4 ?R F" by (simp add: s4_def)
      have "p_state (procs s4 q) = (if q = p then RUNNING else p_state (procs s1 q))"
        "p_priority (procs s4 q) = p_priority (procs s1 q)" for q by (simp_all add: s4_def s3_def s2_def)
      with remove_running [OF s1(2) p i(1) rep4] obtain s5
        where s5: "RemoveReadyList p s4 = Ret 0 s5" "table_ok s5 (?R(i := remove1 p (?R i))) F"
          "only_states s4 s5" "\<And>q. p_state (procs s5 q) = p_state (procs s4 q)" by blast
      have "scheduler_pick s = Ret True s5"
        using entered s1(1) get sw False s5(1)
        by (auto simp: scheduler_pick_def kmonad set_cproc_def set_state_run s2_def s3_def s4_def)
      moreover have "remove1 p (?R i) = tl (?R i)" using i(2) by simp
      moreover have "p_state (procs s5 q) = (if q = p then RUNNING else p_state (procs s q))" for q
        using s5(4) s1(4) by (simp add: s4_def s3_def s2_def)
      moreover have "p_priority (procs s5 q) = p_priority (procs s1 q)" for q
        by (simp add: only_states_proc [OF s5(3)] s4_def s3_def s2_def)
      moreover have "cproc s5 = (cproc s)(cpuid s := Some p)" "cpuid s5 = cpuid s" "ncli s5 = ncli s"
        "owner s5 = owner s" "cr3 s5 (cpuid s) = v2p (p_pgdir (procs s p))" "TimeToReset s5 = TimeToReset s1"
        by (simp_all add: only_states_kernel [OF s5(3)] s4_def s3_def s2_def s1)
      ultimately show ?thesis using Cons False i s1(3,6) s5(2) by auto
    qed
  qed
qed

section \<open>Locks around the table\<close>

lemma table_ok_lock_taken [simp]: "table_ok (lock_taken l s) R F = table_ok s R F"
  "cpus_ok (lock_taken l s) = cpus_ok s"
  by (simp_all add: lock_taken_def)

lemma lock_taken_sel [simp]:
  "procs (lock_taken l s) = procs s" "cproc (lock_taken l s) = cproc s" "cpuid (lock_taken l s) = cpuid s"
  "initproc (lock_taken l s) = initproc s"
  by (simp_all add: lock_taken_def)

lemma table_ok_upd [simp]:
  assumes "p_next x = p_next (procs s p)" "p_state x = p_state (procs s p)"
    "p_priority x = p_priority (procs s p)"
  shows "table_ok (s\<lparr>procs := (procs s)(p := x)\<rparr>) R F = table_ok s R F"
proof -
  let ?t = "s\<lparr>procs := (procs s)(p := x)\<rparr>"
  have "p_state (procs ?t q) = p_state (procs s q)" "p_priority (procs ?t q) = p_priority (procs s q)" for q
    using assms by auto
  with assms(1) show ?thesis by (simp only: table_ok_def lists_rep_procs simp_thms)
qed

lemma scheduler_back_run:
  "scheduler_back t = Ret () (t\<lparr>cr3 := (cr3 t)(cpuid t := v2p (kpgdir t)), cproc := (cproc t)(cpuid t := None)\<rparr>)"
  by (simp add: scheduler_back_def switchkvm_def lcr3_def set_cproc_def kmonad)

lemma sched_Sleeps: "sched s = Sleeps t \<Longrightarrow> t = s"
  by (auto simp: sched_def kinv curproc_def the_proc_def split: if_splits)

lemma wakeup1_run:
  assumes "table_ok s R F"
  shows "\<exists>s' R'. wakeup1 ch s = Ret () s' \<and> only_states s s' \<and> table_ok s' R' F
    \<and> (\<forall>i < 3. R' i = R i @ filter (\<lambda>p. sleeps_on s ch p \<and> p_priority (procs s p) = int i) [0..<NPROC])
    \<and> (\<forall>q. p_state (procs s' q) = (if q < NPROC \<and> sleeps_on s ch q then RUNNABLE else p_state (procs s q)))"
proof -
  have "distinct [0..<NPROC]" "set [0..<NPROC] \<subseteq> {..<NPROC}" by auto
  from wake_loop_run [OF assms this, of ch] obtain s' R' where s':
    "kfor [0..<NPROC] (wake_proc ch) s = Ret () s'" "only_states s s'" "table_ok s' R' F"
    "\<forall>i < 3. R' i = R i @ filter (\<lambda>p. sleeps_on s ch p \<and> p_priority (procs s p) = int i) [0..<NPROC]"
    "\<forall>q. p_state (procs s' q) = (if q < NPROC \<and> sleeps_on s ch q then RUNNABLE else p_state (procs s q))"
    by auto
  then show ?thesis by (auto simp: wakeup1_def)
qed

lemma sched_not_Ret [simp]: "sched s \<noteq> Ret u t"
  by (auto simp: sched_def kinv split: if_splits)

lemma acquire_lk_taken: "owner s l = Some d \<Longrightarrow> \<exists>e. acquire_lk l s = Stop e"
  by (simp add: acquire_lk_def kmonad)

lemma curproc_run: "curproc s = (case cproc s (cpuid s) of None \<Rightarrow> Stop (Fault ''proc'') | Some p \<Rightarrow> Ret p s)"
  by (simp add: curproc_def kmonad split: option.splits)

text \<open>Entry of a routine that takes \<open>ptable.lock\<close> in the context of a process.\<close>

lemma locked_entry:
  assumes "kthen (acquire_lk PtableLock) m s = r" "\<And>e. r \<noteq> Stop e"
  shows "owner s PtableLock = None" "m (lock_taken PtableLock s) = r"
proof -
  show "owner s PtableLock = None"
  proof (rule ccontr)
    assume "owner s PtableLock \<noteq> None"
    then obtain e where "acquire_lk PtableLock s = Stop e" using acquire_lk_taken by blast
    then have "r = Stop e" using assms(1) by (simp add: kthen_Stop)
    with assms(2) show False by blast
  qed
  then have "acquire_lk PtableLock s = Ret () (lock_taken PtableLock s)" by (simp add: acquire_lk_eq_Ret)
  with assms(1) show "m (lock_taken PtableLock s) = r" by (simp add: kthen_Ret)
qed

lemma curproc_entry:
  assumes "kbind curproc f s = r" "\<And>e. r \<noteq> Stop e"
  shows "\<exists>p. cproc s (cpuid s) = Some p \<and> f p s = r"
  using assms curproc_run [of s] by (cases "cproc s (cpuid s)") (auto simp: kmonad)

lemma table_ok_unused:
  assumes ok: "table_ok s R F" and p: "p < NPROC" "p_state (procs s p) \<noteq> UNUSED" "p_state (procs s p) \<noteq> RUNNABLE"
    and t: "lists_rep t R F" "\<And>q. p_state (procs t q) = (if q = p then UNUSED else p_state (procs s q))"
      "\<And>q. p_priority (procs t q) = p_priority (procs s q)"
  shows "\<exists>t'. AddFreeList (Some p) t = Ret 0 t' \<and> table_ok t' R (p # F) \<and> only_states t t'
    \<and> (\<forall>q. p_state (procs t' q) = p_state (procs t q))"
proof -
  have off: "off_lists p R F" using ok p by (auto simp: off_lists_def table_ok_def)
  from AddFreeList_run [OF t(1) off] obtain nx where run:
    "AddFreeList (Some p) t = Ret 0 (relink nx (pReadyList t) (Some p) t)" "links_ok nx (pReadyList t) (Some p) R (p # F)"
    by blast
  have "table_ok (relink nx (pReadyList t) (Some p) t) R (p # F)"
    unfolding table_ok_def
  proof (intro conjI allI impI)
    show "lists_rep (relink nx (pReadyList t) (Some p) t) R (p # F)" using run(2) by simp
  qed (use ok p t in \<open>auto simp: table_ok_def\<close>)
  with run(1) show ?thesis by auto
qed

lemma upd_proc_run: "upd_proc p f s = Ret () (s\<lparr>procs := (procs s)(p := f (procs s p))\<rparr>)"
  by (simp add: upd_proc_def kmonad)

text \<open>The state after releasing a lock.\<close>

definition lock_dropped :: "lockid \<Rightarrow> 'z kcore_scheme \<Rightarrow> 'z kcore_scheme" where
  "lock_dropped l s = s\<lparr>owner := (owner s)(l := None), ncli := (ncli s)(cpuid s := ncli s (cpuid s) - 1)\<rparr>"

lemma release_dropped:
  "owner s l = Some (cpuid s) \<Longrightarrow> 0 < ncli s (cpuid s) \<Longrightarrow> release_lk l s = Ret () (lock_dropped l s)"
  by (simp add: release_lk_Ret lock_dropped_def)

lemma lock_dropped_sel [simp]:
  "procs (lock_dropped l s) = procs s" "cproc (lock_dropped l s) = cproc s" "cpuid (lock_dropped l s) = cpuid s"
  "pReadyList (lock_dropped l s) = pReadyList s" "pFreeList (lock_dropped l s) = pFreeList s"
  "nextpid (lock_dropped l s) = nextpid s" "mem (lock_dropped l s) = mem s"
  "freelist (lock_dropped l s) = freelist s" "use_lock (lock_dropped l s) = use_lock s"
  "kend (lock_dropped l s) = kend s" "forkret_at (lock_dropped l s) = forkret_at s"
  "TimeToReset (lock_dropped l s) = TimeToReset s" "initproc (lock_dropped l s) = initproc s"
  "table_ok (lock_dropped l s) R F = table_ok s R F" "nexts (lock_dropped l s) = nexts s"
  by (simp_all add: lock_dropped_def nexts_def)

lemma lock_taken_more [simp]:
  "pReadyList (lock_taken l s) = pReadyList s" "pFreeList (lock_taken l s) = pFreeList s"
  "nextpid (lock_taken l s) = nextpid s" "mem (lock_taken l s) = mem s"
  "freelist (lock_taken l s) = freelist s" "use_lock (lock_taken l s) = use_lock s"
  "kend (lock_taken l s) = kend s" "forkret_at (lock_taken l s) = forkret_at s"
  "TimeToReset (lock_taken l s) = TimeToReset s" "nexts (lock_taken l s) = nexts s"
  "owner (lock_taken l s) = (owner s)(l := Some (cpuid s))"
  "ncli (lock_taken l s) = (ncli s)(cpuid s := ncli s (cpuid s) + 1)"
  by (simp_all add: lock_taken_def nexts_def)

lemma lists_rep_locks [simp]:
  "lists_rep (lock_taken l s) R F = lists_rep s R F" "lists_rep (lock_dropped l s) R F = lists_rep s R F"
  by (simp_all add: lists_rep_def)

lemma alloc_slot_run:
  assumes ok: "table_ok s R F" and free: "lock_free PtableLock s"
  shows "case F of
      [] \<Rightarrow> alloc_slot s = Ret None s
    | p # F' \<Rightarrow> \<exists>s'. alloc_slot s = Ret (Some p) s' \<and> p < NPROC \<and> table_ok s' R F'
        \<and> nextpid s' = int32 (nextpid s + 1)
        \<and> (\<forall>q. procs s' q = (if q = p then (procs s q)\<lparr>p_state := EMBRYO, p_pid := nextpid s\<rparr> else procs s q))
        \<and> cproc s' = cproc s \<and> owner s' = owner s \<and> ncli s' = ncli s \<and> cpuid s' = cpuid s
        \<and> mem s' = mem s \<and> freelist s' = freelist s \<and> use_lock s' = use_lock s \<and> kend s' = kend s
        \<and> TimeToReset s' = TimeToReset s"
proof -
  let ?l = "lock_taken PtableLock s"
  have rep: "lists_rep ?l R F" using ok by (simp add: table_ok_def lists_rep_def)
  have acq: "acquire_lk PtableLock s = Ret () ?l" using klock.acq_free [OF free] .
  show ?thesis
  proof (cases F)
    case Nil
    have "RemoveFreeList ?l = Ret None ?l" using RemoveFreeList_run [OF rep] Nil by simp
    moreover have "release_lk PtableLock ?l = Ret () s" using klock.rel_taken [OF free] .
    ultimately have "alloc_slot s = Ret None s" using acq by (simp add: alloc_slot_def kmonad)
    with Nil show ?thesis by simp
  next
    case (Cons p F')
    define s1 where "s1 = relink (nexts s) (pReadyList s) (nexts s p) ?l"
    have rm: "RemoveFreeList ?l = Ret (Some p) s1"
      "links_ok (nexts s) (pReadyList s) (nexts s p) R F'" "off_lists p R F'"
      using RemoveFreeList_run [OF rep] Cons by (simp_all add: s1_def)
    have same: "procs s1 q = procs s q" for q by (simp add: s1_def nexts_def)
    define s2 where "s2 = s1\<lparr>procs := (procs s1)(p := (procs s1 p)\<lparr>p_state := EMBRYO, p_pid := nextpid s\<rparr>),
      nextpid := int32 (nextpid s + 1)\<rparr>"
    have drop: "release_lk PtableLock s2 = Ret () (lock_dropped PtableLock s2)"
      by (rule release_dropped) (use free in \<open>auto simp: s2_def s1_def lock_free_def\<close>)
    then have run: "alloc_slot s = Ret (Some p) (lock_dropped PtableLock s2)"
      using acq rm(1) by (simp add: alloc_slot_def kmonad set_state_run upd_proc_run)
        (simp add: s2_def s1_def kmonad)
    have procs2: "procs s2 q = (if q = p then (procs s q)\<lparr>p_state := EMBRYO, p_pid := nextpid s\<rparr> else procs s q)" for q
      by (simp add: s2_def same)
    have "lists_rep s1 R F'" using rm(2) by (simp add: s1_def)
    moreover have "nexts s2 = nexts s1" by (auto simp: s2_def nexts_def fun_eq_iff)
    ultimately have rep2: "lists_rep s2 R F'" by (simp add: s2_def lists_rep_def)
    have "p_priority (procs s2 q) = p_priority (procs s q)" for q by (simp add: procs2)
    moreover have "q \<in> set F' \<longleftrightarrow> p_state (procs s2 q) = UNUSED" if "q < NPROC" for q
      using table_okD(1) [OF ok that] rm(3) Cons by (cases "q = p") (simp_all add: procs2 off_lists_def)
    moreover have "q \<in> set (R i) \<longleftrightarrow> p_state (procs s2 q) = RUNNABLE \<and> p_priority (procs s q) = int i"
      if "q < NPROC" "i < 3" for q i
      using table_okD(2) [OF ok that] rm(3) that(2) by (cases "q = p") (auto simp: procs2 off_lists_def)
    ultimately have "table_ok s2 R F'"
      using rep2 ok by (simp add: table_ok_def)
    moreover have "owner (lock_dropped PtableLock s2) = owner s" "ncli (lock_dropped PtableLock s2) = ncli s"
      using free by (auto simp: lock_dropped_def s2_def s1_def lock_free_def fun_upd_idem)
    moreover have "nextpid s2 = int32 (nextpid s + 1)" "cproc s2 = cproc s" "cpuid s2 = cpuid s" "mem s2 = mem s"
      "freelist s2 = freelist s" "use_lock s2 = use_lock s" "kend s2 = kend s"
      "TimeToReset s2 = TimeToReset s" by (simp_all add: s2_def s1_def)
    ultimately show ?thesis
      unfolding Cons list.case using run rm(3) procs2
      by (intro exI [of _ "lock_dropped PtableLock s2"]) (simp add: off_lists_def)
  qed
qed

lemma alloc_stack_run:
  assumes ok: "table_ok s R F" and p: "p < NPROC" "p_state (procs s p) = EMBRYO"
    and kl: "use_lock s \<longrightarrow> lock_free KmemLock s"
  shows "\<exists>s'. alloc_stack p s = Ret (if freelist s = 0 then None else Some p) s'
    \<and> table_ok s' R (if freelist s = 0 then p # F else F) \<and> nextpid s' = nextpid s
    \<and> (\<forall>q. p_state (procs s' q) = (if q = p \<and> freelist s = 0 then UNUSED else p_state (procs s q)))
    \<and> (\<forall>q. p_pid (procs s' q) = p_pid (procs s q)) \<and> p_kstack (procs s' p) = freelist s
    \<and> (\<forall>q. p_killed (procs s' q) = p_killed (procs s q) \<and> p_priority (procs s' q) = p_priority (procs s q))
    \<and> cproc s' = cproc s \<and> owner s' = owner s \<and> ncli s' = ncli s \<and> cpuid s' = cpuid s
    \<and> TimeToReset s' = TimeToReset s"
proof (cases "freelist s = 0")
  case True
  then have ka: "kalloc s = Ret None s" using kalloc_run [OF kl] by (simp add: ptr_def)
  define t where "t = s\<lparr>procs := (procs s)(p := (procs s p)\<lparr>p_kstack := 0, p_state := UNUSED\<rparr>)\<rparr>"
  have "lists_rep t R F" using ok by (simp add: t_def table_ok_def)
  moreover have "p_state (procs t q) = (if q = p then UNUSED else p_state (procs s q))"
    "p_priority (procs t q) = p_priority (procs s q)" for q by (simp_all add: t_def)
  ultimately obtain t' where t': "AddFreeList (Some p) t = Ret 0 t'" "table_ok t' R (p # F)" "only_states t t'"
    "\<forall>q. p_state (procs t' q) = p_state (procs t q)"
    using table_ok_unused [OF ok p(1), of t] p(2) by auto
  have "alloc_stack p s = Ret None t'"
    using ka t'(1) by (simp add: alloc_stack_def kmonad upd_proc_run set_state_run t_def)
  with True t' show ?thesis
    by (auto simp: only_states_kernel [OF t'(3)] only_states_proc [OF t'(3)] t_def)
next
  case False
  define k where "k = s\<lparr>freelist := load32 (mem s) (freelist s)\<rparr>"
  have ka: "kalloc s = Ret (Some (freelist s)) k" using kalloc_run [OF kl] False by (simp add: ptr_def k_def)
  define t where "t = k\<lparr>procs := (procs k)(p := (procs k p)\<lparr>p_kstack := freelist s,
      p_context := zero_context\<lparr>cx_eip := forkret_at k\<rparr>\<rparr>)\<rparr>"
  have "alloc_stack p s = Ret (Some p) t"
    using ka by (simp add: alloc_stack_def kmonad upd_proc_run t_def)
  moreover have "table_ok k R F" using ok by (simp add: k_def)
  then have "table_ok t R F" by (simp add: t_def)
  ultimately show ?thesis using False by (auto simp: t_def k_def)
qed

lemma allocproc_run:
  assumes ok: "table_ok s R F" and free: "lock_free PtableLock s" and kl: "use_lock s \<longrightarrow> lock_free KmemLock s"
  shows "case F of
      [] \<Rightarrow> allocproc s = Ret None s
    | p # F' \<Rightarrow> \<exists>s'. allocproc s = Ret (if freelist s = 0 then None else Some p) s'
        \<and> table_ok s' R (if freelist s = 0 then F else F') \<and> nextpid s' = int32 (nextpid s + 1)
        \<and> (\<forall>q. p_state (procs s' q) = (if q = p \<and> freelist s \<noteq> 0 then EMBRYO else p_state (procs s q)))
        \<and> (\<forall>q. p_pid (procs s' q) = (if q = p then nextpid s else p_pid (procs s q)))
        \<and> p_kstack (procs s' p) = freelist s
        \<and> (\<forall>q. p_killed (procs s' q) = p_killed (procs s q) \<and> p_priority (procs s' q) = p_priority (procs s q))
        \<and> cproc s' = cproc s \<and> owner s' = owner s \<and> ncli s' = ncli s \<and> cpuid s' = cpuid s
        \<and> TimeToReset s' = TimeToReset s"
proof (cases F)
  case Nil
  with alloc_slot_run [OF ok free] show ?thesis by (simp add: allocproc_def kmonad)
next
  case (Cons p F')
  with alloc_slot_run [OF ok free] obtain s1 where s1: "alloc_slot s = Ret (Some p) s1" "p < NPROC"
    "table_ok s1 R F'" "nextpid s1 = int32 (nextpid s + 1)"
    "\<forall>q. procs s1 q = (if q = p then (procs s q)\<lparr>p_state := EMBRYO, p_pid := nextpid s\<rparr> else procs s q)"
    "cproc s1 = cproc s" "owner s1 = owner s" "ncli s1 = ncli s" "cpuid s1 = cpuid s"
    "freelist s1 = freelist s" "use_lock s1 = use_lock s" "TimeToReset s1 = TimeToReset s" by auto
  have unused: "p_state (procs s p) = UNUSED" using ok s1(2) Cons by (auto simp: table_ok_def)
  have "p_state (procs s1 p) = EMBRYO" "use_lock s1 \<longrightarrow> lock_free KmemLock s1"
    using s1 kl by (simp_all add: lock_free_def)
  from alloc_stack_run [OF s1(3,2) this] obtain s2 where s2: "alloc_stack p s1 = Ret (if freelist s1 = 0 then None else Some p) s2"
    "table_ok s2 R (if freelist s1 = 0 then p # F' else F')" "nextpid s2 = nextpid s1"
    "\<forall>q. p_state (procs s2 q) = (if q = p \<and> freelist s1 = 0 then UNUSED else p_state (procs s1 q))"
    "\<forall>q. p_pid (procs s2 q) = p_pid (procs s1 q)" "p_kstack (procs s2 p) = freelist s1"
    "\<forall>q. p_killed (procs s2 q) = p_killed (procs s1 q) \<and> p_priority (procs s2 q) = p_priority (procs s1 q)"
    "cproc s2 = cproc s1" "owner s2 = owner s1" "ncli s2 = ncli s1" "cpuid s2 = cpuid s1"
    "TimeToReset s2 = TimeToReset s1" by blast
  have run: "allocproc s = Ret (if freelist s = 0 then None else Some p) s2"
    using s1(1,10) s2(1) by (simp add: allocproc_def kmonad)
  have "p_state (procs s2 q) = (if q = p \<and> freelist s \<noteq> 0 then EMBRYO else p_state (procs s q))"
    "p_pid (procs s2 q) = (if q = p then nextpid s else p_pid (procs s q))"
    "p_killed (procs s2 q) = p_killed (procs s q)" "p_priority (procs s2 q) = p_priority (procs s q)" for q
    using s2(4,5,7) s1(5,10) unused by simp_all
  moreover have "table_ok s2 R (if freelist s = 0 then F else F')" using s2(2) s1(10) Cons by (simp split: if_splits)
  ultimately show ?thesis
    using run s1(4,6-10,12) s2(3,6,8-12) by (simp add: Cons)
qed

lemma alloc_slot_stops:
  assumes "\<not> lock_free PtableLock s" "0 \<le> ncli s (cpuid s)"
  shows "\<exists>e. alloc_slot s = Stop e"
  using assms acquire_lk_taken [of s PtableLock]
  by (cases "owner s PtableLock") (auto simp: alloc_slot_def lock_free_def kthen_Stop)

end
