(* ===== verification/Sched_Machine.thy ===== *)
theory Sched_Machine
  imports Scheduler
begin

text \<open>
  The interleaving of the CPUs on the process table. \<open>op_step\<close> has one rule for each piece of kernel
  code that runs under \<open>ptable.lock\<close> in one go, \<open>pt_step\<close> adds the rounds of the schedulers and
  \<open>setpriority\<close>. The lemmas show that every step keeps the invariant \<open>sched_inv\<close> (each process is on
  exactly the list its state and priority ask for, and the running processes are the ones on the
  CPUs), that steps other than rounds only append to the ready lists, and from this that no
  runnable process waits for ever.
\<close>

section \<open>Steps\<close>

text \<open>
  \<open>cpu\<close> moves the attention to another CPU, the other rules are what the CPU does in one go. A CPU
  without a process is in the scheduler: outside the inner loop when it does not own \<open>ptable.lock\<close>,
  inside when it does. A process that has just been dispatched still owns the lock its scheduler
  took and gives it back in \<open>resume_yield\<close> (also \<open>forkret\<close>) or \<open>resume_sleep\<close>. \<open>own\<close> covers every
  assignment to fields other than state, links and priority, \<open>embryo\<close> those of \<open>fork\<close> and \<open>userinit\<close>
  to the priority of a process under construction, \<open>other\<close> the work of the rest of the kernel outside
  the table. In the rule for \<open>setpriority\<close> the process is not on a ready list and the priority is a
  list index; the routine itself checks neither.
\<close>

definition fork_undo :: "nat \<Rightarrow> ('z ptable_scheme, unit) km" where
  "fork_undo np = kdo [
     set_state np UNUSED,
     acquire_lk PtableLock,
     kthen (AddFreeList (Some np)) (kret ()),
     release_lk PtableLock]"

inductive op_step :: "'z ptable_scheme \<Rightarrow> 'z ptable_scheme \<Rightarrow> bool" where
  cpu: "op_step s (s\<lparr>cpuid := c\<rparr>)"
| enter: "cproc s (cpuid s) = None \<Longrightarrow> acquire_lk PtableLock s = Ret () s' \<Longrightarrow> op_step s s'"
| resume_yield: "yield_tail s = Ret () s' \<Longrightarrow> op_step s s'"
| resume_sleep: "sleep_tail lk s = Ret () s' \<Longrightarrow> op_step s s'"
| yield: "yield s = Sleeps t \<Longrightarrow> scheduler_back t = Ret () s' \<Longrightarrow> op_step s s'"
| sleep: "sleep ch lk s = Sleeps t \<Longrightarrow> scheduler_back t = Ret () s' \<Longrightarrow> op_step s s'"
| wakeup: "wakeup ch s = Ret () s' \<Longrightarrow> op_step s s'"
| kill: "kill pid s = Ret r s' \<Longrightarrow> op_step s s'"
| alloc: "allocproc s = Ret r s' \<Longrightarrow> op_step s s'"
| own: "(\<And>x. p_state (f x) = p_state x \<and> p_next (f x) = p_next x \<and> p_priority (f x) = p_priority x) \<Longrightarrow>
    upd_proc p f s = Ret () s' \<Longrightarrow> op_step s s'"
| embryo: "p_state (procs s p) = EMBRYO \<Longrightarrow> upd_proc p (\<lambda>x. x\<lparr>p_priority := 1\<rparr>) s = Ret () s' \<Longrightarrow> op_step s s'"
| ready: "p < NPROC \<Longrightarrow> p_state (procs s p) = EMBRYO \<Longrightarrow> fork_ready p s = Ret () s' \<Longrightarrow> op_step s s'"
| undo: "p < NPROC \<Longrightarrow> p_state (procs s p) = EMBRYO \<Longrightarrow> fork_undo p s = Ret () s' \<Longrightarrow> op_step s s'"
| exit: "exit_table s = Sleeps t \<Longrightarrow> scheduler_back t = Ret () s' \<Longrightarrow> op_step s s'"
| reap: "p < NPROC \<Longrightarrow> p_state (procs s p) = ZOMBIE \<Longrightarrow> owner s PtableLock = Some (cpuid s) \<Longrightarrow>
    reap_slot p s = Ret () s' \<Longrightarrow> op_step s s'"
| other: "op_step s (s\<lparr>mem := m, freelist := f, ticks := t, initproc := ip\<rparr>)"

inductive pt_step :: "'z ptable_scheme \<Rightarrow> 'z ptable_scheme \<Rightarrow> bool" where
  op: "op_step s s' \<Longrightarrow> pt_step s s'"
| round: "cproc s (cpuid s) = None \<Longrightarrow> owner s PtableLock = Some (cpuid s) \<Longrightarrow>
    scheduler_round s = Ret () s' \<Longrightarrow> pt_step s s'"
| setprio: "0 \<le> priority \<Longrightarrow> priority < 3 \<Longrightarrow>
    (\<And>p. p < NPROC \<Longrightarrow> p_pid (procs s p) = pid \<Longrightarrow> p_state (procs s p) \<noteq> RUNNABLE) \<Longrightarrow>
    setpriority pid priority s = Ret r s' \<Longrightarrow> pt_step s s'"

text \<open>\<open>userinit\<close> builds the free list of the table.\<close>

definition init_lists :: "('z ptable_scheme, unit) km" where
  "init_lists = kdo [
     kmod (\<lambda>s. s\<lparr>pFreeList := None\<rparr>),
     kmod (\<lambda>s. s\<lparr>pReadyList := (pReadyList s)(0 := None)\<rparr>),
     kmod (\<lambda>s. s\<lparr>pReadyList := (pReadyList s)(1 := None)\<rparr>),
     kmod (\<lambda>s. s\<lparr>pReadyList := (pReadyList s)(2 := None)\<rparr>),
     acquire_lk PtableLock,
     kfor [0..<NPROC] (\<lambda>p. kbind (the_proc p p_state) (\<lambda>st.
       if st = UNUSED then kthen (AddFreeList (Some p)) (kret ()) else kret ())),
     release_lk PtableLock]"

inductive pt_reachable :: "ptable \<Rightarrow> bool" where
  init: "init_lists boot_ptable = Ret () s \<Longrightarrow> pt_reachable s"
| step: "pt_reachable s \<Longrightarrow> pt_step s s' \<Longrightarrow> pt_reachable s'"

section \<open>Growth of the table\<close>

text \<open>
  \<open>grows s t\<close>: from \<open>s\<close> to \<open>t\<close> the ready lists were only appended to, the countdown stands, and
  priorities changed at most to 1.
\<close>

definition grows :: "'z ptable_scheme \<Rightarrow> 'z ptable_scheme \<Rightarrow> bool" where
  "grows s t \<longleftrightarrow> TimeToReset t = TimeToReset s
     \<and> (\<forall>q. p_priority (procs t q) = p_priority (procs s q) \<or> p_priority (procs t q) = 1)
     \<and> (\<exists>R F R' F'. table_ok s R F \<and> table_ok t R' F' \<and> (\<forall>i < 3. \<exists>ys. R' i = R i @ ys))"

definition sched_ext :: "'z ptable_scheme \<Rightarrow> 'z ptable_scheme \<Rightarrow> bool" where
  "sched_ext s t \<longleftrightarrow> cpus_ok t \<and> grows s t"

lemma growsI:
  assumes "table_ok s R F" "table_ok t R' F'" "\<And>i. i < 3 \<Longrightarrow> \<exists>ys. R' i = R i @ ys" "TimeToReset t = TimeToReset s"
    "\<And>q. p_priority (procs t q) = p_priority (procs s q) \<or> p_priority (procs t q) = 1"
  shows "grows s t"
  using assms unfolding grows_def by blast

lemma table_ok_unique:
  assumes "table_ok s R F" "table_ok s R' F'"
  shows "F = F'" "i < 3 \<Longrightarrow> R i = R' i"
  using assms by (auto simp: table_ok_def lists_rep_def links_ok_def intro: chain_unique)

lemma grows_trans:
  assumes "grows s t" "grows t u"
  shows "grows s u"
proof -
  from assms(1) obtain R F R1 F1 where 1: "table_ok s R F" "table_ok t R1 F1" "\<And>i. i < 3 \<Longrightarrow> \<exists>ys. R1 i = R i @ ys"
    unfolding grows_def by blast
  from assms(2) obtain R2 F2 R3 F3 where 2: "table_ok t R2 F2" "table_ok u R3 F3" "\<And>i. i < 3 \<Longrightarrow> \<exists>ys. R3 i = R2 i @ ys"
    unfolding grows_def by blast
  show ?thesis
  proof (rule growsI [OF 1(1) 2(2)])
    fix i :: nat assume i: "i < 3"
    obtain ys zs where "R1 i = R i @ ys" "R3 i = R2 i @ zs" using 1(3) 2(3) i by blast
    then show "\<exists>ys. R3 i = R i @ ys" using table_ok_unique(2) [OF 1(2) 2(1) i] by simp
  next
    show "TimeToReset u = TimeToReset s" using assms by (simp add: grows_def)
    fix q
    show "p_priority (procs u q) = p_priority (procs s q) \<or> p_priority (procs u q) = 1"
      using assms unfolding grows_def by metis
  qed
qed

lemma grows_refl: "table_ok s R F \<Longrightarrow> grows s s"
  by (rule growsI) auto

lemma grows_frame [simp]:
  "grows s (t\<lparr>owner := v1\<rparr>) = grows s t" "grows s (t\<lparr>ncli := v2\<rparr>) = grows s t"
  "grows s (t\<lparr>cpuid := v3\<rparr>) = grows s t" "grows s (t\<lparr>mem := v4\<rparr>) = grows s t"
  "grows s (t\<lparr>freelist := v5\<rparr>) = grows s t" "grows s (t\<lparr>cproc := v7\<rparr>) = grows s t"
  "grows s (t\<lparr>cr3 := v8\<rparr>) = grows s t" "grows s (t\<lparr>initproc := v11\<rparr>) = grows s t"
  "grows s (t\<lparr>ticks := v12\<rparr>) = grows s t" "grows s (lock_taken l t) = grows s t"
  by (simp_all add: grows_def lock_taken_def)

lemma sched_ext_frame [simp]:
  "sched_ext s (t\<lparr>owner := v1\<rparr>) = sched_ext s t" "sched_ext s (t\<lparr>ncli := v2\<rparr>) = sched_ext s t"
  "sched_ext s (t\<lparr>cpuid := v3\<rparr>) = sched_ext s t" "sched_ext s (t\<lparr>mem := v4\<rparr>) = sched_ext s t"
  "sched_ext s (t\<lparr>freelist := v5\<rparr>) = sched_ext s t" "sched_ext s (t\<lparr>initproc := v11\<rparr>) = sched_ext s t"
  "sched_ext s (t\<lparr>ticks := v12\<rparr>) = sched_ext s t" "sched_ext s (lock_taken l t) = sched_ext s t"
  by (simp_all add: sched_ext_def)

lemma sched_ext_inv: "sched_ext s t \<Longrightarrow> sched_inv t"
  by (auto simp: sched_ext_def grows_def sched_inv_def)

lemma sched_ext_refl: "sched_inv s \<Longrightarrow> sched_ext s s"
  by (auto simp: sched_ext_def sched_inv_def intro: grows_refl)

lemma release_ext: "release_lk l t = Ret u s' \<Longrightarrow> sched_ext s t \<Longrightarrow> sched_ext s s'"
  by (auto simp: release_lk_eq_Ret)

lemma only_states_grows:
  assumes "table_ok s R F" "table_ok t R' F'" "\<And>i. i < 3 \<Longrightarrow> \<exists>ys. R' i = R i @ ys" "only_states s t"
  shows "grows s t"
  using assms(1-3) by (rule growsI) (simp_all add: only_states_kernel [OF assms(4)] only_states_proc [OF assms(4)])

text \<open>A process gives up its CPU: its state is no longer \<open>RUNNING\<close>, and no other process changed
  to or from \<open>RUNNING\<close>.\<close>

lemma leave_cpu:
  assumes "cpus_ok s" "cproc s (cpuid s) = Some p" "grows s t" "cproc t = cproc s" "cpuid t = cpuid s"
    "\<And>q. p_state (procs t q) = RUNNING \<longleftrightarrow> p_state (procs s q) = RUNNING \<and> q \<noteq> p"
    "scheduler_back t = Ret () s'"
  shows "sched_ext s s'"
proof -
  have s': "s' = t\<lparr>cr3 := (cr3 t)(cpuid t := v2p (kpgdir t)), cproc := (cproc t)(cpuid t := None)\<rparr>"
    using assms(7) scheduler_back_run [of t] by simp
  have sel: "cproc s' = (cproc s)(cpuid s := None)" "procs s' = procs t" using assms(4,5) by (simp_all add: s')
  have inj: "c = d" if "cproc s c = Some q" "cproc s d = Some q" for c d q
    using assms(1) that unfolding cpus_ok_def by blast
  have on: "q < NPROC \<and> p_state (procs s q) = RUNNING" if "cproc s c = Some q" for c q
    using assms(1) that unfolding cpus_ok_def by blast
  have "q < NPROC \<and> p_state (procs t q) = RUNNING" if "((cproc s)(cpuid s := None)) c = Some q" for c q
    using that on [of c q] inj [of c q "cpuid s"] assms(2,6) by (auto split: if_splits)
  moreover have "\<exists>c. ((cproc s)(cpuid s := None)) c = Some q" if "q < NPROC" "p_state (procs t q) = RUNNING" for q
  proof -
    have "p_state (procs s q) = RUNNING" "q \<noteq> p" using that assms(6) by auto
    with that obtain c where "cproc s c = Some q" using assms(1) unfolding cpus_ok_def by blast
    with \<open>q \<noteq> p\<close> assms(2) show ?thesis by (intro exI [of _ c]) auto
  qed
  moreover have "c = d" if "((cproc s)(cpuid s := None)) c = Some q" "((cproc s)(cpuid s := None)) d = Some q" for c d q
    using that inj [of c q d] by (auto split: if_splits)
  ultimately have "cpus_ok s'" unfolding cpus_ok_def sel by blast
  moreover have "grows s s'" using assms(3) by (simp add: s')
  ultimately show ?thesis by (simp add: sched_ext_def)
qed

section \<open>Steps of the operations\<close>

definition same_running :: "'z ptable_scheme \<Rightarrow> 'z ptable_scheme \<Rightarrow> bool" where
  "same_running s t \<longleftrightarrow> cproc t = cproc s \<and> cpuid t = cpuid s
     \<and> (\<forall>q. p_state (procs t q) = RUNNING \<longleftrightarrow> p_state (procs s q) = RUNNING)"

lemma same_running_trans: "same_running s t \<Longrightarrow> same_running t u \<Longrightarrow> same_running s u"
  by (simp add: same_running_def)

lemma same_running_ext: "same_running s t \<Longrightarrow> cpus_ok s \<Longrightarrow> grows s t \<Longrightarrow> sched_ext s t"
  unfolding sched_ext_def by (auto simp: same_running_def cpus_ok_def)

lemma make_runnable_ext:
  assumes "table_ok s R F" "p < NPROC" "p_state (procs s p) \<noteq> UNUSED" "p_state (procs s p) \<noteq> RUNNABLE"
  shows "\<exists>t R' F'. make_runnable p s = Ret () t \<and> grows s t \<and> table_ok t R' F' \<and> cproc t = cproc s
    \<and> cpuid t = cpuid s
    \<and> (\<forall>q. p_state (procs t q) = (if q = p then RUNNABLE else p_state (procs s q)))"
proof -
  from make_runnable_run [OF assms] obtain t i where t: "make_runnable p s = Ret () t"
    "table_ok t (R(i := R i @ [p])) F" "only_states s t"
    "\<forall>q. p_state (procs t q) = (if q = p then RUNNABLE else p_state (procs s q))" by blast
  have "grows s t" by (rule only_states_grows [OF assms(1) t(2) _ t(3)]) auto
  with t show ?thesis by (auto simp: only_states_kernel [OF t(3)])
qed

lemma wakeup1_ext:
  assumes "table_ok s R F"
  shows "\<exists>t R' F'. wakeup1 ch s = Ret () t \<and> grows s t \<and> table_ok t R' F' \<and> same_running s t"
proof -
  from wakeup1_run [OF assms, of ch] obtain t R' where t: "wakeup1 ch s = Ret () t" "only_states s t" "table_ok t R' F"
    "\<forall>i < 3. R' i = R i @ filter (\<lambda>p. sleeps_on s ch p \<and> p_priority (procs s p) = int i) [0..<NPROC]"
    "\<forall>q. p_state (procs t q) = (if q < NPROC \<and> sleeps_on s ch q then RUNNABLE else p_state (procs s q))" by blast
  have "grows s t" by (rule only_states_grows [OF assms t(3) _ t(2)]) (use t(4) in auto)
  moreover have "same_running s t"
    using t(5) by (simp add: same_running_def only_states_kernel [OF t(2)] sleeps_on_def)
  ultimately show ?thesis using t by blast
qed

text \<open>A process leaves its state for another one that is on no list.\<close>

lemma set_state_grows:
  assumes "table_ok s R F" "p_state (procs s p) \<notin> {UNUSED, RUNNABLE}" "p_state x \<notin> {UNUSED, RUNNABLE}"
    "p_next x = p_next (procs s p)" "p_priority x = p_priority (procs s p)"
  shows "table_ok (s\<lparr>procs := (procs s)(p := x)\<rparr>) R F" "grows s (s\<lparr>procs := (procs s)(p := x)\<rparr>)"
proof -
  let ?t = "s\<lparr>procs := (procs s)(p := x)\<rparr>"
  have "lists_rep ?t R F" using assms(1,4) by (simp add: table_ok_def)
  moreover have "p_priority (procs ?t q) = p_priority (procs s q)" for q using assms(5) by simp
  moreover have "q \<in> set F \<longleftrightarrow> p_state (procs ?t q) = UNUSED" if "q < NPROC" for q
    using table_okD(1) [OF assms(1) that] assms(2,3) by auto
  moreover have "q \<in> set (R i) \<longleftrightarrow> p_state (procs ?t q) = RUNNABLE \<and> p_priority (procs s q) = int i"
    if "q < NPROC" "i < 3" for q i
    using table_okD(2) [OF assms(1) that] assms(2,3) by (cases "q = p") auto
  ultimately show ok: "table_ok ?t R F" using assms(1) by (simp only: table_ok_def) blast
  show "grows s ?t" by (rule growsI [OF assms(1) ok]) (use assms(5) in auto)
qed

lemma yield_ext:
  assumes "sched_inv s" "yield s = Sleeps t" "scheduler_back t = Ret () s'"
  shows "sched_ext s s'"
proof -
  obtain R F where ok: "table_ok s R F" "cpus_ok s" using assms(1) by (auto simp: sched_inv_def)
  let ?l = "lock_taken PtableLock s"
  have run: "kthen (kbind curproc make_runnable) (kthen sched (kthen (release_lk PtableLock) (kret ()))) ?l = Sleeps t"
    using locked_entry(2) [of "kthen (kbind curproc make_runnable) (kthen sched (kthen (release_lk PtableLock) (kret ())))" s]
      assms(2) by (simp add: yield_def)
  then obtain p where p: "cproc s (cpuid s) = Some p"
    by (cases "cproc s (cpuid s)") (auto simp: kinv curproc_run)
  have st: "p < NPROC" "p_state (procs s p) = RUNNING" using ok(2) p by (auto simp: cpus_ok_def)
  obtain u where u: "make_runnable p ?l = Ret () u" "grows ?l u" "cproc u = cproc s" "cpuid u = cpuid s"
    "\<forall>q. p_state (procs u q) = (if q = p then RUNNABLE else p_state (procs s q))"
    using make_runnable_ext [of ?l R F p] ok(1) st by auto
  have "t = u" using run u(1) p by (auto simp: kinv curproc_run dest!: sched_Sleeps)
  moreover have "grows s u" using grows_trans [OF _ u(2)] grows_refl [OF ok(1)] by simp
  ultimately show ?thesis
    by (intro leave_cpu [OF ok(2) p _ _ _ _ assms(3)]) (use u st in auto)
qed

lemma sleep_ext:
  assumes "sched_inv s" "sleep ch lko s = Sleeps t" "scheduler_back t = Ret () s'"
  shows "sched_ext s s'"
proof -
  obtain R F where ok: "table_ok s R F" "cpus_ok s" using assms(1) by (auto simp: sched_inv_def)
  from assms(2) obtain p lk where p: "cproc s (cpuid s) = Some p" "lko = Some lk"
    by (auto simp: sleep_def kinv split: option.splits)
  have st: "p < NPROC" "p_state (procs s p) = RUNNING" using ok(2) p by (auto simp: cpus_ok_def)
  define pre where "pre = (if lk \<noteq> PtableLock then kdo [acquire_lk PtableLock, release_lk lk] else (kret () :: ('a ptable_scheme, unit) km))"
  from assms(2) p obtain u where u: "pre s = Ret () u"
    and t: "t = u\<lparr>procs := (procs u)(p := (procs u p)\<lparr>p_chan := ch, p_state := SLEEPING\<rparr>)\<rparr>"
    by (auto simp: sleep_def kinv pre_def upd_proc_def set_state_run sleep_tail_def curproc_run dest!: sched_Sleeps
        split: if_splits)
  have frame: "table_ok u R F" "procs u = procs s" "cproc u = cproc s" "cpuid u = cpuid s" "grows s u"
    using u ok(1) grows_refl [OF ok(1)] by (auto simp: pre_def kinv acquire_lk_eq_Ret release_lk_eq_Ret split: if_splits)
  have "grows u t" unfolding t by (rule set_state_grows [OF frame(1)]) (use frame(2) st in simp_all)
  with grows_trans frame(5) have "grows s t" by blast
  then show ?thesis
    by (rule leave_cpu [OF ok(2) p(1) _ _ _ _ assms(3)]) (use st frame in \<open>auto simp: t\<close>)
qed

lemma wakeup_ext:
  assumes "sched_inv s" "wakeup ch s = Ret () s'"
  shows "sched_ext s s'"
proof -
  obtain R F where ok: "table_ok s R F" "cpus_ok s" using assms(1) by (auto simp: sched_inv_def)
  let ?l = "lock_taken PtableLock s"
  have "table_ok ?l R F" using ok(1) by simp
  from wakeup1_ext [OF this, of ch] obtain u where u: "wakeup1 ch ?l = Ret () u" "grows ?l u" "same_running ?l u" by blast
  have "grows s u" using grows_trans [OF _ u(2)] grows_refl [OF ok(1)] by simp
  then have "sched_ext s u" by (rule same_running_ext [rotated 2]) (use u(3) ok in \<open>auto simp: same_running_def\<close>)
  moreover have "release_lk PtableLock u = Ret () s'"
    using assms(2) u(1) by (auto simp: wakeup_def kinv acquire_lk_eq_Ret)
  ultimately show ?thesis by (rule release_ext [rotated])
qed

lemma own_grows:
  assumes "table_ok s R F" "p_state x = p_state (procs s p)" "p_next x = p_next (procs s p)"
    "p_priority x = p_priority (procs s p)"
  shows "table_ok (s\<lparr>procs := (procs s)(p := x)\<rparr>) R F" "grows s (s\<lparr>procs := (procs s)(p := x)\<rparr>)"
    "same_running s (s\<lparr>procs := (procs s)(p := x)\<rparr>)"
proof -
  show ok: "table_ok (s\<lparr>procs := (procs s)(p := x)\<rparr>) R F" using assms by simp
  show "grows s (s\<lparr>procs := (procs s)(p := x)\<rparr>)"
    by (rule growsI [OF assms(1) ok]) (use assms(4) in auto)
  show "same_running s (s\<lparr>procs := (procs s)(p := x)\<rparr>)" using assms(2) by (simp add: same_running_def)
qed

lemma own_ext:
  assumes "sched_inv s" "p_state x = p_state (procs s p)" "p_next x = p_next (procs s p)"
    "p_priority x = p_priority (procs s p)"
  shows "sched_ext s (s\<lparr>procs := (procs s)(p := x)\<rparr>)"
proof -
  obtain R F where ok: "table_ok s R F" "cpus_ok s" using assms(1) by (auto simp: sched_inv_def)
  show ?thesis by (rule same_running_ext [OF own_grows(3) ok(2) own_grows(2)]) (use ok assms in auto)
qed

text \<open>Making a process that is on no list runnable, under the lock.\<close>

lemma ready_ext:
  assumes ok: "table_ok t R F" "cpus_ok s" "p < NPROC" and st: "p_state (procs t p) \<in> {EMBRYO, SLEEPING}"
    and s: "grows s t" "same_running s t"
    and run: "make_runnable p t = Ret () u" "release_lk PtableLock u = Ret () s'"
  shows "sched_ext s s'"
proof -
  from make_runnable_ext [OF ok(1,3)] st run(1) have u: "grows t u" "cproc u = cproc t" "cpuid u = cpuid t"
    "\<forall>q. p_state (procs u q) = (if q = p then RUNNABLE else p_state (procs t q))" by auto
  have "same_running t u" using u st by (auto simp: same_running_def)
  then have "sched_ext s u"
    by (intro same_running_ext [OF same_running_trans [OF s(2)] ok(2) grows_trans [OF s(1) u(1)]])
  with run(2) show ?thesis by (rule release_ext)
qed

lemma kill_loop_ext:
  assumes ok: "table_ok t R F" "cpus_ok s" "grows s t" "same_running s t"
    and ps: "set ps \<subseteq> {..<NPROC}" "kill_loop ps pid t = Ret r s'"
  shows "sched_ext s s'"
  using ps
proof (induction ps)
  case Nil
  then have "release_lk PtableLock t = Ret () s'" by (auto simp: kinv)
  with same_running_ext [OF ok(4,2,3)] show ?case by (rule release_ext [rotated])
next
  case (Cons p ps)
  show ?case
  proof (cases "p_pid (procs t p) = pid")
    case False
    with Cons show ?thesis by (auto simp: kinv the_proc_def)
  next
    case pid: True
    let ?k = "t\<lparr>procs := (procs t)(p := (procs t p)\<lparr>p_killed := True\<rparr>)\<rparr>"
    have k: "table_ok ?k R F" "grows s ?k" "same_running s ?k"
      using own_grows [OF ok(1), of "(procs t p)\<lparr>p_killed := True\<rparr>" p] grows_trans [OF ok(3)]
        same_running_trans [OF ok(4)] by auto
    show ?thesis
    proof (cases "p_state (procs t p) = SLEEPING")
      case True
      with Cons.prems(2) pid obtain u where u: "make_runnable p ?k = Ret () u" "release_lk PtableLock u = Ret () s'"
        by (auto simp: kinv the_proc_def upd_proc_def)
      show ?thesis by (rule ready_ext [OF k(1) ok(2) _ _ k(2,3) u]) (use Cons.prems(1) True in auto)
    next
      case False
      with Cons.prems(2) pid have "release_lk PtableLock ?k = Ret () s'"
        by (auto simp: kinv the_proc_def upd_proc_def)
      with same_running_ext [OF k(3) ok(2) k(2)] show ?thesis by (rule release_ext [rotated])
    qed
  qed
qed

lemma kill_ext:
  assumes "sched_inv s" "kill pid s = Ret r s'"
  shows "sched_ext s s'"
proof -
  obtain R F where ok: "table_ok s R F" "cpus_ok s" using assms(1) by (auto simp: sched_inv_def)
  have run: "kill_loop [0..<NPROC] pid (lock_taken PtableLock s) = Ret r s'"
    using assms(2) by (auto simp: kill_def kinv acquire_lk_eq_Ret)
  show ?thesis
    by (rule kill_loop_ext [OF _ ok(2) _ _ _ run]) (use ok(1) grows_refl in \<open>auto simp: same_running_def\<close>)
qed

lemma fork_ready_ext:
  assumes "sched_inv s" "p < NPROC" "p_state (procs s p) = EMBRYO" "fork_ready p s = Ret () s'"
  shows "sched_ext s s'"
proof -
  obtain R F where ok: "table_ok s R F" "cpus_ok s" using assms(1) by (auto simp: sched_inv_def)
  let ?l = "lock_taken PtableLock s"
  obtain u where u: "make_runnable p ?l = Ret () u" "release_lk PtableLock u = Ret () s'"
    using assms(4) by (auto simp: fork_ready_def kinv acquire_lk_eq_Ret)
  show ?thesis
    by (rule ready_ext [of ?l R F, OF _ ok(2) assms(2) _ _ _ u])
      (use ok(1) assms(3) grows_refl [OF ok(1)] in \<open>auto simp: same_running_def\<close>)
qed

lemma list_ops_locks:
  "RemoveFreeList s = Ret r t \<Longrightarrow> owner t = owner s \<and> ncli t = ncli s \<and> cpuid t = cpuid s"
  "upd_proc p f s = Ret u t \<Longrightarrow> owner t = owner s \<and> ncli t = ncli s \<and> cpuid t = cpuid s"
  by (auto simp: RemoveFreeList_def upd_proc_def kinv split: option.splits)

lemma alloc_slot_lock_free:
  assumes "alloc_slot s = Ret r s'"
  shows "lock_free PtableLock s"
proof -
  have none: "owner s PtableLock = None"
    by (rule locked_entry(1) [OF assms [unfolded alloc_slot_def]]) simp
  from assms none obtain r1 u where u: "RemoveFreeList (lock_taken PtableLock s) = Ret r1 u"
    by (auto simp: alloc_slot_def kinv acquire_lk_eq_Ret)
  have "0 < ncli u (cpuid u)"
    using assms none u by (cases r1)
      (auto simp: alloc_slot_def kinv acquire_lk_eq_Ret release_lk_eq_Ret set_state_run upd_proc_run)
  with none list_ops_locks(1) [OF u] show ?thesis by (simp add: lock_free_def)
qed

lemma alloc_stack_lock_free:
  assumes "alloc_stack p s = Ret r s'"
  shows "use_lock s \<longrightarrow> lock_free KmemLock s"
proof
  assume l: "use_lock s"
  from assms obtain k u where "kalloc s = Ret k u" by (auto simp: alloc_stack_def kinv)
  with l show "lock_free KmemLock s"
    by (auto simp: kalloc_def kinv acquire_lk_eq_Ret release_lk_eq_Ret lock_taken_def lock_free_def split: if_splits)
qed

lemma allocproc_ext:
  assumes "sched_inv s" "allocproc s = Ret r s'"
  shows "sched_ext s s'"
proof -
  obtain R F where ok: "table_ok s R F" "cpus_ok s" using assms(1) by (auto simp: sched_inv_def)
  from assms(2) obtain r1 s1 where s1: "alloc_slot s = Ret r1 s1"
    "(case r1 of None \<Rightarrow> kret None | Some p \<Rightarrow> alloc_stack p) s1 = Ret r s'" by (auto simp: allocproc_def kinv)
  note free = alloc_slot_lock_free [OF s1(1)]
  show ?thesis
  proof (cases F)
    case Nil
    with alloc_slot_run [OF ok(1) free] s1 have "s' = s" by (simp add: kret_apply)
    with assms(1) show ?thesis by (simp add: sched_ext_refl)
  next
    case (Cons p F')
    with alloc_slot_run [OF ok(1) free] s1(1) have r1: "r1 = Some p" "p < NPROC" "use_lock s1 = use_lock s"
      "owner s1 = owner s" "ncli s1 = ncli s" "cpuid s1 = cpuid s" by auto
    have "alloc_stack p s1 = Ret r s'" using s1(2) r1(1) by simp
    from alloc_stack_lock_free [OF this] r1 have kl: "use_lock s \<longrightarrow> lock_free KmemLock s" by (simp add: lock_free_def)
    have unused: "p_state (procs s p) = UNUSED" using ok(1) r1(2) Cons by (auto simp: table_ok_def)
    from allocproc_run [OF ok(1) free kl] Cons assms(2) have s': "\<exists>F''. table_ok s' R F''" "cproc s' = cproc s"
      "cpuid s' = cpuid s" "TimeToReset s' = TimeToReset s" "\<forall>q. p_priority (procs s' q) = p_priority (procs s q)"
      "\<forall>q. p_state (procs s' q) = (if q = p \<and> freelist s \<noteq> 0 then EMBRYO else p_state (procs s q))" by auto
    then obtain F'' where F'': "table_ok s' R F''" by blast
    have "same_running s s'" using s' unused by (auto simp: same_running_def)
    then show ?thesis
      by (rule same_running_ext [OF _ ok(2) growsI [OF ok(1) F'']]) (use s' in auto)
  qed
qed

lemma free_slot_ext:
  assumes "table_ok s R F" "cpus_ok s" "p < NPROC" "p_state (procs s p) = EMBRYO \<or> p_state (procs s p) = ZOMBIE"
    "lists_rep t R F" "\<And>q. p_state (procs t q) = (if q = p then UNUSED else p_state (procs s q))"
    "\<And>q. p_priority (procs t q) = p_priority (procs s q)" "cproc t = cproc s" "cpuid t = cpuid s"
    "TimeToReset t = TimeToReset s" "AddFreeList (Some p) t = Ret r s'"
  shows "sched_ext s s'"
proof -
  have "p_state (procs s p) \<noteq> UNUSED" "p_state (procs s p) \<noteq> RUNNABLE" using assms(4) by auto
  from table_ok_unused [OF assms(1,3) this assms(5-7)] assms(11)
  have s': "table_ok s' R (p # F)" "only_states t s'" "\<forall>q. p_state (procs s' q) = p_state (procs t q)" by auto
  have "same_running s s'"
    using s'(3) assms(4,6,8,9) by (auto simp: same_running_def only_states_kernel [OF s'(2)])
  then show ?thesis
    by (rule same_running_ext [OF _ assms(2) growsI [OF assms(1) s'(1)]])
      (use assms(7,10) in \<open>auto simp: only_states_kernel [OF s'(2)] only_states_proc [OF s'(2)]\<close>)
qed

lemma fork_undo_ext:
  assumes "sched_inv s" "p < NPROC" "p_state (procs s p) = EMBRYO" "fork_undo p s = Ret () s'"
  shows "sched_ext s s'"
proof -
  obtain R F where ok: "table_ok s R F" "cpus_ok s" using assms(1) by (auto simp: sched_inv_def)
  define t where "t = lock_taken PtableLock (s\<lparr>procs := (procs s)(p := (procs s p)\<lparr>p_state := UNUSED\<rparr>)\<rparr>)"
  from assms(4) obtain r u where run: "AddFreeList (Some p) t = Ret r u" "release_lk PtableLock u = Ret () s'"
    by (auto simp: fork_undo_def kinv set_state_run acquire_lk_eq_Ret t_def)
  have "lists_rep t R F" using ok(1) by (simp add: t_def table_ok_def)
  from free_slot_ext [OF ok assms(2) _ this _ _ _ _ _ run(1)] assms(3) have "sched_ext s u" by (simp add: t_def)
  with run(2) show ?thesis by (rule release_ext)
qed

lemma reparent_ext:
  assumes "table_ok s R F"
  shows "\<exists>t R' F'. reparent me p s = Ret () t \<and> table_ok t R' F' \<and> grows s t \<and> same_running s t"
proof (cases "p_parent (procs s p) = Some me")
  case False
  then show ?thesis
    using assms grows_refl [OF assms] by (intro exI [of _ s] exI [of _ R] exI [of _ F]) (simp add: reparent_def kmonad same_running_def)
next
  case True
  let ?t = "s\<lparr>procs := (procs s)(p := (procs s p)\<lparr>p_parent := initproc s\<rparr>)\<rparr>"
  have t: "table_ok ?t R F" "grows s ?t" "same_running s ?t" using own_grows [OF assms] by simp_all
  show ?thesis
  proof (cases "p_state (procs s p) = ZOMBIE")
    case False
    with True t show ?thesis
      by (intro exI [of _ ?t] exI [of _ R] exI [of _ F]) (simp add: reparent_def kmonad upd_proc_run)
  next
    case zombie: True
    from wakeup1_ext [OF t(1), of "proc_chan (initproc s)"] obtain u R' F' where
      u: "wakeup1 (proc_chan (initproc s)) ?t = Ret () u" "table_ok u R' F'" "grows ?t u" "same_running ?t u" by blast
    with True zombie grows_trans [OF t(2) u(3)] same_running_trans [OF t(3) u(4)] show ?thesis
      by (intro exI [of _ u] exI [of _ R'] exI [of _ F']) (simp add: reparent_def kmonad upd_proc_run)
  qed
qed

lemma reparent_loop_ext:
  assumes "table_ok s R F"
  shows "\<exists>t. kfor ps (reparent me) s = Ret () t \<and> (\<exists>R' F'. table_ok t R' F') \<and> grows s t \<and> same_running s t"
proof (rule kfor_invariant [where I = "\<lambda>t. (\<exists>R' F'. table_ok t R' F') \<and> grows s t \<and> same_running s t"])
  fix x t assume t: "(\<exists>R' F'. table_ok t R' F') \<and> grows s t \<and> same_running s t"
  then obtain R' F' where "table_ok t R' F'" by blast
  from reparent_ext [OF this, of me x] obtain u R'' F'' where "reparent me x t = Ret () u" "table_ok u R'' F''"
    "grows t u" "same_running t u" by blast
  with t grows_trans [of s t u] same_running_trans [of s t u]
  show "\<exists>u. reparent me x t = Ret () u \<and> (\<exists>R' F'. table_ok u R' F') \<and> grows s u \<and> same_running s u" by blast
next
  show "(\<exists>R' F'. table_ok s R' F') \<and> grows s s \<and> same_running s s"
    using assms grows_refl [OF assms] by (auto simp: same_running_def)
qed

lemma exit_ext:
  assumes "sched_inv s" "exit_table s = Sleeps t" "scheduler_back t = Ret () s'"
  shows "sched_ext s s'"
proof -
  obtain R F where ok: "table_ok s R F" "cpus_ok s" using assms(1) by (auto simp: sched_inv_def)
  let ?l = "lock_taken PtableLock s"
  let ?body = "\<lambda>me. kdo [
     kbind (the_proc me p_parent) (\<lambda>q. wakeup1 (proc_chan q)),
     kfor [0..<NPROC] (reparent me),
     set_state me ZOMBIE,
     sched,
     kpanic ''zombie exit''] :: ('a ptable_scheme, unit) km"
  have "kbind curproc ?body ?l = Sleeps t"
    by (rule locked_entry(2) [OF assms(2) [unfolded exit_table_def]]) simp
  from curproc_entry [OF this] obtain p where p: "cproc s (cpuid s) = Some p" "?body p ?l = Sleeps t" by auto
  have st: "p < NPROC" "p_state (procs s p) = RUNNING" using ok(2) p(1) by (auto simp: cpus_ok_def)
  have "table_ok ?l R F" using ok(1) by simp
  from wakeup1_ext [OF this, of "proc_chan (p_parent (procs s p))"] obtain u R1 F1 where
    u: "wakeup1 (proc_chan (p_parent (procs s p))) ?l = Ret () u" "table_ok u R1 F1" "grows ?l u" "same_running ?l u" by blast
  from reparent_loop_ext [OF u(2), of "[0..<NPROC]" p] obtain v R2 F2 where
    v: "kfor [0..<NPROC] (reparent p) u = Ret () v" "table_ok v R2 F2" "grows u v" "same_running u v" by blast
  have t: "t = v\<lparr>procs := (procs v)(p := (procs v p)\<lparr>p_state := ZOMBIE\<rparr>)\<rparr>"
    using p(2) u(1) v(1) by (auto simp: kinv the_proc_def set_state_run dest!: sched_Sleeps)
  have keeps: "same_running ?l v" by (rule same_running_trans [OF u(4) v(4)])
  then have pv: "p_state (procs v p) = RUNNING" using st by (simp add: same_running_def)
  have "grows v t" unfolding t by (rule set_state_grows [OF v(2)]) (use pv in simp_all)
  then have "grows ?l t" using grows_trans u(3) v(3) by blast
  then have "grows s t" using grows_trans [OF _ \<open>grows ?l t\<close>] grows_refl [OF ok(1)] by simp
  then show ?thesis
    by (rule leave_cpu [OF ok(2) p(1) _ _ _ _ assms(3)]) (use keeps in \<open>auto simp: same_running_def t\<close>)
qed

lemma reap_ext:
  assumes "sched_inv s" "p < NPROC" "p_state (procs s p) = ZOMBIE" "reap_slot p s = Ret () s'"
  shows "sched_ext s s'"
proof -
  obtain R F where ok: "table_ok s R F" "cpus_ok s" using assms(1) by (auto simp: sched_inv_def)
  define t where "t = s\<lparr>procs := (procs s)(p := (procs s p)\<lparr>p_state := UNUSED\<rparr>)\<rparr>"
  from assms(4) obtain r u where run: "AddFreeList (Some p) t = Ret r u"
    and s': "s' = u\<lparr>procs := (procs u)(p := (procs u p)\<lparr>p_pid := 0, p_parent := None, p_name := [], p_killed := False\<rparr>)\<rparr>"
    by (auto simp: reap_slot_def kinv set_state_run upd_proc_run t_def)
  have "lists_rep t R F" using ok(1) by (simp add: t_def table_ok_def)
  from free_slot_ext [OF ok assms(2) _ this _ _ _ _ _ run] assms(3) have u: "sched_ext s u" by (simp add: t_def)
  then have "sched_ext u s'" unfolding s' by (intro own_ext [OF sched_ext_inv]) simp_all
  with u show ?thesis unfolding sched_ext_def using grows_trans by blast
qed

lemma setpriority_loop_run:
  "setpriority_loop ps pid priority s = Ret 0 (case find (\<lambda>p. p_pid (procs s p) = pid) ps of
     None \<Rightarrow> s | Some p \<Rightarrow> s\<lparr>procs := (procs s)(p := (procs s p)\<lparr>p_priority := priority\<rparr>)\<rparr>)"
  by (induction ps) (auto simp: kmonad the_proc_def upd_proc_run)

lemma table_ok_priority:
  assumes "table_ok s R F" "p_state (procs s p) \<noteq> RUNNABLE" "0 \<le> priority" "priority < 3"
  shows "table_ok (s\<lparr>procs := (procs s)(p := (procs s p)\<lparr>p_priority := priority\<rparr>)\<rparr>) R F"
proof -
  let ?t = "s\<lparr>procs := (procs s)(p := (procs s p)\<lparr>p_priority := priority\<rparr>)\<rparr>"
  have "lists_rep ?t R F" using assms(1) by (simp add: table_ok_def)
  moreover have "p_state (procs ?t q) = p_state (procs s q)" for q by simp
  moreover have "q \<in> set (R i) \<longleftrightarrow> p_state (procs s q) = RUNNABLE \<and> p_priority (procs ?t q) = int i"
    if "q < NPROC" "i < 3" for q i
    using table_okD(2) [OF assms(1) that] assms(2) by (cases "q = p") auto
  moreover have "0 \<le> p_priority (procs ?t q) \<and> p_priority (procs ?t q) < 3" if "q < NPROC" for q
    using assms that by (auto simp: table_ok_def)
  ultimately show ?thesis using table_okD(1) [OF assms(1)] by (simp only: table_ok_def) blast
qed

lemma setpriority_inv:
  assumes "sched_inv s" "0 \<le> priority" "priority < 3" "setpriority pid priority s = Ret r s'"
    "\<And>p. p < NPROC \<Longrightarrow> p_pid (procs s p) = pid \<Longrightarrow> p_state (procs s p) \<noteq> RUNNABLE"
  shows "sched_inv s'"
proof (cases "find (\<lambda>p. p_pid (procs s p) = pid) [0..<NPROC]")
  case None
  with assms(1,4) show ?thesis by (simp add: setpriority_def setpriority_loop_run)
next
  case (Some p)
  then have p: "p < NPROC" "p_pid (procs s p) = pid" by (auto simp: find_Some_iff)
  have s': "s' = s\<lparr>procs := (procs s)(p := (procs s p)\<lparr>p_priority := priority\<rparr>)\<rparr>"
    using assms(4) Some by (simp add: setpriority_def setpriority_loop_run)
  obtain R F where ok: "table_ok s R F" "cpus_ok s" using assms(1) by (auto simp: sched_inv_def)
  have "cpus_ok s'" by (rule cpus_ok_cong [THEN iffD2, OF _ _ ok(2)]) (auto simp: s')
  with table_ok_priority [OF ok(1) assms(5) [OF p] assms(2,3)] show ?thesis by (auto simp: sched_inv_def s')
qed

lemma embryo_ext:
  assumes "sched_inv s" "p_state (procs s p) = EMBRYO"
  shows "sched_ext s (s\<lparr>procs := (procs s)(p := (procs s p)\<lparr>p_priority := 1\<rparr>)\<rparr>)"
proof -
  let ?t = "s\<lparr>procs := (procs s)(p := (procs s p)\<lparr>p_priority := 1\<rparr>)\<rparr>"
  obtain R F where ok: "table_ok s R F" "cpus_ok s" using assms(1) by (auto simp: sched_inv_def)
  have t: "table_ok ?t R F" using table_ok_priority [OF ok(1), of p 1] assms(2) by simp
  have "same_running s ?t" by (simp add: same_running_def)
  then show ?thesis by (rule same_running_ext [OF _ ok(2) growsI [OF ok(1) t]]) auto
qed

lemma sleep_tail_ext:
  assumes "sched_inv s" "sleep_tail lk s = Ret () s'"
  shows "sched_ext s s'"
proof -
  from assms(2) obtain p where p: "(if lk \<noteq> PtableLock then kdo [release_lk PtableLock, acquire_lk lk] else kret ())
      (s\<lparr>procs := (procs s)(p := (procs s p)\<lparr>p_chan := CNull\<rparr>)\<rparr>) = Ret () s'"
    by (auto simp: sleep_tail_def kinv upd_proc_run curproc_run split: option.splits if_splits)
  have "sched_ext s (s\<lparr>procs := (procs s)(p := (procs s p)\<lparr>p_chan := CNull\<rparr>)\<rparr>)"
    by (rule own_ext [OF assms(1)]) simp_all
  with p show ?thesis
    by (auto simp: kinv acquire_lk_eq_Ret release_lk_eq_Ret split: if_splits)
qed

lemma op_step_ext:
  assumes "op_step s s'" "sched_inv s"
  shows "sched_ext s s'"
  using assms
proof (induction rule: op_step.induct)
  case (cpu s c)
  then show ?case by (simp add: sched_ext_refl)
next
  case (enter s s')
  then show ?case by (auto simp: acquire_lk_eq_Ret sched_ext_refl)
next
  case (resume_yield s s')
  then show ?case by (auto simp: yield_tail_def intro: release_ext sched_ext_refl)
next
  case (resume_sleep lk s s')
  then show ?case by (simp add: sleep_tail_ext)
next
  case (yield s t s')
  then show ?case by (simp add: yield_ext)
next
  case (sleep ch lk s t s')
  then show ?case by (simp add: sleep_ext)
next
  case (wakeup ch s s')
  then show ?case by (simp add: wakeup_ext)
next
  case (kill pid s r s')
  then show ?case by (simp add: kill_ext)
next
  case (alloc s r s')
  then show ?case by (simp add: allocproc_ext)
next
  case (own f p s s')
  then show ?case by (auto simp: upd_proc_run intro: own_ext)
next
  case (embryo s p s')
  then show ?case by (auto simp: upd_proc_run intro: embryo_ext)
next
  case (ready p s s')
  then show ?case by (simp add: fork_ready_ext)
next
  case (undo p s s')
  then show ?case by (simp add: fork_undo_ext)
next
  case (exit s t s')
  then show ?case by (simp add: exit_ext)
next
  case (reap p s s')
  then show ?case by (simp add: reap_ext)
next
  case (other s m f t ip)
  then show ?case by (simp add: sched_ext_refl)
qed

lemma switchuvm_ncli: "switchuvm p s = Ret () s' \<Longrightarrow> 0 \<le> ncli s (cpuid s)"
  by (auto simp: switchuvm_def kinv push_cli_def pop_cli_def curproc_run the_proc_def lcr3_def
      split: option.splits if_splits)

lemma scheduler_pick_ncli:
  assumes "table_ok s R F" "scheduler_pick s = Ret True s'"
  shows "0 \<le> ncli s (cpuid s)"
proof -
  from reset_tick_run [OF assms(1)] obtain s1 where s1: "reset_tick s = Ret () s1" "ncli s1 = ncli s"
    "cpuid s1 = cpuid s" by blast
  from assms(2) s1(1) obtain p u where "switchuvm p (s1\<lparr>cproc := (cproc s1)(cpuid s1 := Some p)\<rparr>) = Ret () u"
    by (auto simp: scheduler_pick_def kinv set_cproc_def GetReady_def split: if_splits)
  from switchuvm_ncli [OF this] s1 show ?thesis by simp
qed

lemma scheduler_pick_True:
  assumes ok: "table_ok s R F" and run: "scheduler_pick s = Ret True s'"
  shows "\<exists>p ps i. after_tick s R 0 @ after_tick s R 1 @ after_tick s R 2 = p # ps \<and> i < 3
    \<and> (\<forall>j < i. after_tick s R j = []) \<and> after_tick s R i = p # tl (after_tick s R i)
    \<and> table_ok s' ((after_tick s R)(i := tl (after_tick s R i))) F
    \<and> TimeToReset s' = (if TimeToReset s = 0 then MaxTimeToReset else TimeToReset s - 1)
    \<and> (\<forall>q. p_state (procs s' q) = (if q = p then RUNNING else p_state (procs s q)))
    \<and> (\<forall>q < NPROC. p_priority (procs s' q) = (if TimeToReset s = 0 then 1 else p_priority (procs s q)))
    \<and> cproc s' = (cproc s)(cpuid s := Some p) \<and> cpuid s' = cpuid s \<and> ncli s' = ncli s \<and> owner s' = owner s"
proof -
  note pick = scheduler_pick_run [OF ok scheduler_pick_ncli [OF ok run]]
  show ?thesis
  proof (cases "after_tick s R 0 @ after_tick s R 1 @ after_tick s R 2")
    case Nil
    with pick run show ?thesis by simp
  next
    case (Cons p ps)
    have "p_pgdir (procs s p) \<noteq> 0"
    proof
      assume "p_pgdir (procs s p) = 0"
      with pick Cons run show False by simp
    qed
    with pick Cons obtain t i where ti: "scheduler_pick s = Ret True t" "i < 3" "\<forall>j < i. after_tick s R j = []"
      "after_tick s R i = p # tl (after_tick s R i)" "table_ok t ((after_tick s R)(i := tl (after_tick s R i))) F"
      "TimeToReset t = (if TimeToReset s = 0 then MaxTimeToReset else TimeToReset s - 1)"
      "\<forall>q. p_state (procs t q) = (if q = p then RUNNING else p_state (procs s q))"
      "\<forall>q < NPROC. p_priority (procs t q) = (if TimeToReset s = 0 then 1 else p_priority (procs s q))"
      "cproc t = (cproc s)(cpuid s := Some p)" "cpuid t = cpuid s" "ncli t = ncli s" "owner t = owner s"
      by (simp only: list.case if_False) blast
    from ti(1) run have "t = s'" by simp
    with ti(2-) Cons show ?thesis by blast
  qed
qed

lemma enter_cpu:
  assumes "cpus_ok s" "cproc s (cpuid s) = None" "cproc s' = (cproc s)(cpuid s := Some p)" "p < NPROC"
    "p_state (procs s p) \<noteq> RUNNING"
    "\<And>q. p_state (procs s' q) = (if q = p then RUNNING else p_state (procs s q))"
  shows "cpus_ok s'"
proof -
  have inj: "c = d" if "cproc s c = Some q" "cproc s d = Some q" for c d q
    using assms(1) that unfolding cpus_ok_def by blast
  have on: "q < NPROC \<and> p_state (procs s q) = RUNNING" if "cproc s c = Some q" for c q
    using assms(1) that unfolding cpus_ok_def by blast
  have free: "cproc s c \<noteq> Some p" for c using on [of c p] assms(5) by auto
  have "q < NPROC \<and> p_state (procs s' q) = RUNNING" if "cproc s' c = Some q" for c q
    using that on [of c q] assms(3,4,6) by (auto split: if_splits)
  moreover have "\<exists>c. cproc s' c = Some q" if "q < NPROC" "p_state (procs s' q) = RUNNING" for q
  proof (cases "q = p")
    case True
    with assms(3) show ?thesis by (intro exI [of _ "cpuid s"]) simp
  next
    case False
    with that assms(6) obtain c where "cproc s c = Some q" using assms(1) unfolding cpus_ok_def by metis
    with assms(2,3) show ?thesis by (intro exI [of _ c]) auto
  qed
  moreover have "c = d" if "cproc s' c = Some q" "cproc s' d = Some q" for c d q
    using that inj [of c q d] free assms(3) by (auto split: if_splits)
  ultimately show ?thesis unfolding cpus_ok_def by blast
qed

lemma scheduler_round_inv:
  assumes "sched_inv s" "cproc s (cpuid s) = None" "scheduler_round s = Ret () s'"
  shows "sched_inv s'"
proof -
  obtain R F where ok: "table_ok s R F" "cpus_ok s" using assms(1) by (auto simp: sched_inv_def)
  from assms(3) obtain b t where t: "scheduler_pick s = Ret b t" "(if b then kret () else release_lk PtableLock) t = Ret () s'"
    by (auto simp: scheduler_round_def kinv)
  show ?thesis
  proof (cases b)
    case False
    with t(1) have "t = s" by (auto simp: scheduler_pick_def kinv split: if_splits)
    with t(2) False assms(1) show ?thesis by (auto dest: release_ext [OF _ sched_ext_refl, THEN sched_ext_inv])
  next
    case True
    with t have s': "scheduler_pick s = Ret True s'" by (simp add: kret_apply)
    let ?A = "after_tick s R"
    from scheduler_pick_True [OF ok(1) s'] obtain p i
      where p: "?A i = p # tl (?A i)" "i < 3" "table_ok s' (?A(i := tl (?A i))) F"
        "\<forall>q. p_state (procs s' q) = (if q = p then RUNNING else p_state (procs s q))"
        "cproc s' = (cproc s)(cpuid s := Some p)" by blast
    have in_list: "p \<in> set (R 0 @ R 1 @ R 2)"
    proof -
      have "p \<in> set (?A i)" using p(1) by (metis list.set_intros(1))
      then show ?thesis using less_3_cases [OF p(2)] by (auto simp: after_tick_def merged_def split: if_splits)
    qed
    have "set (R 0 @ R 1 @ R 2) \<subseteq> {..<NPROC}" using ok(1) by (simp add: table_ok_def lists_rep_def links_ok_def)
    with in_list have "p < NPROC" by blast
    moreover from this have "p_state (procs s p) = RUNNABLE"
      using less_NPROC_merge [OF ok(1), of p] in_list by auto
    ultimately have "cpus_ok s'" using enter_cpu [OF ok(2) assms(2) p(5)] p(4) by simp
    with p(3) show ?thesis by (auto simp: sched_inv_def)
  qed
qed

lemma pt_step_inv: "pt_step s s' \<Longrightarrow> sched_inv s \<Longrightarrow> sched_inv s'"
proof (induction rule: pt_step.induct)
  case (op s s')
  then show ?case using op_step_ext sched_ext_inv by blast
next
  case (round s s')
  then show ?case by (simp add: scheduler_round_inv)
next
  case (setprio priority s pid r s')
  then show ?case using setpriority_inv by blast
qed

section \<open>The initial table\<close>

definition init_slot :: "nat \<Rightarrow> ('z ptable_scheme, unit) km" where
  "init_slot p = kbind (the_proc p p_state) (\<lambda>st.
     if st = UNUSED then kthen (AddFreeList (Some p)) (kret ()) else kret ())"

lemma init_loop:
  assumes "lists_rep s R F" "\<And>i. i < 3 \<Longrightarrow> R i = []" "distinct ps" "set ps \<subseteq> {..<NPROC}" "set ps \<inter> set F = {}"
    "\<And>q. p_state (procs s q) = UNUSED"
  shows "\<exists>t. kfor ps init_slot s = Ret () t \<and> lists_rep t R (rev ps @ F) \<and> only_states s t
    \<and> (\<forall>q. p_state (procs t q) = UNUSED)"
  using assms
proof (induction ps arbitrary: s F)
  case Nil
  then show ?case by (simp add: kmonad)
next
  case (Cons p ps)
  have "off_lists p R F" using Cons.prems by (auto simp: off_lists_def)
  from AddFreeList_run [OF Cons.prems(1) this] obtain u where u: "AddFreeList (Some p) s = Ret 0 u"
    "lists_rep u R (p # F)" "only_states s u" "\<forall>q. p_state (procs u q) = UNUSED"
    using Cons.prems(6) by (auto simp del: only_states_relink) (metis only_states_relink lists_rep_relink)
  have run: "init_slot p s = Ret () u"
    using u(1) Cons.prems(6) by (simp add: init_slot_def kmonad the_proc_def)
  obtain t where "kfor ps init_slot u = Ret () t" "lists_rep t R (rev ps @ p # F)" "only_states u t"
    "\<forall>q. p_state (procs t q) = UNUSED"
    using Cons.IH [OF u(2)] Cons.prems u(4) by auto
  with run only_states_trans [OF u(3)] show ?case by (auto simp: kthen_Ret)
qed

lemma init_lists_run:
  "\<exists>s. init_lists boot_ptable = Ret () s \<and> table_ok s (\<lambda>_. []) (rev [0..<NPROC]) \<and> cpus_ok s
    \<and> lock_free PtableLock s \<and> lock_free KmemLock s \<and> TimeToReset s = 0 \<and> (\<forall>q. cproc s q = None)
    \<and> nextpid s = 1 \<and> cpuid s = 0 \<and> (\<forall>q. procs s q = zero_proc\<lparr>p_next := p_next (procs s q)\<rparr>)"
proof -
  define b where "b = lock_taken PtableLock boot_ptable"
  have lists: "lists_rep b (\<lambda>_. []) []" "p_state (procs b q) = UNUSED" for q
    by (simp_all add: b_def lists_rep_def links_ok_def boot_ptable_def zero_proc_def)
  have "distinct [0..<NPROC]" "set [0..<NPROC] \<subseteq> {..<NPROC}" by auto
  with init_loop [OF lists(1), of "[0..<NPROC]"] lists(2) obtain t where
    t: "kfor [0..<NPROC] init_slot b = Ret () t" "lists_rep t (\<lambda>_. []) (rev [0..<NPROC])" "only_states b t"
      "\<forall>q. p_state (procs t q) = UNUSED" by auto
  have ks: "owner t = owner b" "ncli t = ncli b" "cpuid t = cpuid b" "cproc t = cproc b"
    "TimeToReset t = TimeToReset b" "nextpid t = nextpid b" by (simp_all add: only_states_kernel [OF t(3)])
  have proc: "procs t q = zero_proc\<lparr>p_next := p_next (procs t q)\<rparr>" for q
  proof -
    have "procs t q = (procs b q)\<lparr>p_state := p_state (procs t q), p_next := p_next (procs t q)\<rparr>"
      using t(3) by (simp add: only_states_def)
    with t(4) have "procs t q = zero_proc\<lparr>p_state := UNUSED, p_next := p_next (procs t q)\<rparr>"
      by (simp add: b_def boot_ptable_def)
    then show ?thesis by (simp add: zero_proc_def)
  qed
  let ?s = "lock_dropped PtableLock t"
  have rel: "release_lk PtableLock t = Ret () ?s"
    by (rule release_dropped) (simp_all add: ks b_def boot_ptable_def)
  have prep: "boot_ptable\<lparr>pFreeList := None\<rparr> = boot_ptable"
    "boot_ptable\<lparr>pReadyList := (pReadyList boot_ptable)(i := None)\<rparr> = boot_ptable" for i
    by (simp_all add: boot_ptable_def fun_upd_idem)
  have "init_lists boot_ptable = Ret () ?s"
    using t(1) rel
    by (simp add: init_lists_def kmonad prep acquire_lk_def init_slot_def [abs_def] b_def lock_taken_def)
      (simp add: boot_ptable_def kmonad)
  moreover have "table_ok ?s (\<lambda>_. []) (rev [0..<NPROC])"
  proof -
    have "p_priority (procs t q) = 0" for q by (subst proc) (simp add: zero_proc_def)
    then show ?thesis using t(2,4) by (simp add: table_ok_def)
  qed
  moreover have "cpus_ok ?s" using t(4) by (simp add: cpus_ok_def ks b_def boot_ptable_def)
  moreover have "lock_free PtableLock ?s" "lock_free KmemLock ?s"
    by (simp_all add: lock_free_def lock_dropped_def ks b_def boot_ptable_def)
  moreover have "TimeToReset ?s = 0" "cproc ?s q = None" "nextpid ?s = 1" "cpuid ?s = 0" for q
    by (simp_all add: ks b_def boot_ptable_def)
  ultimately show ?thesis using proc by (intro exI [of _ ?s]) simp
qed

section \<open>Waiting\<close>

text \<open>
  \<open>waits p k s t\<close>: a run from \<open>s\<close> to \<open>t\<close> in which the schedulers dispatched \<open>k\<close> processes, process
  \<open>p\<close> stayed runnable all the time, and nobody called \<open>setpriority\<close>.
\<close>

inductive waits :: "nat \<Rightarrow> nat \<Rightarrow> 'z ptable_scheme \<Rightarrow> 'z ptable_scheme \<Rightarrow> bool" where
  start: "p_state (procs s p) = RUNNABLE \<Longrightarrow> waits p 0 s s"
| op: "waits p k s t \<Longrightarrow> op_step t u \<Longrightarrow> p_state (procs u p) = RUNNABLE \<Longrightarrow> waits p k s u"
| idle: "waits p k s t \<Longrightarrow> scheduler_pick t = Ret False u \<Longrightarrow> release_lk PtableLock u = Ret () v \<Longrightarrow> waits p k s v"
| dispatch: "waits p k s t \<Longrightarrow> cproc t (cpuid t) = None \<Longrightarrow> scheduler_pick t = Ret True u \<Longrightarrow>
    p_state (procs u p) = RUNNABLE \<Longrightarrow> waits p (Suc k) s u"

definition all_one :: "'z ptable_scheme \<Rightarrow> bool" where
  "all_one s \<longleftrightarrow> (\<forall>q < NPROC. p_priority (procs s q) = 1)"

definition ahead :: "nat \<Rightarrow> nat list \<Rightarrow> nat" where
  "ahead p xs = length (takeWhile (\<lambda>q. q \<noteq> p) xs)"

text \<open>A bound on the dispatches before \<open>p\<close>: its position once every process has priority 1, else the
  rounds to the next reset and one place for each process.\<close>

definition wait_bound :: "'z ptable_scheme \<Rightarrow> (nat \<Rightarrow> nat list) \<Rightarrow> nat \<Rightarrow> nat" where
  "wait_bound s R p = (if all_one s then ahead p (R 1) else unat (TimeToReset s) + NPROC)"

lemma ahead_le: "ahead p xs \<le> length xs"
  by (simp add: ahead_def length_takeWhile_le)

lemma ahead_append: "p \<in> set xs \<Longrightarrow> ahead p (xs @ ys) = ahead p xs"
  by (simp add: ahead_def)

lemma ahead_Cons: "q \<noteq> p \<Longrightarrow> ahead p (q # xs) = Suc (ahead p xs)"
  by (simp add: ahead_def)

lemma table_ok_sub: "table_ok s R F \<Longrightarrow> i < 3 \<Longrightarrow> set (R i) \<subseteq> {..<NPROC}"
  using links_okD(3) [of "nexts s" "pReadyList s" "pFreeList s" R F i] by (simp add: table_ok_def lists_rep_def)

lemma table_length:
  assumes "table_ok s R F"
  shows "length (R 1 @ R 0 @ R 2) \<le> NPROC" "length (R 1) \<le> NPROC"
proof -
  have "distinct (R 1 @ R 0 @ R 2)" "set (R 1 @ R 0 @ R 2) \<subseteq> {..<NPROC}"
    using assms by (auto simp: table_ok_def lists_rep_def links_ok_def)
  then show l: "length (R 1 @ R 0 @ R 2) \<le> NPROC" by (rule procs_length)
  then show "length (R 1) \<le> NPROC" by simp
qed

lemma all_one_lists:
  assumes "table_ok s R F" "all_one s"
  shows "R 0 = []" "R 2 = []" "p < NPROC \<Longrightarrow> p_state (procs s p) = RUNNABLE \<Longrightarrow> p \<in> set (R 1)"
proof -
  have "q \<notin> set (R i)" if "i < 3" "i \<noteq> 1" for i q
  proof
    assume q: "q \<in> set (R i)"
    have "q < NPROC" using table_ok_sub [OF assms(1) that(1)] q by blast
    with table_okD(2) [OF assms(1) this that(1)] q assms(2) that(2) show False by (auto simp: all_one_def)
  qed
  note none = this
  have "set (R 0) = {}" "set (R 2) = {}"
    using none [of 0] none [of 2] by (simp_all add: set_eq_iff)
  then show "R 0 = []" "R 2 = []" by simp_all
  assume p: "p < NPROC" "p_state (procs s p) = RUNNABLE"
  with table_okD(2) [OF assms(1) p(1), of 1] assms(2) show "p \<in> set (R 1)" by (simp add: all_one_def)
qed

lemma wait_bound_le:
  assumes "table_ok s R F"
  shows "wait_bound s R p \<le> unat (TimeToReset s) + NPROC"
  using table_length(2) [OF assms] ahead_le [of p "R 1"] by (simp add: wait_bound_def)

lemma wait_bound_grows:
  assumes "grows s t" "table_ok s R F" "table_ok t R' F'" "p < NPROC" "p_state (procs s p) = RUNNABLE"
  shows "wait_bound t R' p \<le> wait_bound s R p"
proof (cases "all_one s")
  case True
  have one: "all_one t" using assms(1) True unfolding all_one_def grows_def by metis
  from assms(1) obtain R1 F1 R2 F2 where g: "table_ok s R1 F1" "table_ok t R2 F2" "\<forall>i < 3. \<exists>ys. R2 i = R1 i @ ys"
    unfolding grows_def by blast
  have "R1 1 = R 1" "R2 1 = R' 1" using table_ok_unique(2) [OF g(1) assms(2)] table_ok_unique(2) [OF g(2) assms(3)] by auto
  with g(3) obtain ys where "R' 1 = R 1 @ ys" by (metis one_less_numeral_iff semiring_norm(77))
  then show ?thesis
    using one True ahead_append [OF all_one_lists(3) [OF assms(2) True assms(4,5)]] by (simp add: wait_bound_def)
next
  case False
  have "TimeToReset t = TimeToReset s" using assms(1) by (simp add: grows_def)
  with False wait_bound_le [OF assms(3), of p] show ?thesis by (simp add: wait_bound_def)
qed

lemma wait_bound_dispatch:
  assumes ok: "table_ok s R F" and run: "scheduler_pick s = Ret True t"
    and p: "p < NPROC" "p_state (procs s p) = RUNNABLE" "p_state (procs t p) = RUNNABLE"
  shows "\<exists>R'. table_ok t R' F \<and> Suc (wait_bound t R' p) \<le> wait_bound s R p"
proof -
  let ?A = "after_tick s R"
  from scheduler_pick_True [OF ok run] obtain q i where q: "i < 3" "?A i = q # tl (?A i)" "\<forall>j < i. ?A j = []"
    "table_ok t (?A(i := tl (?A i))) F"
    "TimeToReset t = (if TimeToReset s = 0 then MaxTimeToReset else TimeToReset s - 1)"
    "\<forall>r. p_state (procs t r) = (if r = q then RUNNING else p_state (procs s r))"
    "\<forall>r < NPROC. p_priority (procs t r) = (if TimeToReset s = 0 then 1 else p_priority (procs s r))" by blast
  have pq: "q \<noteq> p" using q(6) p(3) by auto
  have "Suc (wait_bound t (?A(i := tl (?A i))) p) \<le> wait_bound s R p"
  proof (cases "TimeToReset s = 0 \<or> all_one s")
    case True
    then have one: "all_one t" using q(7) by (auto simp: all_one_def)
    have A: "?A 0 = []" "?A 2 = []" "?A 1 = R 1 @ R 0 @ R 2"
      using True all_one_lists [OF ok] by (auto simp: after_tick_def merged_def)
    have i: "i = 1" using q(1,2) A less_3_cases [OF q(1)] by (metis list.distinct(1))
    have step: "Suc (ahead p (tl (?A 1))) = ahead p (?A 1)"
      using q(2) i ahead_Cons [OF pq, of "tl (?A 1)"] by metis
    show ?thesis
    proof (cases "all_one s")
      case True
      then have "?A 1 = R 1" using A all_one_lists [OF ok True] by simp
      with step one True i show ?thesis by (simp add: wait_bound_def)
    next
      case False
      have "ahead p (?A 1) \<le> NPROC" using ahead_le [of p "?A 1"] table_length(1) [OF ok] A(3) by simp
      with step one False i show ?thesis by (simp add: wait_bound_def)
    qed
  next
    case False
    then have "\<not> all_one t" using q(7) by (auto simp: all_one_def)
    moreover have "Suc (unat (TimeToReset s - 1)) = unat (TimeToReset s)"
      using False unat_minus_one [of "TimeToReset s"] unat_gt_0 [of "TimeToReset s"] by simp
    ultimately show ?thesis using False q(5) by (simp add: wait_bound_def)
  qed
  with q(4) show ?thesis by blast
qed

lemma waits_bound:
  assumes "waits p k s t" "sched_inv s" "p < NPROC"
  shows "p_state (procs t p) = RUNNABLE \<and> cpus_ok t
    \<and> (\<exists>R F. table_ok t R F \<and> k + wait_bound t R p \<le> unat (TimeToReset s) + NPROC)"
  using assms
proof (induction rule: waits.induct)
  case (start s p)
  then obtain R F where "table_ok s R F" "cpus_ok s" by (auto simp: sched_inv_def)
  with start wait_bound_le [of s R F p] show ?case by auto
next
  case (op p k s t u)
  then obtain R F where t: "table_ok t R F" "k + wait_bound t R p \<le> unat (TimeToReset s) + NPROC" "cpus_ok t"
    "p_state (procs t p) = RUNNABLE" by blast
  then have "sched_ext t u" using op_step_ext [OF op.hyps(2)] by (auto simp: sched_inv_def)
  then have u: "cpus_ok u" "grows t u" by (simp_all add: sched_ext_def)
  then obtain R' F' where R': "table_ok u R' F'" by (auto simp: grows_def)
  have "k + wait_bound u R' p \<le> unat (TimeToReset s) + NPROC"
    using wait_bound_grows [OF u(2) t(1) R' op.prems(2) t(4)] t(2) by simp
  with R' u(1) op.hyps(3) show ?case by blast
next
  case (idle p k s t u v)
  then obtain R F where t: "table_ok t R F" "k + wait_bound t R p \<le> unat (TimeToReset s) + NPROC" "cpus_ok t"
    "p_state (procs t p) = RUNNABLE" by blast
  have "u = t" using idle.hyps(2) by (auto simp: scheduler_pick_def kinv split: if_splits)
  then have "v = lock_dropped PtableLock t" using idle.hyps(3) by (auto simp: release_lk_eq_Ret lock_dropped_def)
  then have "procs v = procs t" "cproc v = cproc t" "TimeToReset v = TimeToReset t" "table_ok v R F"
    using t(1) by simp_all
  moreover from this have "wait_bound v R p = wait_bound t R p"
    unfolding wait_bound_def all_one_def by presburger
  moreover have "cpus_ok v" using t(3) calculation by (simp add: cpus_ok_def)
  ultimately show ?case using t(2,4) by auto
next
  case (dispatch p k s t u)
  then obtain R F where t: "table_ok t R F" "k + wait_bound t R p \<le> unat (TimeToReset s) + NPROC" "cpus_ok t"
    "p_state (procs t p) = RUNNABLE" by blast
  from wait_bound_dispatch [OF t(1) dispatch.hyps(3) dispatch.prems(2) t(4) dispatch.hyps(4)] obtain R'
    where "table_ok u R' F" "Suc (wait_bound u R' p) \<le> wait_bound t R p" by blast
  moreover have "cpus_ok u"
  proof -
    have "scheduler_round t = Ret () u" using dispatch.hyps(3) by (simp add: scheduler_round_def kmonad)
    with scheduler_round_inv [of t u] t(1,3) dispatch.hyps(2) show ?thesis by (auto simp: sched_inv_def)
  qed
  ultimately show ?case using t(2) dispatch.hyps(4) by (intro conjI exI [of _ R'] exI [of _ F]) simp_all
qed

section \<open>Properties\<close>

text \<open>A table for the witnesses: processes 0 and 1 are runnable, the others sleep on the clock.\<close>

definition queue_demo :: ptable where
  "queue_demo = boot_ptable\<lparr>procs := (\<lambda>p. zero_proc\<lparr>p_state := (if p < 2 then RUNNABLE else SLEEPING),
       p_priority := 1, p_pgdir := 0x80300000, p_pid := int p + 1, p_chan := TicksChan,
       p_next := (if p = 0 then Some 1 else None)\<rparr>),
     pReadyList := (\<lambda>_. None)(1 := Some 0), TimeToReset := 50\<rparr>"

lemma queue_demo_sel:
  "p_state (procs queue_demo p) = (if p < 2 then RUNNABLE else SLEEPING)" "p_priority (procs queue_demo p) = 1"
  "p_pgdir (procs queue_demo p) = 0x80300000" "p_pid (procs queue_demo p) = int p + 1"
  "p_chan (procs queue_demo p) = TicksChan" "nexts queue_demo p = (if p = 0 then Some 1 else None)"
  "cproc queue_demo c = None" "cpuid queue_demo = 0" "ncli queue_demo c = 0" "owner queue_demo l = None"
  "TimeToReset queue_demo = 50" "pReadyList queue_demo = (\<lambda>_. None)(1 := Some 0)" "pFreeList queue_demo = None"
  by (simp_all add: queue_demo_def boot_ptable_def nexts_def)

lemma queue_demo_ok: "table_ok queue_demo ((\<lambda>_. [])(1 := [0, 1])) []"
proof -
  have "lists_rep queue_demo ((\<lambda>_. [])(1 := [0, 1])) []"
    by (auto simp: lists_rep_def links_ok_def queue_demo_sel NPROC_def)
  moreover have "p \<in> set (((\<lambda>_. [])(1 := [0, 1])) i) \<longleftrightarrow> p < 2 \<and> i = 1" for p i :: nat
    by auto
  ultimately show ?thesis by (auto simp: table_ok_def queue_demo_sel)
qed

lemma queue_demo_inv: "sched_inv queue_demo"
  using queue_demo_ok by (auto simp: sched_inv_def cpus_ok_def queue_demo_sel)

lemma pt_reachable_inv: "pt_reachable s \<Longrightarrow> sched_inv s"
proof (induction rule: pt_reachable.induct)
  case (init s)
  then show ?case using init_lists_run by (auto simp: sched_inv_def)
next
  case (step s s')
  then show ?case using pt_step_inv by blast
qed





text \<open>A round of the scheduler on a table with runnable processes: if the countdown has run out
  the priorities are reset first, else the countdown goes down by one; then the first process of the
  first non-empty ready list is taken off its list, becomes \<open>RUNNING\<close>, the current process of this
  CPU, and its page directory is loaded. On empty lists the round changes nothing.\<close>

theorem scheduler_dispatches_first:
  assumes "table_ok s R F" "0 \<le> ncli s (cpuid s)" "\<And>p. p < NPROC \<Longrightarrow> p_pgdir (procs s p) \<noteq> 0"
  defines "A \<equiv> (if TimeToReset s = 0 then R(0 := [], 1 := R 1 @ R 0 @ R 2, 2 := []) else R)"
  shows "case A 0 @ A 1 @ A 2 of [] \<Rightarrow> scheduler_pick s = Ret False s
    | p # _ \<Rightarrow> \<exists>s' i. scheduler_pick s = Ret True s' \<and> i < 3 \<and> (\<forall>j < i. A j = []) \<and> A i = p # tl (A i)
        \<and> table_ok s' (A(i := tl (A i))) F
        \<and> TimeToReset s' = (if TimeToReset s = 0 then 100 else TimeToReset s - 1)
        \<and> p_state (procs s' p) = RUNNING \<and> cproc s' = (cproc s)(cpuid s := Some p)
        \<and> cr3 s' (cpuid s) = v2p (p_pgdir (procs s p))"
proof -
  have A: "A = after_tick s R" by (simp add: A_def after_tick_def merged_def)
  show ?thesis
  proof (cases "A 0 @ A 1 @ A 2")
    case Nil
    with scheduler_pick_run [OF assms(1,2)] show ?thesis by (simp add: A)
  next
    case (Cons p ps)
    from first_level [of A, OF Cons] obtain i where "i < 3" "p \<in> set (A i)" by auto
    moreover have "set (R 0 @ R 1 @ R 2) \<subseteq> {..<NPROC}"
      using assms(1) by (simp add: table_ok_def lists_rep_def links_ok_def)
    ultimately have "p < NPROC" using less_3_cases [of i] by (auto simp: A_def split: if_splits)
    then have "p_pgdir (procs s p) \<noteq> 0" by (rule assms(3))
    with scheduler_pick_run [OF assms(1,2)] Cons obtain s' i where
      "scheduler_pick s = Ret True s'" "i < 3" "\<forall>j < i. A j = []" "A i = p # tl (A i)"
      "table_ok s' (A(i := tl (A i))) F"
      "TimeToReset s' = (if TimeToReset s = 0 then MaxTimeToReset else TimeToReset s - 1)"
      "\<forall>q. p_state (procs s' q) = (if q = p then RUNNING else p_state (procs s q))"
      "cproc s' = (cproc s)(cpuid s := Some p)" "cr3 s' (cpuid s) = v2p (p_pgdir (procs s p))"
      by (simp only: A list.case if_False) blast
    moreover from this(7) have "p_state (procs s' p) = RUNNING" by simp
    ultimately show ?thesis unfolding Cons list.case MaxTimeToReset_def by blast
  qed
qed

theorem scheduler_dispatches_first_witness:
  "\<exists>s'. scheduler_pick queue_demo = Ret True s' \<and> cproc s' 0 = Some 0 \<and> TimeToReset s' = 49"
proof -
  have n: "0 \<le> ncli queue_demo (cpuid queue_demo)" "\<And>p. p < NPROC \<Longrightarrow> p_pgdir (procs queue_demo p) \<noteq> 0"
    by (simp_all add: queue_demo_sel)
  show ?thesis using scheduler_dispatches_first [OF queue_demo_ok n] by (auto simp: queue_demo_sel)
qed

lemma only_states_locked:
  assumes "lock_free l s" "only_states (lock_taken l s) t"
  shows "only_states s (lock_dropped l t)"
proof -
  have "t = (lock_taken l s)\<lparr>procs := procs t, pReadyList := pReadyList t, pFreeList := pFreeList t\<rparr>"
    using assms(2) by (simp add: only_states_def)
  then obtain P R F where t: "t = (lock_taken l s)\<lparr>procs := P, pReadyList := R, pFreeList := F\<rparr>" by blast
  have "lock_dropped l t = s\<lparr>procs := P, pReadyList := R, pFreeList := F\<rparr>"
    using assms(1) by (simp add: t lock_dropped_def lock_taken_def lock_free_def fun_upd_idem)
  moreover have "P q = (procs s q)\<lparr>p_state := p_state (P q), p_next := p_next (P q)\<rparr>" for q
    using assms(2) unfolding only_states_def t by simp
  ultimately show ?thesis by (simp add: only_states_def)
qed

lemma wakeup_run:
  assumes "table_ok s R F" "lock_free PtableLock s"
  shows "\<exists>s' R'. wakeup ch s = Ret () s' \<and> table_ok s' R' F \<and> lock_free PtableLock s' \<and> only_states s s'
    \<and> (\<forall>i < 3. R' i = R i @ filter (\<lambda>p. p_state (procs s p) = SLEEPING \<and> p_chan (procs s p) = ch
          \<and> p_priority (procs s p) = int i) [0..<NPROC])
    \<and> (\<forall>q < NPROC. p_state (procs s' q) =
        (if p_state (procs s q) = SLEEPING \<and> p_chan (procs s q) = ch then RUNNABLE else p_state (procs s q)))"
proof -
  let ?l = "lock_taken PtableLock s"
  have acq: "acquire_lk PtableLock s = Ret () ?l" by (rule klock.acq_free [OF assms(2)])
  have "table_ok ?l R F" using assms(1) by simp
  from wakeup1_run [OF this, of ch] obtain t R' where t: "wakeup1 ch ?l = Ret () t" "only_states ?l t" "table_ok t R' F"
    "\<forall>i < 3. R' i = R i @ filter (\<lambda>p. sleeps_on ?l ch p \<and> p_priority (procs ?l p) = int i) [0..<NPROC]"
    "\<forall>q. p_state (procs t q) = (if q < NPROC \<and> sleeps_on ?l ch q then RUNNABLE else p_state (procs ?l q))" by blast
  have rel: "release_lk PtableLock t = Ret () (lock_dropped PtableLock t)"
    by (rule release_dropped) (use assms(2) in \<open>auto simp: only_states_kernel [OF t(2)] lock_free_def\<close>)
  have "wakeup ch s = Ret () (lock_dropped PtableLock t)"
    using acq t(1) rel by (simp add: wakeup_def kmonad)
  moreover have "lock_free PtableLock (lock_dropped PtableLock t)"
    using assms(2) by (simp add: lock_free_def lock_dropped_def only_states_kernel [OF t(2)])
  ultimately show ?thesis
    using t(3-5) only_states_locked [OF assms(2) t(2)] by (intro exI [of _ "lock_dropped PtableLock t"] exI [of _ R']) (simp add: sleeps_on_def conj_assoc)
qed

text \<open>C19. \<open>wakeup\<close> makes runnable exactly the processes that sleep on the channel and appends them,
  in the order of the table, to the ready lists of their priorities; no other process changes state,
  and the lock is free again afterwards.\<close>

theorem wakeup_wakes_exactly:
  assumes "table_ok s R F" "lock_free PtableLock s"
  shows "\<exists>s' R'. wakeup ch s = Ret () s' \<and> table_ok s' R' F \<and> lock_free PtableLock s'
    \<and> (\<forall>i < 3. R' i = R i @ filter (\<lambda>p. p_state (procs s p) = SLEEPING \<and> p_chan (procs s p) = ch
          \<and> p_priority (procs s p) = int i) [0..<NPROC])
    \<and> (\<forall>q < NPROC. p_state (procs s' q) =
        (if p_state (procs s q) = SLEEPING \<and> p_chan (procs s q) = ch then RUNNABLE else p_state (procs s q)))"
  using wakeup_run [OF assms] by blast

theorem wakeup_wakes_exactly_witness:
  "\<exists>s'. wakeup TicksChan queue_demo = Ret () s' \<and> p_state (procs s' 7) = RUNNABLE
    \<and> lock_free PtableLock s'"
proof -
  have "lock_free PtableLock queue_demo" by (simp add: lock_free_def queue_demo_sel)
  from wakeup_wakes_exactly [OF queue_demo_ok this, of TicksChan] show ?thesis
    by (auto simp: queue_demo_sel NPROC_def)
qed

lemma sleep_run:
  assumes "cproc s (cpuid s) = Some p" "lk \<noteq> PtableLock" "owner s lk = Some (cpuid s)"
    "owner s PtableLock = None" "ncli s (cpuid s) = 1"
  shows "sleep ch (Some lk) s = Sleeps ((lock_dropped lk (lock_taken PtableLock s))
    \<lparr>procs := (procs s)(p := (procs s p)\<lparr>p_chan := ch, p_state := SLEEPING\<rparr>)\<rparr>)"
proof -
  let ?u = "lock_dropped lk (lock_taken PtableLock s)"
  have "acquire_lk PtableLock s = Ret () (lock_taken PtableLock s)"
    using assms(4) by (simp add: acquire_lk_eq_Ret)
  moreover have "release_lk lk (lock_taken PtableLock s) = Ret () ?u"
    by (rule release_dropped) (use assms in auto)
  moreover have "sched (?u\<lparr>procs := (procs s)(p := (procs s p)\<lparr>p_chan := ch, p_state := SLEEPING\<rparr>)\<rparr>)
      = Sleeps (?u\<lparr>procs := (procs s)(p := (procs s p)\<lparr>p_chan := ch, p_state := SLEEPING\<rparr>)\<rparr>)"
    using assms by (simp add: sched_def kmonad curproc_run the_proc_def lock_dropped_def lock_taken_def)
  ultimately show ?thesis
    using assms(1,2) by (simp add: sleep_def kmonad upd_proc_run set_state_run)
qed


definition run_demo :: ptable where
  "run_demo = boot_ptable\<lparr>procs := (\<lambda>p. zero_proc\<lparr>
       p_state := (if p = 0 then RUNNING else if p = 1 then RUNNABLE else SLEEPING),
       p_priority := 1, p_pgdir := 0x80300000, p_pid := int p + 1, p_chan := (if p = 0 then CNull else TicksChan)\<rparr>),
     pReadyList := (\<lambda>_. None)(1 := Some 1), TimeToReset := 50, cproc := (\<lambda>_. None)(0 := Some 0),
     owner := (\<lambda>_. None)(TicksLock := Some 0), ncli := (\<lambda>_. 0)(0 := 1)\<rparr>"

lemma run_demo_inv: "sched_inv run_demo"
proof -
  have "lists_rep run_demo ((\<lambda>_. [])(1 := [1])) []"
    by (auto simp: lists_rep_def links_ok_def run_demo_def boot_ptable_def nexts_def zero_proc_def NPROC_def)
  then have "table_ok run_demo ((\<lambda>_. [])(1 := [1])) []"
    by (auto simp: table_ok_def run_demo_def)
  moreover have "cpus_ok run_demo" by (auto simp: cpus_ok_def run_demo_def NPROC_def)
  ultimately show ?thesis by (auto simp: sched_inv_def)
qed


text \<open>C21. \<open>allocproc\<close>: with no free slot it fails and changes nothing. Otherwise it takes the first
  free slot and consumes a process id, also when there is no page for the kernel stack; in that case
  the slot is back on the free list and unused, else it is an embryo with the new id, which no other
  slot has as long as the ids in the table are below the counter, and a kernel stack of its own.\<close>

theorem allocproc_spec:
  assumes "table_ok s R F" "lock_free PtableLock s" "use_lock s \<longrightarrow> lock_free KmemLock s"
    "\<And>q. p_pid (procs s q) < nextpid s" "0 < nextpid s" "nextpid s < 2 ^ 31 - 1"
  shows "case F of
      [] \<Rightarrow> allocproc s = Ret None s
    | p # F' \<Rightarrow> \<exists>s'. allocproc s = Ret (if freelist s = 0 then None else Some p) s'
        \<and> table_ok s' R (if freelist s = 0 then F else F') \<and> nextpid s' = nextpid s + 1
        \<and> (\<forall>q. p_pid (procs s' q) = (if q = p then nextpid s else p_pid (procs s q)))
        \<and> (\<forall>q. q \<noteq> p \<longrightarrow> p_pid (procs s' q) \<noteq> p_pid (procs s' p))
        \<and> p_state (procs s' p) = (if freelist s = 0 then UNUSED else EMBRYO)
        \<and> p_kstack (procs s' p) = freelist s \<and> owner s' = owner s"
proof (cases F)
  case Nil
  with allocproc_run [OF assms(1-3)] show ?thesis by simp
next
  case (Cons p F')
  have "p < NPROC" using assms(1) Cons by (auto simp: table_ok_def lists_rep_def links_ok_def)
  then have unused: "p_state (procs s p) = UNUSED" using table_okD(1) [OF assms(1)] Cons
    by (metis list.set_intros(1))
  from allocproc_run [OF assms(1-3)] Cons obtain s' where s': "allocproc s = Ret (if freelist s = 0 then None else Some p) s'"
    "table_ok s' R (if freelist s = 0 then F else F')" "nextpid s' = int32 (nextpid s + 1)"
    "\<forall>q. p_state (procs s' q) = (if q = p \<and> freelist s \<noteq> 0 then EMBRYO else p_state (procs s q))"
    "\<forall>q. p_pid (procs s' q) = (if q = p then nextpid s else p_pid (procs s q))"
    "p_kstack (procs s' p) = freelist s" "owner s' = owner s" by auto
  have pid: "int32 (nextpid s + 1) = nextpid s + 1"
    using assms(5,6) by (simp add: int32_def)
  have fresh: "\<forall>q. q \<noteq> p \<longrightarrow> p_pid (procs s' q) \<noteq> p_pid (procs s' p)"
    using s'(5) assms(4) by (metis less_irrefl)
  show ?thesis unfolding Cons list.case
    by (intro exI [of _ s'] conjI) (use s' fresh pid unused Cons in \<open>simp_all split: if_splits\<close>)
qed

definition slot_demo :: ptable where
  "slot_demo = boot_ptable\<lparr>procs := (\<lambda>p. zero_proc\<lparr>
       p_state := (if p = 5 then UNUSED else SLEEPING), p_pid := (if p = 5 then 0 else 7)\<rparr>),
     pFreeList := Some 5, nextpid := 100\<rparr>"

lemma slot_demo_ok: "table_ok slot_demo (\<lambda>_. []) [5]"
  by (auto simp: table_ok_def lists_rep_def links_ok_def slot_demo_def boot_ptable_def nexts_def zero_proc_def NPROC_def)

theorem allocproc_spec_witness:
  "\<exists>s'. allocproc slot_demo = Ret None s' \<and> nextpid s' = 101 \<and> p_state (procs s' 5) = UNUSED
    \<and> p_pid (procs s' 5) = 100 \<and> table_ok s' (\<lambda>_. []) [5]"
proof -
  have "lock_free PtableLock slot_demo" "use_lock slot_demo \<longrightarrow> lock_free KmemLock slot_demo"
    "0 < nextpid slot_demo" "nextpid slot_demo < 2 ^ 31 - 1" "freelist slot_demo = 0" "nextpid slot_demo = 100"
    by (simp_all add: slot_demo_def boot_ptable_def lock_free_def)
  moreover have "p_pid (procs slot_demo q) < nextpid slot_demo" for q
    by (simp add: slot_demo_def boot_ptable_def zero_proc_def)
  ultimately show ?thesis using allocproc_spec [OF slot_demo_ok] by auto
qed

lemma chain_head: "chain nxt p xs \<Longrightarrow> p = (case xs of [] \<Rightarrow> None | x # _ \<Rightarrow> Some x)"
  by (cases xs) simp_all

lemma table_ok_heads:
  assumes "table_ok s R F"
  shows "i < 3 \<Longrightarrow> pReadyList s i = (case R i of [] \<Rightarrow> None | x # _ \<Rightarrow> Some x)"
    "pFreeList s = (case F of [] \<Rightarrow> None | x # _ \<Rightarrow> Some x)"
  using assms chain_head [of "nexts s"] by (auto simp: table_ok_def lists_rep_def links_ok_def)

text \<open>C22. \<open>setpriority\<close> changes the priority of a process that is on a ready list and leaves it there.
  When the only runnable process is moved from level 1 to level 0 in this way, one CPU dispatches it
  without taking it off list 1, and the next CPU to look dispatches it as well: the process runs on
  two CPUs at once.\<close>

theorem setpriority_runs_twice:
  assumes "table_ok s ((\<lambda>_. [])(1 := [p])) F" "p_pgdir (procs s p) \<noteq> 0" "2 \<le> TimeToReset s"
    "find (\<lambda>q. p_pid (procs s q) = pid) [0..<NPROC] = Some p"
    "0 \<le> ncli s (cpuid s)" "0 \<le> ncli s c" "c \<noteq> cpuid s"
  shows "\<exists>t u v. setpriority pid 0 s = Ret 0 t \<and> scheduler_pick t = Ret True u
    \<and> scheduler_pick (u\<lparr>cpuid := c\<rparr>) = Ret True v \<and> cproc v (cpuid s) = Some p \<and> cproc v c = Some p"
proof -
  have rl: "pReadyList s 0 = None" "pReadyList s 1 = Some p" "pReadyList s 2 = None"
    using table_ok_heads [OF assms(1)] by simp_all
  have tt: "TimeToReset s \<noteq> 0" "TimeToReset s - 1 \<noteq> 0"
    using assms(3) by (auto simp: word_le_nat_alt)
  show ?thesis using assms(2-) rl tt
    by (simp add: setpriority_def setpriority_loop_run scheduler_pick_def reset_tick_def GetReady_def set_cproc_def
      switchuvm_def push_cli_def pop_cli_def lcr3_def curproc_def the_proc_def set_state_def upd_proc_def
      RemoveReadyList_def ready_at_def kmonad)
qed

theorem setpriority_runs_twice_witness:
  "\<exists>t u v. setpriority 2 0 (run_demo\<lparr>cproc := (\<lambda>_. None)\<rparr>) = Ret 0 t \<and> scheduler_pick t = Ret True u
    \<and> scheduler_pick (u\<lparr>cpuid := 3\<rparr>) = Ret True v \<and> cproc v 0 = Some 1 \<and> cproc v 3 = Some 1"
proof -
  let ?s = "run_demo\<lparr>cproc := (\<lambda>_. None)\<rparr>"
  have "lists_rep ?s ((\<lambda>_. [])(1 := [1])) []"
    by (auto simp: lists_rep_def links_ok_def run_demo_def boot_ptable_def nexts_def zero_proc_def NPROC_def)
  then have ok: "table_ok ?s ((\<lambda>_. [])(1 := [1])) []"
    by (auto simp: table_ok_def run_demo_def)
  have "find (\<lambda>q. p_pid (procs ?s q) = 2) [0..<NPROC] = Some 1"
    by (simp add: run_demo_def NPROC_def upt_rec)
  with setpriority_runs_twice [OF ok, of 2 3] show ?thesis by (simp add: run_demo_def boot_ptable_def)
qed

lemma kill_loop_run:
  "\<lbrakk>\<And>p. p \<in> set ps \<Longrightarrow> p_pid (procs s p) \<noteq> pid\<rbrakk> \<Longrightarrow> kill_loop ps pid s = (kdo2 [release_lk PtableLock] (kret (- 1))) s"
  by (induction ps) (simp_all add: kmonad the_proc_def)

lemma kill_loop_found:
  "find (\<lambda>p. p_pid (procs s p) = pid) ps = Some p \<Longrightarrow> kill_loop ps pid s = (kdo2 [
         upd_proc p (\<lambda>x. x\<lparr>p_killed := True\<rparr>),
         kbind (the_proc p p_state) (\<lambda>st. if st = SLEEPING
           then make_runnable p else kret ()),
         release_lk PtableLock] (kret 0)) s"
  by (induction ps) (auto simp: kmonad the_proc_def split: if_splits)

lemma kill_awake:
  assumes "lock_free PtableLock s" "find (\<lambda>q. p_pid (procs s q) = pid) [0..<NPROC] = Some p"
    "p_state (procs s p) \<noteq> SLEEPING"
  shows "kill pid s = Ret 0 (s\<lparr>procs := (procs s)(p := (procs s p)\<lparr>p_killed := True\<rparr>)\<rparr>)"
proof -
  let ?l = "lock_taken PtableLock s"
  let ?k = "?l\<lparr>procs := (procs ?l)(p := (procs ?l p)\<lparr>p_killed := True\<rparr>)\<rparr>"
  have "find (\<lambda>q. p_pid (procs ?l q) = pid) [0..<NPROC] = Some p" using assms(2) by simp
  from kill_loop_found [OF this] have "kill pid s = (kdo2 [release_lk PtableLock] (kret 0)) ?k"
    using klock.acq_free [OF assms(1)] assms(3) by (simp add: kill_def kmonad upd_proc_def the_proc_def)
  moreover have "release_lk PtableLock ?k = Ret () (lock_dropped PtableLock ?k)"
    by (rule release_dropped) (use assms(1) in \<open>auto simp: lock_free_def\<close>)
  moreover have "lock_dropped PtableLock ?k = s\<lparr>procs := (procs s)(p := (procs s p)\<lparr>p_killed := True\<rparr>)\<rparr>"
    using assms(1) by (simp add: lock_dropped_def lock_taken_def lock_free_def fun_upd_idem)
  ultimately show ?thesis by (simp add: kmonad)
qed

text \<open>C23. \<open>kill\<close>: without a slot with the pid it returns -1 and changes nothing. Otherwise the first
  such slot, and no other, is marked killed; when it sleeps it becomes runnable, at the end of its
  ready list, so that it will see the mark. The lock is free again.\<close>

theorem kill_spec:
  assumes "table_ok s R F" "lock_free PtableLock s"
  shows "case find (\<lambda>q. p_pid (procs s q) = pid) [0..<NPROC] of
      None \<Rightarrow> kill pid s = Ret (- 1) s
    | Some p \<Rightarrow> \<exists>s' R'. kill pid s = Ret 0 s' \<and> owner s' = owner s
        \<and> (\<forall>q. p_killed (procs s' q) = (q = p \<or> p_killed (procs s q)))
        \<and> (if p_state (procs s p) = SLEEPING
           then p_state (procs s' p) = RUNNABLE \<and> (\<exists>i < 3. p_priority (procs s p) = int i \<and> R' = R(i := R i @ [p]))
           else p_state (procs s' p) = p_state (procs s p) \<and> R' = R)
        \<and> table_ok s' R' F"
proof (cases "find (\<lambda>q. p_pid (procs s q) = pid) [0..<NPROC]")
  case None
  then have "p_pid (procs s p) \<noteq> pid" if "p \<in> set [0..<NPROC]" for p
    using that by (auto simp: find_None_iff)
  then have "kill_loop [0..<NPROC] pid (lock_taken PtableLock s) = (kdo2 [release_lk PtableLock] (kret (- 1))) (lock_taken PtableLock s)"
    by (intro kill_loop_run) simp
  also have "\<dots> = Ret (- 1) s"
    using klock.rel_taken [OF assms(2)] by (simp add: kmonad)
  finally show ?thesis using None klock.acq_free [OF assms(2)] by (simp add: kill_def kmonad)
next
  case (Some p)
  then have p: "p < NPROC" by (auto simp: find_Some_iff)
  let ?l = "lock_taken PtableLock s"
  let ?k = "?l\<lparr>procs := (procs ?l)(p := (procs ?l p)\<lparr>p_killed := True\<rparr>)\<rparr>"
  have k: "table_ok ?k R F"
    by (rule own_grows(1)) (use assms(1) in simp_all)
  have "find (\<lambda>q. p_pid (procs ?l q) = pid) [0..<NPROC] = Some p" using Some by simp
  from kill_loop_found [OF this] have run: "kill pid s = (kdo2 [kbind (the_proc p p_state) (\<lambda>st. if st = SLEEPING
           then make_runnable p else kret ()), release_lk PtableLock] (kret 0)) ?k"
    using klock.acq_free [OF assms(2)] by (simp add: kill_def kmonad upd_proc_def)
  have free: "owner s PtableLock = None" "0 \<le> ncli s (cpuid s)" using assms(2) by (auto simp: lock_free_def)
  show ?thesis
  proof (cases "p_state (procs s p) = SLEEPING")
    case True
    from make_runnable_run [OF k p] True obtain s' i where s': "make_runnable p ?k = Ret () s'" "i < 3"
      "p_priority (procs s p) = int i" "table_ok s' (R(i := R i @ [p])) F" "only_states ?k s'"
      "\<forall>q. p_state (procs s' q) = (if q = p then RUNNABLE else p_state (procs s q))" by auto
    have rel: "release_lk PtableLock s' = Ret () (lock_dropped PtableLock s')"
      by (rule release_dropped) (use free in \<open>auto simp: only_states_kernel [OF s'(5)]\<close>)
    have "kill pid s = Ret 0 (lock_dropped PtableLock s')"
      using run s'(1) rel True by (simp add: kmonad the_proc_def)
    moreover have "owner (lock_dropped PtableLock s') = owner s"
      using free(1) by (auto simp: lock_dropped_def only_states_kernel [OF s'(5)])
    moreover have "p_killed (procs s' q) = (q = p \<or> p_killed (procs s q))" for q
      by (simp add: only_states_proc [OF s'(5)])
    ultimately show ?thesis unfolding Some option.case using s'(2-4,6) True
      by (intro exI [of _ "lock_dropped PtableLock s'"] exI [of _ "R(i := R i @ [p])"]) auto
  next
    case False
    show ?thesis unfolding Some option.case kill_awake [OF assms(2) Some False]
      by (intro exI [of _ "s\<lparr>procs := (procs s)(p := (procs s p)\<lparr>p_killed := True\<rparr>)\<rparr>"] exI [of _ R])
        (use False own_grows(1) [OF assms(1), of "(procs s p)\<lparr>p_killed := True\<rparr>" p] in auto)
  qed
qed

theorem kill_spec_witness:
  "\<exists>s'. kill 7 queue_demo = Ret 0 s' \<and> p_killed (procs s' 6) \<and> p_state (procs s' 6) = RUNNABLE
    \<and> table_ok s' ((\<lambda>_. [])(1 := [0, 1, 6])) []"
proof -
  have "find (\<lambda>q. p_pid (procs queue_demo q) = 7) [0..<NPROC] = Some 6"
    by (simp add: queue_demo_sel NPROC_def upt_rec)
  moreover have "lock_free PtableLock queue_demo" by (simp add: lock_free_def queue_demo_sel)
  ultimately obtain s' i where s': "kill 7 queue_demo = Ret 0 s'" "p_killed (procs s' 6)"
    "p_state (procs s' 6) = RUNNABLE" "int i = 1" "table_ok s' (((\<lambda>_. [])(1 := [0, 1]))(i := ((\<lambda>_. [])(1 := [0, 1])) i @ [6])) []"
    using kill_spec [OF queue_demo_ok, of 7] by (auto simp: queue_demo_sel)
  from s'(4) have "i = 1" by simp
  with s' show ?thesis by auto
qed

text \<open>C24. The pid 0 of a free slot is a pid to \<open>kill\<close>: \<open>kill(0)\<close> marks the slot killed, and since
  \<open>allocproc\<close> does not clear the mark, the next process to take the slot is born killed.\<close>

theorem kill_zero_marks_next_process:
  assumes "table_ok s R (p # F)" "lock_free PtableLock s" "use_lock s \<longrightarrow> lock_free KmemLock s"
    "find (\<lambda>q. p_pid (procs s q) = 0) [0..<NPROC] = Some p" "freelist s \<noteq> 0"
  shows "\<exists>t u. kill 0 s = Ret 0 t \<and> allocproc t = Ret (Some p) u \<and> p_state (procs u p) = EMBRYO
    \<and> p_killed (procs u p)"
proof -
  let ?t = "s\<lparr>procs := (procs s)(p := (procs s p)\<lparr>p_killed := True\<rparr>)\<rparr>"
  have p: "p < NPROC" using assms(4) by (auto simp: find_Some_iff)
  have "p_state (procs s p) = UNUSED" using table_okD(1) [OF assms(1) p] by simp
  then have kill: "kill 0 s = Ret 0 ?t" by (intro kill_awake [OF assms(2,4)]) simp
  have ok: "table_ok ?t R (p # F)" by (rule own_grows(1) [OF assms(1)]) simp_all
  have "lock_free PtableLock ?t" "use_lock ?t \<longrightarrow> lock_free KmemLock ?t"
    using assms(2,3) by (auto simp: lock_free_def)
  from allocproc_run [OF ok this] assms(5) obtain u where "allocproc ?t = Ret (Some p) u"
    "\<forall>q. p_state (procs u q) = (if q = p then EMBRYO else p_state (procs ?t q))"
    "\<forall>q. p_killed (procs u q) = p_killed (procs ?t q)" by auto
  with kill show ?thesis by (intro exI [of _ ?t] exI [of _ u]) auto
qed

definition free_demo :: ptable where
  "free_demo = slot_demo\<lparr>freelist := 0x80300000\<rparr>"

theorem kill_zero_marks_next_process_witness:
  "\<exists>t u. kill 0 free_demo = Ret 0 t \<and> allocproc t = Ret (Some 5) u \<and> p_state (procs u 5) = EMBRYO
    \<and> p_killed (procs u 5)"
proof -
  have "table_ok free_demo (\<lambda>_. []) [5]"
    by (auto simp: table_ok_def lists_rep_def links_ok_def free_demo_def slot_demo_def boot_ptable_def nexts_def zero_proc_def NPROC_def)
  moreover have "lock_free PtableLock free_demo" "use_lock free_demo \<longrightarrow> lock_free KmemLock free_demo"
    "freelist free_demo \<noteq> 0"
    by (simp_all add: free_demo_def slot_demo_def boot_ptable_def lock_free_def)
  moreover have "find (\<lambda>q. p_pid (procs free_demo q) = 0) [0..<NPROC] = Some 5"
    by (simp add: free_demo_def slot_demo_def NPROC_def upt_rec zero_proc_def)
  ultimately show ?thesis by (intro kill_zero_marks_next_process)
qed

end
