(* ===== verification/Pipe.thy ===== *)
theory Pipe
  imports Sched_Machine
begin

text \<open>
  Pipes (\<open>pipe.c\<close>). A pipe is a page of the allocator; its structure is kept in the table \<open>pipes\<close>
  under the address of that page. The ring buffer with its two free-running 32-bit counters is an
  instance of the interface \<open>ring\<close>, which the input buffer of the console implements as well.

  A buffer in user memory is given by its bytes. \<open>pipealloc\<close> and the close of a pipe end through a
  file are in the theory of files.
\<close>

section \<open>Ring buffers with free-running counters\<close>

definition ring_contents :: "nat \<Rightarrow> (nat \<Rightarrow> 'b) \<Rightarrow> uint \<Rightarrow> uint \<Rightarrow> 'b list" where
  "ring_contents n buf r w = map (\<lambda>i. buf (unat (r + of_nat i) mod n)) [0..<unat (w - r)]"

locale ring =
  fixes n :: nat
  assumes n_pos: "0 < n" and n_dvd: "n dvd 4294967296" and n_small: "n < 4294967296"
begin

lemma slot: "i < n \<Longrightarrow> unat (r + of_nat i :: uint) mod n = (unat r + i) mod n"
  using n_small n_dvd by (simp add: unat_word_ariths mod_mod_cancel)

lemma slot_le:
  fixes r :: uint
  assumes "i \<le> j" "j < n" "unat (r + of_nat i) mod n = unat (r + of_nat j) mod n"
  shows "i = j"
proof -
  have "(unat r + j) mod n = (unat r + i) mod n" using assms by (simp add: slot)
  then have "n dvd (unat r + j) - (unat r + i)" using assms(1) by (simp add: mod_eq_dvd_iff_nat)
  then have "n dvd j - i" by simp
  then show ?thesis using assms(1,2) by (auto dest: dvd_imp_le)
qed

lemma slot_neq: "i < j \<Longrightarrow> j < n \<Longrightarrow> unat (r + of_nat i :: uint) mod n \<noteq> unat (r + of_nat j) mod n"
  using slot_le [of i j r] by auto

lemma ring_put:
  assumes "unat (w - r) < n"
  shows "ring_contents n (buf(unat w mod n := b)) r (w + 1) = ring_contents n buf r w @ [b]"
    "unat (w + 1 - r) = Suc (unat (w - r))"
proof -
  have "unat (w - r) + 1 < 4294967296" using assms n_small by simp
  then have "unat (w - r + 1) = Suc (unat (w - r))" by (simp add: unat_word_ariths)
  moreover have "w + 1 - r = w - r + 1" by simp
  ultimately show len: "unat (w + 1 - r) = Suc (unat (w - r))" by (simp only:)
  have w: "w = r + of_nat (unat (w - r))" by simp
  have "buf (unat (r + of_nat i) mod n) = (buf(unat w mod n := b)) (unat (r + of_nat i) mod n)" if "i < unat (w - r)" for i
    using slot_neq [OF that assms, of r] by simp
  then show "ring_contents n (buf(unat w mod n := b)) r (w + 1) = ring_contents n buf r w @ [b]"
    unfolding ring_contents_def len upt_Suc_append [OF le0] by simp
qed

lemma ring_get:
  fixes r w :: uint
  assumes "r \<noteq> w"
  shows "ring_contents n buf r w = buf (unat r mod n) # ring_contents n buf (r + 1) w"
    "unat (w - (r + 1)) = unat (w - r) - 1"
proof -
  have "w - r \<noteq> 0" using assms by simp
  then have "unat (w - r - 1) = unat (w - r) - 1" by (rule unat_minus_one)
  moreover have "w - (r + 1) = w - r - 1" by simp
  ultimately show len: "unat (w - (r + 1)) = unat (w - r) - 1" by (simp only:)
  have "0 < unat (w - r)" using \<open>w - r \<noteq> 0\<close> by (simp add: unat_gt_0)
  then have "[0..<unat (w - r)] = 0 # map Suc [0..<unat (w - r) - 1]"
    by (cases "unat (w - r)") (simp_all add: map_Suc_upt upt_conv_Cons del: upt_Suc)
  then show "ring_contents n buf r w = buf (unat r mod n) # ring_contents n buf (r + 1) w"
    unfolding ring_contents_def len by (simp add: add.assoc)
qed

lemma ring_length: "length (ring_contents n buf r w) = unat (w - r)"
  by (simp add: ring_contents_def)

end

interpretation pipe_ring: ring 512
  by unfold_locales simp_all

section \<open>Pipes\<close>

definition PIPESIZE :: uint where
  "PIPESIZE = 512"

record pipe =
  pp_data :: "nat \<Rightarrow> u8"
  pp_nread :: uint
  pp_nwrite :: uint
  pp_readopen :: bool
  pp_writeopen :: bool

record pstate = ptable +
  pipes :: "uint \<Rightarrow> pipe"

definition upd_pipe :: "uint \<Rightarrow> (pipe \<Rightarrow> pipe) \<Rightarrow> ('z pstate_scheme, unit) km" where
  "upd_pipe p f = kmod (\<lambda>s. s\<lparr>pipes := (pipes s)(p := f (pipes s p))\<rparr>)"

text \<open>The structure as \<open>pipealloc\<close> sets it up in a new page, whose old contents stay in \<open>data\<close>.\<close>

definition pipe_init :: "uint \<Rightarrow> ('z pstate_scheme, unit) km" where
  "pipe_init p = kdo [
     upd_pipe p (\<lambda>x. x\<lparr>pp_readopen := True\<rparr>),
     upd_pipe p (\<lambda>x. x\<lparr>pp_writeopen := True\<rparr>),
     upd_pipe p (\<lambda>x. x\<lparr>pp_nwrite := 0\<rparr>),
     upd_pipe p (\<lambda>x. x\<lparr>pp_nread := 0\<rparr>),
     kmod (\<lambda>s. s\<lparr>owner := (owner s)(PipeLock p := None)\<rparr>)]"

definition pipeclose :: "uint \<Rightarrow> bool \<Rightarrow> ('z pstate_scheme, unit) km" where
  "pipeclose p writable = kdo [
     acquire_lk (PipeLock p),
     (if writable then kdo [upd_pipe p (\<lambda>x. x\<lparr>pp_writeopen := False\<rparr>), wakeup (PipeRead p)]
      else kdo [upd_pipe p (\<lambda>x. x\<lparr>pp_readopen := False\<rparr>), wakeup (PipeWrite p)]),
     kbind (kget (\<lambda>s. pipes s p)) (\<lambda>x.
       if \<not> pp_readopen x \<and> \<not> pp_writeopen x
       then kdo [release_lk (PipeLock p), kfree p]
       else release_lk (PipeLock p))]"

text \<open>
  The loop of \<open>pipewrite\<close> over the bytes still to be written. It sleeps when the buffer is full;
  \<open>pipewrite_resume\<close> is what runs when the process is dispatched again.
\<close>

definition cur_killed :: "('z ptable_scheme, bool) km" where
  "cur_killed = kbind curproc (\<lambda>p. the_proc p p_killed)"

fun pipewrite_loop :: "uint \<Rightarrow> u8 list \<Rightarrow> int \<Rightarrow> ('z pstate_scheme, int) km" where
  "pipewrite_loop p [] n = kdo2 [wakeup (PipeRead p), release_lk (PipeLock p)] (kret n)"
| "pipewrite_loop p (b # bs) n = kbind (kget (\<lambda>s. pipes s p)) (\<lambda>x.
     if pp_nwrite x = pp_nread x + PIPESIZE then
       kbind (if \<not> pp_readopen x then kret True else cur_killed) (\<lambda>stop.
         if stop then kdo2 [release_lk (PipeLock p)] (kret (- 1))
         else kdo2 [wakeup (PipeRead p), sleep (PipeWrite p) (Some (PipeLock p))] (kret 0))
     else kthen
       (upd_pipe p (\<lambda>x. x\<lparr>pp_data := (pp_data x)(unat (pp_nwrite x) mod 512 := b), pp_nwrite := pp_nwrite x + 1\<rparr>))
       (pipewrite_loop p bs n))"

definition pipewrite :: "uint \<Rightarrow> u8 list \<Rightarrow> int \<Rightarrow> ('z pstate_scheme, int) km" where
  "pipewrite p addr n = kthen (acquire_lk (PipeLock p)) (pipewrite_loop p (take (nat n) addr) n)"

definition pipewrite_resume :: "uint \<Rightarrow> u8 list \<Rightarrow> int \<Rightarrow> ('z pstate_scheme, int) km" where
  "pipewrite_resume p bs n = kthen (sleep_tail (PipeLock p)) (pipewrite_loop p bs n)"

text \<open>\<open>piperead\<close>: the copying loop returns the bytes stored through \<open>addr\<close>.\<close>

fun piperead_copy :: "uint \<Rightarrow> nat \<Rightarrow> ('z pstate_scheme, u8 list) km" where
  "piperead_copy p 0 = kret []"
| "piperead_copy p (Suc k) = kbind (kget (\<lambda>s. pipes s p)) (\<lambda>x.
     if pp_nread x = pp_nwrite x then kret []
     else kthen (upd_pipe p (\<lambda>x. x\<lparr>pp_nread := pp_nread x + 1\<rparr>))
       (kbind (piperead_copy p k) (\<lambda>bs. kret (pp_data x (unat (pp_nread x) mod 512) # bs))))"

definition piperead_loop :: "uint \<Rightarrow> int \<Rightarrow> ('z pstate_scheme, int \<times> u8 list) km" where
  "piperead_loop p n = kbind (kget (\<lambda>s. pipes s p)) (\<lambda>x.
     if pp_nread x = pp_nwrite x \<and> pp_writeopen x then
       kbind cur_killed (\<lambda>k.
         if k then kdo2 [release_lk (PipeLock p)] (kret (- 1, []))
         else kdo2 [sleep (PipeRead p) (Some (PipeLock p))] (kret (0, [])))
     else kbind (piperead_copy p (nat n)) (\<lambda>bs.
       kdo2 [wakeup (PipeWrite p), release_lk (PipeLock p)] (kret (int (length bs), bs))))"

definition piperead :: "uint \<Rightarrow> int \<Rightarrow> ('z pstate_scheme, int \<times> u8 list) km" where
  "piperead p n = kthen (acquire_lk (PipeLock p)) (piperead_loop p n)"

definition piperead_resume :: "uint \<Rightarrow> int \<Rightarrow> ('z pstate_scheme, int \<times> u8 list) km" where
  "piperead_resume p n = kthen (sleep_tail (PipeLock p)) (piperead_loop p n)"

section \<open>The bytes in a pipe\<close>

definition pipe_ok :: "pipe \<Rightarrow> bool" where
  "pipe_ok x \<longleftrightarrow> unat (pp_nwrite x - pp_nread x) \<le> 512"

definition contents :: "pipe \<Rightarrow> u8 list" where
  "contents x = ring_contents 512 (pp_data x) (pp_nread x) (pp_nwrite x)"

definition same_ends :: "pipe \<Rightarrow> pipe \<Rightarrow> bool" where
  "same_ends x y \<longleftrightarrow> pp_readopen x = pp_readopen y \<and> pp_writeopen x = pp_writeopen y"

lemma contents_length: "length (contents x) = unat (pp_nwrite x - pp_nread x)"
  by (simp add: contents_def pipe_ring.ring_length)

lemma contents_full: "pipe_ok x \<Longrightarrow> pp_nwrite x = pp_nread x + PIPESIZE \<longleftrightarrow> length (contents x) = 512"
proof -
  have "pp_nwrite x = pp_nread x + PIPESIZE \<longleftrightarrow> pp_nwrite x - pp_nread x = 512" by (auto simp: PIPESIZE_def algebra_simps)
  also have "\<dots> \<longleftrightarrow> unat (pp_nwrite x - pp_nread x) = 512" by (simp add: word_unat_eq_iff)
  finally show ?thesis by (simp add: contents_length)
qed

lemma contents_empty: "pp_nread x = pp_nwrite x \<longleftrightarrow> contents x = []"
proof -
  have "pp_nread x = pp_nwrite x \<longleftrightarrow> unat (pp_nwrite x - pp_nread x) = 0" by (auto simp: unat_eq_0)
  then show ?thesis by (simp flip: contents_length)
qed

definition with_pipe :: "uint \<Rightarrow> pipe \<Rightarrow> 'z pstate_scheme \<Rightarrow> 'z pstate_scheme" where
  "with_pipe p x s = s\<lparr>pipes := (pipes s)(p := x)\<rparr>"

lemma with_pipe [simp]:
  "pipes (with_pipe p x s) p = x" "with_pipe p y (with_pipe p x s) = with_pipe p y s"
  "with_pipe p (pipes s p) s = s" "owner (with_pipe p x s) = owner s" "ncli (with_pipe p x s) = ncli s"
  "cpuid (with_pipe p x s) = cpuid s" "cproc (with_pipe p x s) = cproc s" "procs (with_pipe p x s) = procs s"
  "table_ok (with_pipe p x s) R F = table_ok s R F"
  by (simp_all add: with_pipe_def table_ok_def lists_rep_def nexts_def)

lemma upd_pipe_run: "upd_pipe p f s = Ret () (with_pipe p (f (pipes s p)) s)"
  by (simp add: upd_pipe_def with_pipe_def kmonad)

lemma pipewrite_copy:
  assumes "pipe_ok (pipes s p)" "length (contents (pipes s p)) + length bs \<le> 512"
  shows "\<exists>x. pipewrite_loop p (bs @ bs') n s = pipewrite_loop p bs' n (with_pipe p x s)
    \<and> contents x = contents (pipes s p) @ bs \<and> pipe_ok x \<and> same_ends x (pipes s p)"
  using assms
proof (induction bs arbitrary: s)
  case Nil
  then show ?case by (intro exI [of _ "pipes s p"]) (simp add: same_ends_def)
next
  case (Cons b bs)
  let ?x = "pipes s p"
  let ?y = "?x\<lparr>pp_data := (pp_data ?x)(unat (pp_nwrite ?x) mod 512 := b), pp_nwrite := pp_nwrite ?x + 1\<rparr>"
  let ?t = "with_pipe p ?y s"
  have room: "unat (pp_nwrite ?x - pp_nread ?x) < 512" using Cons.prems(2) by (simp add: contents_length)
  then have nf: "pp_nwrite ?x \<noteq> pp_nread ?x + PIPESIZE" using contents_full [OF Cons.prems(1)] by (simp add: contents_length)
  note put = pipe_ring.ring_put [OF room]
  have y: "contents ?y = contents ?x @ [b]" "pipe_ok ?y"
    using put room by (simp_all add: contents_def pipe_ok_def)
  have run: "pipewrite_loop p ((b # bs) @ bs') n s = pipewrite_loop p (bs @ bs') n ?t"
    using nf by (simp add: kmonad upd_pipe_run)
  have pt: "pipes ?t p = ?y" by simp
  have "\<exists>x. pipewrite_loop p (bs @ bs') n ?t = pipewrite_loop p bs' n (with_pipe p x ?t)
    \<and> contents x = contents (pipes ?t p) @ bs \<and> pipe_ok x \<and> same_ends x (pipes ?t p)"
    by (rule Cons.IH) (use y Cons.prems(2) in \<open>simp_all only: pt, simp_all\<close>)
  then obtain z where "pipewrite_loop p (bs @ bs') n ?t = pipewrite_loop p bs' n (with_pipe p z ?t)"
    "contents z = contents ?y @ bs" "pipe_ok z" "same_ends z ?y" unfolding pt by blast
  then show ?case unfolding run using y(1) by (intro exI [of _ z]) (simp add: same_ends_def)
qed

lemma piperead_copy_run:
  assumes "pipe_ok (pipes s p)"
  shows "\<exists>x. piperead_copy p k s = Ret (take k (contents (pipes s p))) (with_pipe p x s)
    \<and> contents x = drop k (contents (pipes s p)) \<and> pipe_ok x \<and> same_ends x (pipes s p)"
  using assms
proof (induction k arbitrary: s)
  case 0
  then show ?case by (intro exI [of _ "pipes s p"]) (simp add: same_ends_def kmonad)
next
  case (Suc k)
  let ?x = "pipes s p"
  show ?case
  proof (cases "pp_nread ?x = pp_nwrite ?x")
    case True
    then have "contents ?x = []" by (simp add: contents_empty)
    with True Suc.prems show ?thesis by (intro exI [of _ ?x]) (simp add: same_ends_def kmonad)
  next
    case False
    let ?y = "?x\<lparr>pp_nread := pp_nread ?x + 1\<rparr>"
    let ?t = "with_pipe p ?y s"
    note get = pipe_ring.ring_get [OF False]
    have c: "contents ?x = pp_data ?x (unat (pp_nread ?x) mod 512) # contents ?y" using get(1) by (simp add: contents_def)
    have ok: "pipe_ok ?y" using Suc.prems get(2) by (simp add: pipe_ok_def)
    have pt: "pipes ?t p = ?y" by simp
    have "\<exists>x. piperead_copy p k ?t = Ret (take k (contents (pipes ?t p))) (with_pipe p x ?t)
      \<and> contents x = drop k (contents (pipes ?t p)) \<and> pipe_ok x \<and> same_ends x (pipes ?t p)"
      by (rule Suc.IH) (simp only: pt ok)
    then obtain z where z: "piperead_copy p k ?t = Ret (take k (contents ?y)) (with_pipe p z ?t)"
      "contents z = drop k (contents ?y)" "pipe_ok z" "same_ends z ?y" unfolding pt by blast
    have "piperead_copy p (Suc k) s = Ret (take (Suc k) (contents ?x)) (with_pipe p z s)"
      using False z(1) c by (simp add: kmonad upd_pipe_run)
    with z(2-4) c show ?thesis by (intro exI [of _ z]) (simp add: same_ends_def del: piperead_copy.simps)
  qed
qed

section \<open>Reading and writing\<close>

lemma only_states_pipes: "only_states s s' \<Longrightarrow> pipes s' = pipes s"
proof -
  assume "only_states s s'"
  then obtain P R F where "s' = s\<lparr>procs := P, pReadyList := R, pFreeList := F\<rparr>" unfolding only_states_def by blast
  then show ?thesis by simp
qed

lemma lock_dropped_locks: "owner (lock_dropped l s) = (owner s)(l := None)"
  "ncli (lock_dropped l s) = (ncli s)(cpuid s := ncli s (cpuid s) - 1)"
  by (simp_all add: lock_dropped_def)

lemma lock_dropped_pipes [simp]: "pipes (lock_dropped l s) = pipes s"
  by (simp add: lock_dropped_def)

text \<open>The state of the process table around a call of a pipe routine.\<close>

definition pipe_env :: "uint \<Rightarrow> nat \<Rightarrow> 'z pstate_scheme \<Rightarrow> bool" where
  "pipe_env p q s \<longleftrightarrow> (\<exists>R F. table_ok s R F) \<and> cproc s (cpuid s) = Some q \<and> q < NPROC
     \<and> p_state (procs s q) = RUNNING \<and> owner s (PipeLock p) = None \<and> owner s PtableLock = None \<and> ncli s (cpuid s) = 0"

lemma wakeup_release:
  assumes ok: "table_ok s R F" and own: "owner s (PipeLock p) = Some (cpuid s)" "owner s PtableLock = None" "ncli s (cpuid s) = 1"
    and cur: "cproc s (cpuid s) = Some q" "q < NPROC" "p_state (procs s q) = RUNNING"
  shows "\<exists>s'. kdo2 [wakeup ch, release_lk (PipeLock p)] (kret v) s = Ret v s' \<and> pipes s' = pipes s \<and> pipe_env p q s'
    \<and> (\<forall>r < NPROC. p_state (procs s' r) =
        (if p_state (procs s r) = SLEEPING \<and> p_chan (procs s r) = ch then RUNNABLE else p_state (procs s r)))
    \<and> (\<forall>r. p_killed (procs s' r) = p_killed (procs s r))"
proof -
  have "lock_free PtableLock s" using own by (simp add: lock_free_def)
  from wakeup_run [OF ok this, of ch] obtain t R' where t: "wakeup ch s = Ret () t" "table_ok t R' F" "only_states s t"
    "\<forall>r < NPROC. p_state (procs t r) =
        (if p_state (procs s r) = SLEEPING \<and> p_chan (procs s r) = ch then RUNNABLE else p_state (procs s r))" by blast
  note k = only_states_kernel [OF t(3)]
  have rel: "release_lk (PipeLock p) t = Ret () (lock_dropped (PipeLock p) t)"
    by (rule release_dropped) (use own k in auto)
  have "pipe_env p q (lock_dropped (PipeLock p) t)"
    using t(2,4) own cur k by (auto simp: pipe_env_def lock_dropped_locks)
  moreover have "pipes (lock_dropped (PipeLock p) t) = pipes s"
    using only_states_pipes [OF t(3)] by (simp add: lock_dropped_def)
  ultimately show ?thesis using t(1,4) rel only_states_proc(5) [OF t(3)]
    by (intro exI [of _ "lock_dropped (PipeLock p) t"]) (simp add: kmonad)
qed

lemma acquire_pipe:
  assumes "pipe_env p q s"
  shows "acquire_lk (PipeLock p) s = Ret () (lock_taken (PipeLock p) s)"
    "pipes (lock_taken (PipeLock p) s) = pipes s"
  using assms by (simp_all add: pipe_env_def acquire_lk_eq_Ret lock_taken_def)

lemma cur_killed_run: "cproc s (cpuid s) = Some q \<Longrightarrow> cur_killed s = Ret (p_killed (procs s q)) s"
  by (simp add: cur_killed_def kmonad curproc_run the_proc_def)

text \<open>What a writer finds when it stops: everything written, the pipe full and broken, or asleep.\<close>

lemma pipewrite_run:
  assumes env: "pipe_env p q s" and ok: "pipe_ok (pipes s p)" and n: "n = int (length bs)"
  defines "c \<equiv> contents (pipes s p)"
  shows "length c + length bs \<le> 512 \<Longrightarrow>
      \<exists>s'. pipewrite p bs n s = Ret n s' \<and> contents (pipes s' p) = c @ bs \<and> pipe_ok (pipes s' p)
        \<and> same_ends (pipes s' p) (pipes s p) \<and> pipe_env p q s'
        \<and> (\<forall>r < NPROC. p_state (procs s r) = SLEEPING \<longrightarrow> p_chan (procs s r) = PipeRead p \<longrightarrow> p_state (procs s' r) = RUNNABLE)"
    "512 < length c + length bs \<Longrightarrow> pp_readopen (pipes s p) \<and> \<not> p_killed (procs s q) \<Longrightarrow>
      \<exists>s'. pipewrite p bs n s = Sleeps s' \<and> contents (pipes s' p) = c @ take (512 - length c) bs \<and> pipe_ok (pipes s' p)
        \<and> owner s' (PipeLock p) = None \<and> p_state (procs s' q) = SLEEPING \<and> p_chan (procs s' q) = PipeWrite p"
    "512 < length c + length bs \<Longrightarrow> \<not> (pp_readopen (pipes s p) \<and> \<not> p_killed (procs s q)) \<Longrightarrow>
      \<exists>s'. pipewrite p bs n s = Ret (- 1) s' \<and> contents (pipes s' p) = c @ take (512 - length c) bs \<and> pipe_ok (pipes s' p)
        \<and> owner s' (PipeLock p) = None"
proof -
  let ?l = "lock_taken (PipeLock p) s"
  have pl: "pipes ?l = pipes s" by (simp add: lock_taken_def)
  obtain R F where tab: "table_ok ?l R F" using env by (auto simp: pipe_env_def)
  have cur: "cproc s (cpuid s) = Some q" "q < NPROC" "p_state (procs s q) = RUNNING" "owner s PtableLock = None" "ncli s (cpuid s) = 0"
    using env by (auto simp: pipe_env_def)
  have run: "pipewrite p bs n s = pipewrite_loop p bs n ?l"
    using acquire_pipe(1) [OF env] by (simp add: pipewrite_def kmonad n)
  {
    assume "length c + length bs \<le> 512"
    then obtain x where x: "pipewrite_loop p (bs @ []) n ?l = pipewrite_loop p [] n (with_pipe p x ?l)"
      "contents x = c @ bs" "pipe_ok x" "same_ends x (pipes s p)"
      using pipewrite_copy [of ?l p bs "[]" n] ok by (auto simp: pl c_def)
    let ?w = "with_pipe p x ?l"
    have tw: "table_ok ?w R F" using tab by simp
    have "\<exists>s'. kdo2 [wakeup (PipeRead p), release_lk (PipeLock p)] (kret n) ?w = Ret n s' \<and> pipes s' = pipes ?w \<and> pipe_env p q s'
      \<and> (\<forall>r < NPROC. p_state (procs s' r) =
          (if p_state (procs ?w r) = SLEEPING \<and> p_chan (procs ?w r) = PipeRead p then RUNNABLE else p_state (procs ?w r)))
      \<and> (\<forall>r. p_killed (procs s' r) = p_killed (procs ?w r))"
      by (rule wakeup_release [OF tw]) (use cur in auto)
    then obtain s' where s': "kdo2 [wakeup (PipeRead p), release_lk (PipeLock p)] (kret n) ?w = Ret n s'" "pipes s' = pipes ?w"
      "pipe_env p q s'" "\<forall>r < NPROC. p_state (procs s' r) =
          (if p_state (procs s r) = SLEEPING \<and> p_chan (procs s r) = PipeRead p then RUNNABLE else p_state (procs s r))" by auto
    then show "\<exists>s'. pipewrite p bs n s = Ret n s' \<and> contents (pipes s' p) = c @ bs \<and> pipe_ok (pipes s' p)
        \<and> same_ends (pipes s' p) (pipes s p) \<and> pipe_env p q s'
        \<and> (\<forall>r < NPROC. p_state (procs s r) = SLEEPING \<longrightarrow> p_chan (procs s r) = PipeRead p \<longrightarrow> p_state (procs s' r) = RUNNABLE)"
      using x by (intro exI [of _ s']) (simp add: run)
  }
  {
    assume big: "512 < length c + length bs"
    let ?k = "512 - length c"
    have c512: "length c \<le> 512" using ok by (simp add: c_def contents_length pipe_ok_def)
    have fits: "length c + length (take ?k bs) \<le> 512" using c512 by simp
    obtain x where x: "pipewrite_loop p (take ?k bs @ drop ?k bs) n ?l = pipewrite_loop p (drop ?k bs) n (with_pipe p x ?l)"
      "contents x = c @ take ?k bs" "pipe_ok x" "same_ends x (pipes s p)"
      using pipewrite_copy [of ?l p "take ?k bs" "drop ?k bs" n] ok fits unfolding pl c_def by blast
    let ?w = "with_pipe p x ?l"
    have "length (contents x) = 512" using x(2) big c512 by simp
    then have full: "pp_nwrite x = pp_nread x + PIPESIZE" using contents_full [OF x(3)] by simp
    obtain b bs' where d: "drop ?k bs = b # bs'" using big c512 by (cases "drop ?k bs") auto
    have cw: "cur_killed ?w = Ret (p_killed (procs s q)) ?w" using cur_killed_run [of ?w q] cur(1) by simp
    have ends: "pp_readopen x = pp_readopen (pipes s p)" using x(4) by (simp add: same_ends_def)
    have loop: "pipewrite p bs n s = (if pp_readopen (pipes s p) \<and> \<not> p_killed (procs s q)
        then kdo2 [wakeup (PipeRead p), sleep (PipeWrite p) (Some (PipeLock p))] (kret 0) ?w
        else kdo2 [release_lk (PipeLock p)] (kret (- 1)) ?w)"
    proof -
      have "pipewrite_loop p bs n ?l = pipewrite_loop p (b # bs') n ?w" using x(1) d by (metis append_take_drop_id)
      also have "\<dots> = kbind (if \<not> pp_readopen (pipes s p) then kret True else cur_killed) (\<lambda>stop.
         if stop then kdo2 [release_lk (PipeLock p)] (kret (- 1))
         else kdo2 [wakeup (PipeRead p), sleep (PipeWrite p) (Some (PipeLock p))] (kret 0)) ?w"
        using full by (simp add: kmonad ends)
      finally show ?thesis using cw unfolding run by (cases "pp_readopen (pipes s p)") (simp_all add: kmonad)
    qed
    {
      assume go: "pp_readopen (pipes s p) \<and> \<not> p_killed (procs s q)"
      show "\<exists>s'. pipewrite p bs n s = Sleeps s' \<and> contents (pipes s' p) = c @ take ?k bs \<and> pipe_ok (pipes s' p)
        \<and> owner s' (PipeLock p) = None \<and> p_state (procs s' q) = SLEEPING \<and> p_chan (procs s' q) = PipeWrite p"
      proof -
        have "lock_free PtableLock ?w" using cur by (simp add: lock_free_def)
        moreover have "table_ok ?w R F" using tab by simp
        ultimately obtain t where t: "wakeup (PipeRead p) ?w = Ret () t" "only_states ?w t"
          using wakeup_run [of ?w R F "PipeRead p"] by blast
        note k = only_states_kernel [OF t(2)]
        have "sleep (PipeWrite p) (Some (PipeLock p)) t = Sleeps ((lock_dropped (PipeLock p) (lock_taken PtableLock t))
            \<lparr>procs := (procs t)(q := (procs t q)\<lparr>p_chan := PipeWrite p, p_state := SLEEPING\<rparr>)\<rparr>)" (is "_ = Sleeps ?u")
          by (rule sleep_run) (use k cur in auto)
        then have "pipewrite p bs n s = Sleeps ?u" using loop go t(1) by (simp add: kmonad)
        moreover have "pipes ?u p = x" using only_states_pipes [OF t(2)] by (simp add: lock_dropped_def lock_taken_def)
        ultimately show ?thesis using x(2,3) by (intro exI [of _ ?u]) (simp add: lock_dropped_locks)
      qed
    next
      assume "\<not> (pp_readopen (pipes s p) \<and> \<not> p_killed (procs s q))"
      moreover have "release_lk (PipeLock p) ?w = Ret () (lock_dropped (PipeLock p) ?w)"
        by (rule release_dropped) (use cur in auto)
      ultimately show "\<exists>s'. pipewrite p bs n s = Ret (- 1) s' \<and> contents (pipes s' p) = c @ take ?k bs \<and> pipe_ok (pipes s' p)
        \<and> owner s' (PipeLock p) = None"
        using x(2,3) by (intro exI [of _ "lock_dropped (PipeLock p) ?w"]) (auto simp: loop kmonad lock_dropped_locks)
    }
  }
qed

lemma piperead_run:
  assumes env: "pipe_env p q s" and ok: "pipe_ok (pipes s p)" and "contents (pipes s p) \<noteq> [] \<or> \<not> pp_writeopen (pipes s p)"
  defines "c \<equiv> contents (pipes s p)"
  shows "\<exists>s'. piperead p n s = Ret (int (length (take (nat n) c)), take (nat n) c) s' \<and> contents (pipes s' p) = drop (nat n) c
      \<and> pipe_ok (pipes s' p) \<and> same_ends (pipes s' p) (pipes s p) \<and> pipe_env p q s'
      \<and> (\<forall>r < NPROC. p_state (procs s r) = SLEEPING \<longrightarrow> p_chan (procs s r) = PipeWrite p \<longrightarrow> p_state (procs s' r) = RUNNABLE)"
proof -
  let ?l = "lock_taken (PipeLock p) s"
  have pl: "pipes ?l = pipes s" by (simp add: lock_taken_def)
  obtain R F where tab: "table_ok ?l R F" using env by (auto simp: pipe_env_def)
  have cur: "cproc s (cpuid s) = Some q" "q < NPROC" "p_state (procs s q) = RUNNING" "owner s PtableLock = None" "ncli s (cpuid s) = 0"
    using env by (auto simp: pipe_env_def)
  have go: "\<not> (pp_nread (pipes s p) = pp_nwrite (pipes s p) \<and> pp_writeopen (pipes s p))"
    using assms(3) by (auto simp: contents_empty)
  obtain x where x: "piperead_copy p (nat n) ?l = Ret (take (nat n) c) (with_pipe p x ?l)" "contents x = drop (nat n) c"
    "pipe_ok x" "same_ends x (pipes s p)" using piperead_copy_run [of ?l p "nat n"] ok unfolding pl c_def by blast
  let ?w = "with_pipe p x ?l" and ?v = "(int (length (take (nat n) c)), take (nat n) c)"
  have run: "piperead p n s = kdo2 [wakeup (PipeWrite p), release_lk (PipeLock p)] (kret ?v) ?w"
    using acquire_pipe(1) [OF env] go x(1) by (auto simp: piperead_def piperead_loop_def kmonad pl)
  have tw: "table_ok ?w R F" using tab by simp
  have "\<exists>s'. kdo2 [wakeup (PipeWrite p), release_lk (PipeLock p)] (kret ?v) ?w = Ret ?v s' \<and> pipes s' = pipes ?w \<and> pipe_env p q s'
      \<and> (\<forall>r < NPROC. p_state (procs s' r) =
          (if p_state (procs ?w r) = SLEEPING \<and> p_chan (procs ?w r) = PipeWrite p then RUNNABLE else p_state (procs ?w r)))
      \<and> (\<forall>r. p_killed (procs s' r) = p_killed (procs ?w r))"
    by (rule wakeup_release [OF tw]) (use cur in auto)
  then obtain s' where s': "kdo2 [wakeup (PipeWrite p), release_lk (PipeLock p)] (kret ?v) ?w = Ret ?v s'" "pipes s' = pipes ?w"
    "pipe_env p q s'" "\<forall>r < NPROC. p_state (procs s' r) =
          (if p_state (procs s r) = SLEEPING \<and> p_chan (procs s r) = PipeWrite p then RUNNABLE else p_state (procs s r))" by auto
  then show ?thesis using x(2-4) run by (intro exI [of _ s']) simp
qed

section \<open>Properties\<close>

text \<open>A state for the witnesses: process 0 runs, and the counters of an empty pipe are about to wrap.\<close>

definition pipe_demo :: pstate where
  "pipe_demo = \<lparr>owner = (\<lambda>_. None), ncli = (\<lambda>_. 0), cpuid = 0, printed = [], devices = boot_hw, mem = (\<lambda>_. 0), freelist = 0,
     use_lock = True, kend = 0x80200000, kdata = 0x80108000,
     procs = (\<lambda>p. zero_proc\<lparr>p_state := (if p = 0 then RUNNING else SLEEPING), p_priority := 1,
       p_pgdir := 0x80300000, p_pid := int p + 1, p_chan := (if p = 0 then CNull else TicksChan)\<rparr>),
     pReadyList = (\<lambda>_. None), pFreeList = None, TimeToReset = 0, initproc = None, nextpid = 100,
     cproc = (\<lambda>_. None)(0 := Some 0), cr3 = (\<lambda>_. 0), esp0 = (\<lambda>_. 0), kpgdir = 0, forkret_at = 0x80103000, ticks = 0,
     pipes = (\<lambda>_. \<lparr>pp_data = (\<lambda>_. 0), pp_nread = 0xFFFFFFFE, pp_nwrite = 0xFFFFFFFE, pp_readopen = True,
       pp_writeopen = True\<rparr>)\<rparr>"

lemma pipe_demo_env: "pipe_env p 0 pipe_demo" "pipe_ok (pipes pipe_demo p)" "contents (pipes pipe_demo p) = []"
proof -
  have "lists_rep pipe_demo (\<lambda>_. []) []"
    by (simp add: lists_rep_def links_ok_def pipe_demo_def)
  then have "table_ok pipe_demo (\<lambda>_. []) []" by (auto simp: table_ok_def pipe_demo_def)
  then show "pipe_env p 0 pipe_demo" by (auto simp: pipe_env_def pipe_demo_def NPROC_def)
  show "pipe_ok (pipes pipe_demo p)" "contents (pipes pipe_demo p) = []"
    by (simp_all add: pipe_demo_def pipe_ok_def contents_def ring_contents_def)
qed

text \<open>\<open>pipewrite\<close> of \<open>n\<close> bytes to a pipe with contents \<open>c\<close>, the counters wrapping or not: when they fit,
  they are appended in order, \<open>n\<close> is returned and every reader asleep on the pipe is runnable; when
  they do not fit, exactly the bytes that fill the buffer are appended, and the writer sleeps until a
  reader makes room, with the lock released, or returns -1 when nobody can read or it was killed.\<close>

theorem pipewrite_spec:
  assumes "pipe_env p q s" "pipe_ok (pipes s p)"
  shows "let c = contents (pipes s p); k = 512 - length c in
    if length c + length bs \<le> 512 then
      \<exists>s'. pipewrite p bs (int (length bs)) s = Ret (int (length bs)) s' \<and> contents (pipes s' p) = c @ bs \<and> pipe_ok (pipes s' p)
        \<and> (\<forall>r < NPROC. p_state (procs s r) = SLEEPING \<longrightarrow> p_chan (procs s r) = PipeRead p \<longrightarrow> p_state (procs s' r) = RUNNABLE)
    else if pp_readopen (pipes s p) \<and> \<not> p_killed (procs s q) then
      \<exists>s'. pipewrite p bs (int (length bs)) s = Sleeps s' \<and> contents (pipes s' p) = c @ take k bs \<and> pipe_ok (pipes s' p)
        \<and> owner s' (PipeLock p) = None \<and> p_state (procs s' q) = SLEEPING \<and> p_chan (procs s' q) = PipeWrite p
    else \<exists>s'. pipewrite p bs (int (length bs)) s = Ret (- 1) s' \<and> contents (pipes s' p) = c @ take k bs \<and> pipe_ok (pipes s' p)
        \<and> owner s' (PipeLock p) = None"
  using pipewrite_run [OF assms refl, of bs] unfolding Let_def by (simp; blast)

theorem pipewrite_spec_witness:
  "\<exists>s'. pipewrite 0x80300000 [1, 2, 3] 3 pipe_demo = Ret 3 s' \<and> contents (pipes s' 0x80300000) = [1, 2, 3]"
  using pipewrite_spec [OF pipe_demo_env(1,2), of "0x80300000" "[1, 2, 3]"] pipe_demo_env(3) by auto



end
