(* ===== verification/Bio.thy ===== *)
theory Bio
  imports Pipe
begin

text \<open>
  The buffer cache (\<open>bio.c\<close>, \<open>buf.h\<close>) on the memory disk (\<open>memide.c\<close>), the disk driver that needs no
  interrupts. The buffers are linked in a ring through \<open>prev\<close> and \<open>next\<close>, headed by the buffer with
  number \<open>NBUF\<close>; the flags of a buffer are three booleans.

  The disk is its initial image together with the sequence of block writes since boot, newest first:
  a block reads as the last write to it. The states a power failure can leave behind are those of
  the shorter sequences.
\<close>

section \<open>Buffers and the disk\<close>

definition BSIZE :: nat where
  "BSIZE = 512"

definition NBUF :: nat where
  "NBUF = 30"

type_synonym block = "u8 list"

record buf =
  b_busy :: bool
  b_valid :: bool
  b_dirty :: bool
  b_dev :: uint
  b_blockno :: uint
  b_prev :: nat
  b_next :: nat
  b_qnext :: "nat option"
  b_data :: block

record bstate = pstate +
  bufs :: "nat \<Rightarrow> buf"
  disk0 :: "uint \<Rightarrow> block"
  dwrites :: "(uint \<times> block) list"
  disksize :: uint
  idequeue :: "nat option"
  havedisk1 :: bool
  boot_disk :: "uint \<Rightarrow> block"

definition disk_after :: "(uint \<Rightarrow> block) \<Rightarrow> (uint \<times> block) list \<Rightarrow> uint \<Rightarrow> block" where
  "disk_after d ws b = (case map_of ws b of None \<Rightarrow> d b | Some x \<Rightarrow> x)"

definition disk :: "'z bstate_scheme \<Rightarrow> uint \<Rightarrow> block" where
  "disk s = disk_after (disk0 s) (dwrites s)"

definition upd_buf :: "nat \<Rightarrow> (buf \<Rightarrow> buf) \<Rightarrow> ('z bstate_scheme, unit) km" where
  "upd_buf b f = kmod (\<lambda>s. s\<lparr>bufs := (bufs s)(b := f (bufs s b))\<rparr>)"

definition the_buf :: "nat \<Rightarrow> (buf \<Rightarrow> 'a) \<Rightarrow> ('z bstate_scheme, 'a) km" where
  "the_buf b f = kget (\<lambda>s. f (bufs s b))"

text \<open>The memory disk: \<open>iderw\<close> copies one block.\<close>

definition iderw :: "nat \<Rightarrow> ('z bstate_scheme, unit) km" where
  "iderw b = kbind (the_buf b id) (\<lambda>x. kbind (kget disksize) (\<lambda>n.
     if \<not> b_busy x then kpanic ''iderw: buf not busy''
     else if b_valid x \<and> \<not> b_dirty x then kpanic ''iderw: nothing to do''
     else if b_dev x \<noteq> 1 then kpanic ''iderw: request not for disk 1''
     else if b_blockno x \<ge> n then kpanic ''iderw: block out of range''
     else kdo [
       (if b_dirty x then kdo [
          upd_buf b (\<lambda>x. x\<lparr>b_dirty := False\<rparr>),
          kmod (\<lambda>s. s\<lparr>dwrites := (b_blockno x, b_data x) # dwrites s\<rparr>)]
        else kbind (kget disk) (\<lambda>d. upd_buf b (\<lambda>x. x\<lparr>b_data := d (b_blockno x)\<rparr>))),
       upd_buf b (\<lambda>x. x\<lparr>b_valid := True\<rparr>)]))"

section \<open>The cache\<close>

definition binit_link :: "nat \<Rightarrow> ('z bstate_scheme, unit) km" where
  "binit_link b = kdo [
     kbind (the_buf NBUF b_next) (\<lambda>h. upd_buf b (\<lambda>x. x\<lparr>b_next := h\<rparr>)),
     upd_buf b (\<lambda>x. x\<lparr>b_prev := NBUF\<rparr>),
     upd_buf b (\<lambda>x. x\<lparr>b_dev := - 1\<rparr>),
     kbind (the_buf NBUF b_next) (\<lambda>h. upd_buf h (\<lambda>x. x\<lparr>b_prev := b\<rparr>)),
     upd_buf NBUF (\<lambda>x. x\<lparr>b_next := b\<rparr>)]"

definition binit :: "('z bstate_scheme, unit) km" where
  "binit = kdo [
     kmod (\<lambda>s. s\<lparr>owner := (owner s)(BcacheLock := None)\<rparr>),
     upd_buf NBUF (\<lambda>x. x\<lparr>b_prev := NBUF\<rparr>),
     upd_buf NBUF (\<lambda>x. x\<lparr>b_next := NBUF\<rparr>),
     kfor [0..<NBUF] binit_link]"

text \<open>The two searches of \<open>bget\<close>, along \<open>next\<close> and along \<open>prev\<close>, up to the head.\<close>

fun find_buf :: "nat \<Rightarrow> (nat \<Rightarrow> nat) \<Rightarrow> (nat \<Rightarrow> bool) \<Rightarrow> nat \<Rightarrow> stop + nat option" where
  "find_buf 0 step ok b = Inl (Hang ''bcache'')"
| "find_buf (Suc n) step ok b =
     (if b = NBUF then Inr None else if ok b then Inr (Some b) else find_buf n step ok (step b))"

definition scan_bufs :: "(buf \<Rightarrow> nat) \<Rightarrow> (buf \<Rightarrow> bool) \<Rightarrow> ('z bstate_scheme, nat option) km" where
  "scan_bufs step ok = kbind (kget (\<lambda>s. find_buf (Suc NBUF) (\<lambda>b. step (bufs s b)) (\<lambda>b. ok (bufs s b)) (step (bufs s NBUF))))
     (\<lambda>r. case r of Inl e \<Rightarrow> (\<lambda>s. Stop e) | Inr x \<Rightarrow> kret x)"

text \<open>The body of \<open>bget\<close> from the label \<open>loop\<close>, entered again after a sleep.\<close>

definition bget_loop :: "uint \<Rightarrow> uint \<Rightarrow> ('z bstate_scheme, nat) km" where
  "bget_loop dev blockno = kbind (scan_bufs b_next (\<lambda>x. b_dev x = dev \<and> b_blockno x = blockno)) (\<lambda>r. case r of
     Some b \<Rightarrow> kbind (the_buf b b_busy) (\<lambda>busy.
       if \<not> busy then kdo2 [upd_buf b (\<lambda>x. x\<lparr>b_busy := True\<rparr>), release_lk BcacheLock] (kret b)
       else kdo2 [sleep (BufChan b) (Some BcacheLock)] (kret b))
   | None \<Rightarrow> kbind (scan_bufs b_prev (\<lambda>x. \<not> b_busy x \<and> \<not> b_dirty x)) (\<lambda>r. case r of
       Some b \<Rightarrow> kdo2 [
         upd_buf b (\<lambda>x. x\<lparr>b_dev := dev\<rparr>),
         upd_buf b (\<lambda>x. x\<lparr>b_blockno := blockno\<rparr>),
         upd_buf b (\<lambda>x. x\<lparr>b_busy := True, b_valid := False, b_dirty := False\<rparr>),
         release_lk BcacheLock] (kret b)
     | None \<Rightarrow> kpanic ''bget: no buffers''))"

definition bget :: "uint \<Rightarrow> uint \<Rightarrow> ('z bstate_scheme, nat) km" where
  "bget dev blockno = kthen (acquire_lk BcacheLock) (bget_loop dev blockno)"

definition bget_resume :: "uint \<Rightarrow> uint \<Rightarrow> ('z bstate_scheme, nat) km" where
  "bget_resume dev blockno = kthen (sleep_tail BcacheLock) (bget_loop dev blockno)"

definition bread :: "uint \<Rightarrow> uint \<Rightarrow> ('z bstate_scheme, nat) km" where
  "bread dev blockno = kbind (bget dev blockno) (\<lambda>b. kbind (the_buf b b_valid) (\<lambda>v.
     kdo2 [if \<not> v then iderw b else kret ()] (kret b)))"

definition bwrite :: "nat \<Rightarrow> ('z bstate_scheme, unit) km" where
  "bwrite b = kbind (the_buf b b_busy) (\<lambda>busy.
     if \<not> busy then kpanic ''bwrite''
     else kdo [upd_buf b (\<lambda>x. x\<lparr>b_dirty := True\<rparr>), iderw b])"

definition brelse :: "nat \<Rightarrow> ('z bstate_scheme, unit) km" where
  "brelse b = kbind (the_buf b b_busy) (\<lambda>busy.
     if \<not> busy then kpanic ''brelse''
     else kdo [
       acquire_lk BcacheLock,
       kbind (the_buf b id) (\<lambda>x. upd_buf (b_next x) (\<lambda>y. y\<lparr>b_prev := b_prev x\<rparr>)),
       kbind (the_buf b id) (\<lambda>x. upd_buf (b_prev x) (\<lambda>y. y\<lparr>b_next := b_next x\<rparr>)),
       kbind (the_buf NBUF b_next) (\<lambda>h. upd_buf b (\<lambda>x. x\<lparr>b_next := h\<rparr>)),
       upd_buf b (\<lambda>x. x\<lparr>b_prev := NBUF\<rparr>),
       kbind (the_buf NBUF b_next) (\<lambda>h. upd_buf h (\<lambda>x. x\<lparr>b_prev := b\<rparr>)),
       upd_buf NBUF (\<lambda>x. x\<lparr>b_next := b\<rparr>),
       upd_buf b (\<lambda>x. x\<lparr>b_busy := False\<rparr>),
       wakeup (BufChan b),
       release_lk BcacheLock])"

section \<open>The ring of buffers\<close>

text \<open>\<open>dll nx pv a xs z\<close>: the nodes \<open>xs\<close> lie between \<open>a\<close> and \<open>z\<close>, linked in both directions.\<close>

fun dll :: "(nat \<Rightarrow> nat) \<Rightarrow> (nat \<Rightarrow> nat) \<Rightarrow> nat \<Rightarrow> nat list \<Rightarrow> nat \<Rightarrow> bool" where
  "dll nx pv a [] z \<longleftrightarrow> nx a = z \<and> pv z = a"
| "dll nx pv a (x # xs) z \<longleftrightarrow> nx a = x \<and> pv x = a \<and> dll nx pv x xs z"

lemma dll_append: "dll nx pv a (xs @ y # ys) z \<longleftrightarrow> dll nx pv a xs y \<and> dll nx pv y ys z"
  by (induction xs arbitrary: a) auto

lemma dll_cong:
  "(\<And>x. x = a \<or> x \<in> set xs \<Longrightarrow> nx' x = nx x) \<Longrightarrow> (\<And>x. x = z \<or> x \<in> set xs \<Longrightarrow> pv' x = pv x) \<Longrightarrow>
    dll nx' pv' a xs z = dll nx pv a xs z"
  by (induction xs arbitrary: a) auto

text \<open>Taking a node out, and putting one behind the head.\<close>

lemma dll_remove:
  assumes "dll nx pv h (xs @ b # ys) h" "distinct (h # xs @ b # ys)"
  shows "dll (nx(pv b := nx b)) (pv(nx b := pv b)) h (xs @ ys) h"
proof -
  have 1: "dll nx pv h xs b" and 2: "dll nx pv b ys h" using assms(1) by (auto simp: dll_append)
  show ?thesis
  proof (cases xs rule: rev_cases)
    case Nil
    then have p: "nx h = b" "pv b = h" using 1 by auto
    show ?thesis
    proof (cases ys)
      case Nil
      with \<open>xs = []\<close> p 2 assms(2) show ?thesis by auto
    next
      case (Cons y ys')
      then have q: "nx b = y" "dll nx pv y ys' h" using 2 by auto
      have "dll (nx(h := y)) (pv(y := h)) y ys' h = dll nx pv y ys' h"
        using assms(2) Cons by (intro dll_cong) auto
      with \<open>xs = []\<close> Cons p q show ?thesis by simp
    qed
  next
    case (snoc xs' x)
    then have p: "dll nx pv h xs' x" "nx x = b" "pv b = x" using 1 by (auto simp: dll_append)
    show ?thesis
    proof (cases ys)
      case Nil
      then have q: "nx b = h" using 2 by auto
      have "dll (nx(x := h)) (pv(h := x)) h xs' x = dll nx pv h xs' x"
        using assms(2) snoc by (intro dll_cong) auto
      with Nil snoc p q show ?thesis by (simp add: dll_append)
    next
      case (Cons y ys')
      then have q: "nx b = y" "dll nx pv y ys' h" using 2 by auto
      have "dll (nx(x := y)) (pv(y := x)) h xs' x = dll nx pv h xs' x"
        "dll (nx(x := y)) (pv(y := x)) y ys' h = dll nx pv y ys' h"
        using assms(2) snoc Cons by (auto intro!: dll_cong)
      with Cons snoc p q show ?thesis by (simp add: dll_append)
    qed
  qed
qed

lemma dll_insert:
  assumes "dll nx pv h xs h" "distinct (h # b # xs)"
  shows "dll (nx(b := nx h, h := b)) ((pv(b := h))(nx h := b)) h (b # xs) h"
proof (cases xs)
  case Nil
  with assms show ?thesis by auto
next
  case (Cons x xs')
  then have p: "nx h = x" "dll nx pv x xs' h" using assms(1) by auto
  have "dll (nx(b := x, h := b)) ((pv(b := h))(x := b)) x xs' h = dll nx pv x xs' h"
    using assms(2) Cons by (intro dll_cong) auto
  with Cons p assms(2) show ?thesis by auto
qed

text \<open>The searches visit the whole ring.\<close>

lemma find_buf_next:
  assumes "dll nx pv a xs NBUF" "NBUF \<notin> set xs" "length xs < n"
  shows "find_buf n nx ok (nx a) = Inr (find ok xs)"
  using assms
proof (induction xs arbitrary: a n)
  case Nil
  then show ?case by (cases n) auto
next
  case (Cons x xs)
  then show ?case by (cases n) auto
qed

lemma find_buf_prev:
  assumes "dll nx pv NBUF xs z" "NBUF \<notin> set xs" "length xs < n"
  shows "find_buf n pv ok (pv z) = Inr (find ok (rev xs))"
  using assms
proof (induction xs arbitrary: z n rule: rev_induct)
  case Nil
  then show ?case by (cases n) auto
next
  case (snoc x xs)
  then show ?case by (cases n) (auto simp: dll_append)
qed

section \<open>The block store behind the cache\<close>

definition holds :: "'z bstate_scheme \<Rightarrow> nat \<Rightarrow> uint \<Rightarrow> bool" where
  "holds s b n \<longleftrightarrow> b < NBUF \<and> b_dev (bufs s b) = 1 \<and> b_blockno (bufs s b) = n"

text \<open>The contents of a block as \<open>bread\<close> delivers them: those of the buffer that caches it, or the disk's.\<close>

definition blk :: "'z bstate_scheme \<Rightarrow> uint \<Rightarrow> block" where
  "blk s n = (case find (\<lambda>b. holds s b n \<and> b_valid (bufs s b)) [0..<NBUF] of
     Some b \<Rightarrow> b_data (bufs s b) | None \<Rightarrow> disk s n)"

definition bc_list :: "'z bstate_scheme \<Rightarrow> nat list \<Rightarrow> bool" where
  "bc_list s xs \<longleftrightarrow> dll (\<lambda>b. b_next (bufs s b)) (\<lambda>b. b_prev (bufs s b)) NBUF xs NBUF
     \<and> distinct xs \<and> set xs = {..<NBUF}"

definition bc_ok :: "'z bstate_scheme \<Rightarrow> bool" where
  "bc_ok s \<longleftrightarrow> (\<exists>xs. bc_list s xs)
     \<and> (\<forall>a b n. holds s a n \<longrightarrow> holds s b n \<longrightarrow> a = b)
     \<and> (\<forall>b n. holds s b n \<longrightarrow> b_dirty (bufs s b) \<longrightarrow> b_valid (bufs s b))
     \<and> (\<forall>b n. holds s b n \<longrightarrow> b_valid (bufs s b) \<longrightarrow> \<not> b_busy (bufs s b) \<longrightarrow> \<not> b_dirty (bufs s b)
          \<longrightarrow> b_data (bufs s b) = disk s n)"

definition benv :: "'z bstate_scheme \<Rightarrow> bool" where
  "benv s \<longleftrightarrow> owner s BcacheLock = None \<and> owner s PtableLock = None \<and> 0 \<le> ncli s (cpuid s) \<and> (\<exists>R F. table_ok s R F)"

lemma bc_okD:
  assumes "bc_ok s"
  shows "holds s a n \<Longrightarrow> holds s b n \<Longrightarrow> a = b"
    "holds s b n \<Longrightarrow> b_dirty (bufs s b) \<Longrightarrow> b_valid (bufs s b)"
    "holds s b n \<Longrightarrow> b_valid (bufs s b) \<Longrightarrow> \<not> b_busy (bufs s b) \<Longrightarrow> \<not> b_dirty (bufs s b) \<Longrightarrow> b_data (bufs s b) = disk s n"
    "\<exists>xs. bc_list s xs"
  using assms by (auto simp: bc_ok_def)

lemma blk_cached:
  assumes "bc_ok s" "holds s b n" "b_valid (bufs s b)"
  shows "blk s n = b_data (bufs s b)"
proof -
  have "find (\<lambda>b. holds s b n \<and> b_valid (bufs s b)) [0..<NBUF] \<noteq> None"
    using assms(2,3) by (auto simp: find_None_iff holds_def)
  then obtain c where c: "find (\<lambda>b. holds s b n \<and> b_valid (bufs s b)) [0..<NBUF] = Some c" by blast
  then have "holds s c n" by (auto simp: find_Some_iff)
  then have "c = b" using bc_okD(1) [OF assms(1)] assms(2) by blast
  with c show ?thesis by (simp add: blk_def)
qed

lemma blk_disk:
  assumes "\<And>b. holds s b n \<Longrightarrow> \<not> b_valid (bufs s b)"
  shows "blk s n = disk s n"
proof -
  have "find (\<lambda>b. holds s b n \<and> b_valid (bufs s b)) [0..<NBUF] = None"
    using assms by (auto simp: find_None_iff)
  then show ?thesis by (simp add: blk_def)
qed

text \<open>Changes of one buffer.\<close>

definition with_buf :: "nat \<Rightarrow> buf \<Rightarrow> 'z bstate_scheme \<Rightarrow> 'z bstate_scheme" where
  "with_buf b x s = s\<lparr>bufs := (bufs s)(b := x)\<rparr>"

lemma with_buf [simp]:
  "bufs (with_buf b x s) = (bufs s)(b := x)" "with_buf b y (with_buf b x s) = with_buf b y s"
  "with_buf b (bufs s b) s = s" "owner (with_buf b x s) = owner s" "ncli (with_buf b x s) = ncli s"
  "cpuid (with_buf b x s) = cpuid s" "disk (with_buf b x s) = disk s" "dwrites (with_buf b x s) = dwrites s"
  "disksize (with_buf b x s) = disksize s" "table_ok (with_buf b x s) R F = table_ok s R F"
  "benv (with_buf b x s) = benv s" "disk0 (with_buf b x s) = disk0 s" "procs (with_buf b x s) = procs s"
  by (simp_all add: with_buf_def disk_def table_ok_def lists_rep_def nexts_def benv_def)

lemma upd_buf_run: "upd_buf b f s = Ret () (with_buf b (f (bufs s b)) s)"
  by (simp add: upd_buf_def with_buf_def kmonad)

lemma the_buf_run: "the_buf b f s = Ret (f (bufs s b)) s"
  by (simp add: the_buf_def kmonad)

definition same_links :: "buf \<Rightarrow> buf \<Rightarrow> bool" where
  "same_links x y \<longleftrightarrow> b_next x = b_next y \<and> b_prev x = b_prev y"

lemma bc_list_with_buf: "same_links x (bufs s b) \<Longrightarrow> bc_list (with_buf b x s) xs = bc_list s xs"
proof -
  assume "same_links x (bufs s b)"
  then have "(\<lambda>c. b_next (bufs (with_buf b x s) c)) = (\<lambda>c. b_next (bufs s c))"
    "(\<lambda>c. b_prev (bufs (with_buf b x s) c)) = (\<lambda>c. b_prev (bufs s c))"
    by (auto simp: same_links_def fun_eq_iff)
  then show ?thesis unfolding bc_list_def by (simp only:)
qed

lemma bc_ok_with_buf:
  assumes ok: "bc_ok s" and l: "same_links x (bufs s b)"
    and uniq: "b_dev x = 1 \<Longrightarrow> (\<And>c. c \<noteq> b \<Longrightarrow> \<not> holds s c (b_blockno x))"
    and dv: "b_dirty x \<Longrightarrow> b_valid x"
    and coh: "b_dev x = 1 \<Longrightarrow> b_valid x \<Longrightarrow> \<not> b_busy x \<Longrightarrow> \<not> b_dirty x \<Longrightarrow> b_data x = disk s (b_blockno x)"
  shows "bc_ok (with_buf b x s)"
proof -
  have h: "holds (with_buf b x s) c n \<longleftrightarrow> (if c = b then b < NBUF \<and> b_dev x = 1 \<and> b_blockno x = n else holds s c n)" for c n
    by (auto simp: holds_def)
  show ?thesis
    unfolding bc_ok_def
  proof (intro conjI allI impI)
    show "\<exists>xs. bc_list (with_buf b x s) xs" using bc_okD(4) [OF ok] bc_list_with_buf [OF l] by blast
    show "a = c" if "holds (with_buf b x s) a n" "holds (with_buf b x s) c n" for a c n
      using that uniq bc_okD(1) [OF ok, of a n c] unfolding h by (auto split: if_splits)
    show "b_valid (bufs (with_buf b x s) c)" if "holds (with_buf b x s) c n" "b_dirty (bufs (with_buf b x s) c)" for c n
      using that dv bc_okD(2) [OF ok, of c n] unfolding h by (auto split: if_splits)
    show "b_data (bufs (with_buf b x s) c) = disk (with_buf b x s) n"
      if "holds (with_buf b x s) c n" "b_valid (bufs (with_buf b x s) c)" "\<not> b_busy (bufs (with_buf b x s) c)"
        "\<not> b_dirty (bufs (with_buf b x s) c)" for c n
      using that coh bc_okD(3) [OF ok, of c n] unfolding h by (auto split: if_splits)
  qed
qed

lemma find_SomeD: "find P xs = Some x \<Longrightarrow> x \<in> set xs \<and> P x"
  by (induction xs) (auto split: if_splits)

lemma scan_next:
  assumes "bc_list s xs"
  shows "scan_bufs b_next ok s = Ret (find (\<lambda>b. ok (bufs s b)) xs) s"
proof -
  have "length xs = NBUF" using assms distinct_card [of xs] by (simp add: bc_list_def)
  then show ?thesis
    using assms find_buf_next [of "\<lambda>b. b_next (bufs s b)" "\<lambda>b. b_prev (bufs s b)" NBUF xs "Suc NBUF" "\<lambda>b. ok (bufs s b)"]
    by (simp add: scan_bufs_def bc_list_def kmonad del: find_buf.simps)
qed

lemma scan_prev:
  assumes "bc_list s xs"
  shows "scan_bufs b_prev ok s = Ret (find (\<lambda>b. ok (bufs s b)) (rev xs)) s"
proof -
  have "length xs = NBUF" using assms distinct_card [of xs] by (simp add: bc_list_def)
  then show ?thesis
    using assms find_buf_prev [of "\<lambda>b. b_next (bufs s b)" "\<lambda>b. b_prev (bufs s b)" xs NBUF "Suc NBUF" "\<lambda>b. ok (bufs s b)"]
    by (simp add: scan_bufs_def bc_list_def kmonad del: find_buf.simps)
qed

lemma bc_list_lock [simp]: "bc_list (lock_taken l s) xs = bc_list s xs" "bufs (lock_taken l s) = bufs s"
  by (simp_all add: bc_list_def lock_taken_def)

lemma with_buf_lock: "release_lk l (with_buf b x (lock_taken l s)) = Ret () (with_buf b x s)" if "lock_free l s"
proof -
  have "release_lk l (with_buf b x (lock_taken l s)) = Ret () (lock_dropped l (with_buf b x (lock_taken l s)))"
    by (rule release_dropped) (use that in \<open>auto simp: lock_free_def\<close>)
  also have "lock_dropped l (with_buf b x (lock_taken l s)) = with_buf b x s"
    using that by (simp add: lock_dropped_def lock_taken_def with_buf_def lock_free_def fun_upd_idem)
  finally show ?thesis .
qed

text \<open>\<open>bget\<close> finds the buffer of the block or takes over one that is neither in use nor dirty.\<close>

lemma bget_run:
  assumes ok: "bc_ok s" and env: "benv s" and idle: "\<And>b. holds s b n \<Longrightarrow> \<not> b_busy (bufs s b)"
    and avail: "(\<exists>b. holds s b n) \<or> (\<exists>b < NBUF. \<not> b_busy (bufs s b) \<and> \<not> b_dirty (bufs s b))"
  shows "(\<exists>b. holds s b n \<and> bget 1 n s = Ret b (with_buf b ((bufs s b)\<lparr>b_busy := True\<rparr>) s))
    \<or> (\<exists>b. b < NBUF \<and> (\<forall>c. \<not> holds s c n) \<and> \<not> b_busy (bufs s b) \<and> \<not> b_dirty (bufs s b) \<and>
      bget 1 n s = Ret b (with_buf b ((bufs s b)\<lparr>b_dev := 1, b_blockno := n, b_busy := True, b_valid := False, b_dirty := False\<rparr>) s))"
proof -
  have lf: "lock_free BcacheLock s" using env by (simp add: benv_def lock_free_def)
  obtain xs where xs: "bc_list s xs" using bc_okD(4) [OF ok] by blast
  let ?l = "lock_taken BcacheLock s"
  have xl: "bc_list ?l xs" using xs by simp
  have set_xs: "set xs = {..<NBUF}" using xs by (simp add: bc_list_def)
  let ?P = "\<lambda>b. b_dev (bufs s b) = 1 \<and> b_blockno (bufs s b) = n"
  have acq: "bget 1 n s = bget_loop 1 n ?l" using klock.acq_free [OF lf] by (simp add: bget_def kmonad)
  show ?thesis
  proof (cases "find ?P xs")
    case (Some b)
    then have b: "holds s b n" using set_xs by (auto simp: find_Some_iff holds_def)
    have "bget 1 n s = Ret b (with_buf b ((bufs s b)\<lparr>b_busy := True\<rparr>) s)"
      unfolding acq using Some scan_next [OF xl, of "\<lambda>x. b_dev x = 1 \<and> b_blockno x = n"] idle [OF b] with_buf_lock [OF lf]
      by (simp add: bget_loop_def kmonad the_buf_run upd_buf_run)
    with b show ?thesis by blast
  next
    case None
    then have no: "\<not> holds s c n" for c using set_xs by (auto simp: find_None_iff holds_def)
    then obtain c where "c < NBUF" "\<not> b_busy (bufs s c) \<and> \<not> b_dirty (bufs s c)" using avail by blast
    then have "find (\<lambda>b. \<not> b_busy (bufs s b) \<and> \<not> b_dirty (bufs s b)) (rev xs) \<noteq> None"
      using set_xs by (auto simp: find_None_iff)
    then obtain b where b: "find (\<lambda>b. \<not> b_busy (bufs s b) \<and> \<not> b_dirty (bufs s b)) (rev xs) = Some b" by blast
    then have b': "b < NBUF" "\<not> b_busy (bufs s b)" "\<not> b_dirty (bufs s b)" using set_xs find_SomeD [OF b] by auto
    have "bget 1 n s = Ret b (with_buf b ((bufs s b)\<lparr>b_dev := 1, b_blockno := n, b_busy := True, b_valid := False, b_dirty := False\<rparr>) s)"
      unfolding acq using None b scan_next [OF xl, of "\<lambda>x. b_dev x = 1 \<and> b_blockno x = n"]
        scan_prev [OF xl, of "\<lambda>x. \<not> b_busy x \<and> \<not> b_dirty x"] with_buf_lock [OF lf]
      by (simp add: bget_loop_def kmonad upd_buf_run)
    with b' no show ?thesis by blast
  qed
qed

text \<open>A change of one buffer shows only in the block it holds.\<close>

lemma blk_other:
  assumes ok: "bc_ok s" "bc_ok (with_buf b y s)" and new: "\<not> holds (with_buf b y s) b m"
    and old: "holds s b m \<Longrightarrow> b_valid (bufs s b) \<Longrightarrow> b_data (bufs s b) = disk s m"
  shows "blk (with_buf b y s) m = blk s m"
proof (cases "\<exists>c. c \<noteq> b \<and> holds s c m \<and> b_valid (bufs s c)")
  case True
  then obtain c where c: "c \<noteq> b" "holds s c m" "b_valid (bufs s c)" by blast
  then have "holds (with_buf b y s) c m" "b_valid (bufs (with_buf b y s) c)" by (auto simp: holds_def)
  with blk_cached [OF ok(1) c(2,3)] blk_cached [OF ok(2), of c m] c(1) show ?thesis by simp
next
  case False
  then have "blk (with_buf b y s) m = disk s m"
    using new by (subst blk_disk) (auto simp: holds_def)
  moreover have "blk s m = disk s m"
  proof (cases "holds s b m \<and> b_valid (bufs s b)")
    case True
    with blk_cached [OF ok(1)] old show ?thesis by auto
  next
    case no: False
    then show ?thesis using False by (intro blk_disk) auto
  qed
  ultimately show ?thesis by simp
qed

text \<open>
  \<open>bread\<close>: the caller holds the buffer of the block, with its contents; the blocks and the other
  buffers are as before.
\<close>

definition got :: "'z bstate_scheme \<Rightarrow> uint \<Rightarrow> nat \<Rightarrow> 'z bstate_scheme \<Rightarrow> bool" where
  "got s n b s' \<longleftrightarrow> holds s' b n \<and> \<not> b_busy (bufs s b) \<and> b_busy (bufs s' b) \<and> b_valid (bufs s' b)
     \<and> b_data (bufs s' b) = blk s n \<and> bc_ok s' \<and> benv s' \<and> (\<forall>m. blk s' m = blk s m)
     \<and> (\<exists>x. s' = with_buf b x s) \<and> (b_dirty (bufs s' b) \<longleftrightarrow> holds s b n \<and> b_dirty (bufs s b))
     \<and> (\<not> holds s b n \<longrightarrow> \<not> b_dirty (bufs s b))"

lemma iderw_read:
  assumes "b_busy (bufs s b)" "\<not> b_valid (bufs s b)" "\<not> b_dirty (bufs s b)" "b_dev (bufs s b) = 1"
    "b_blockno (bufs s b) < disksize s"
  shows "iderw b s = Ret () (with_buf b ((bufs s b)\<lparr>b_data := disk s (b_blockno (bufs s b)), b_valid := True\<rparr>) s)"
  using assms by (simp add: iderw_def kmonad the_buf_run upd_buf_run)

lemma iderw_write:
  assumes "b_busy (bufs s b)" "b_dirty (bufs s b)" "b_dev (bufs s b) = 1" "b_blockno (bufs s b) < disksize s"
  shows "iderw b s = Ret () ((with_buf b ((bufs s b)\<lparr>b_dirty := False, b_valid := True\<rparr>) s)
    \<lparr>dwrites := (b_blockno (bufs s b), b_data (bufs s b)) # dwrites s\<rparr>)"
  using assms by (simp add: iderw_def kmonad the_buf_run upd_buf_run) (simp add: with_buf_def)

lemma bread_hit: "bget dev n s = Ret b t \<Longrightarrow> b_valid (bufs t b) \<Longrightarrow> bread dev n s = Ret b t"
  by (simp add: bread_def kmonad the_buf_run)

lemma bread_fill: "bget dev n s = Ret b t \<Longrightarrow> \<not> b_valid (bufs t b) \<Longrightarrow> iderw b t = Ret () u \<Longrightarrow> bread dev n s = Ret b u"
  by (simp add: bread_def kmonad the_buf_run)

lemma bread_run:
  assumes ok: "bc_ok s" and env: "benv s" and n: "n < disksize s" and idle: "\<And>b. holds s b n \<Longrightarrow> \<not> b_busy (bufs s b)"
    and avail: "(\<exists>b. holds s b n) \<or> (\<exists>b < NBUF. \<not> b_busy (bufs s b) \<and> \<not> b_dirty (bufs s b))"
  shows "\<exists>b s'. bread 1 n s = Ret b s' \<and> got s n b s'"
proof -
  from bget_run [OF ok env idle avail] consider
      (hit) b where "holds s b n" "bget 1 n s = Ret b (with_buf b ((bufs s b)\<lparr>b_busy := True\<rparr>) s)"
    | (miss) b where "b < NBUF" "\<forall>c. \<not> holds s c n" "\<not> b_busy (bufs s b)" "\<not> b_dirty (bufs s b)"
      "bget 1 n s = Ret b (with_buf b ((bufs s b)\<lparr>b_dev := 1, b_blockno := n, b_busy := True, b_valid := False, b_dirty := False\<rparr>) s)"
    by blast
  then show ?thesis
  proof cases
    case (hit b)
    define y where "y = (if b_valid (bufs s b) then (bufs s b)\<lparr>b_busy := True\<rparr>
      else (bufs s b)\<lparr>b_busy := True, b_data := disk s n, b_valid := True\<rparr>)"
    have x: "b_dev (bufs s b) = 1" "b_blockno (bufs s b) = n" "b < NBUF" using hit(1) by (auto simp: holds_def)
    have dv: "b_dirty (bufs s b) \<Longrightarrow> b_valid (bufs s b)" using bc_okD(2) [OF ok hit(1)] .
    have run: "bread 1 n s = Ret b (with_buf b y s)"
    proof (cases "b_valid (bufs s b)")
      case True
      then show ?thesis using bread_hit [OF hit(2)] by (simp add: y_def)
    next
      case False
      then have "\<not> b_dirty (bufs s b)" using dv by blast
      with False iderw_read [of "with_buf b ((bufs s b)\<lparr>b_busy := True\<rparr>) s" b] x n
      have "iderw b (with_buf b ((bufs s b)\<lparr>b_busy := True\<rparr>) s) = Ret () (with_buf b y s)" by (simp add: y_def)
      with False bread_fill [OF hit(2)] show ?thesis by simp
    qed
    have ok': "bc_ok (with_buf b y s)"
      by (rule bc_ok_with_buf [OF ok]) (use x dv bc_okD(1) [OF ok hit(1)] in \<open>auto simp: y_def same_links_def split: if_splits\<close>)
    have h': "holds (with_buf b y s) b n" using x by (simp add: holds_def y_def)
    have data: "b_data y = blk s n"
    proof (cases "b_valid (bufs s b)")
      case True
      then show ?thesis using blk_cached [OF ok hit(1)] by (simp add: y_def)
    next
      case False
      then have "blk s n = disk s n" using bc_okD(1) [OF ok hit(1)] by (intro blk_disk) auto
      with False show ?thesis by (simp add: y_def)
    qed
    have "blk (with_buf b y s) m = blk s m" for m
    proof (cases "m = n")
      case True
      then show ?thesis using blk_cached [OF ok' h'] data by (simp add: y_def)
    next
      case False
      then show ?thesis using x by (intro blk_other [OF ok ok']) (auto simp: holds_def y_def)
    qed
    then have "got s n b (with_buf b y s)"
      unfolding got_def using ok' h' data env idle [OF hit(1)] hit(1) by (intro conjI) (auto simp: y_def)
    with run show ?thesis by blast
  next
    case (miss b)
    define y where "y = (bufs s b)\<lparr>b_dev := 1, b_blockno := n, b_busy := True, b_dirty := False, b_data := disk s n, b_valid := True\<rparr>"
    have run: "bread 1 n s = Ret b (with_buf b y s)"
      by (rule bread_fill [OF miss(5)]) (use n in \<open>simp_all add: iderw_read y_def\<close>)
    have ok': "bc_ok (with_buf b y s)"
      by (rule bc_ok_with_buf [OF ok]) (use miss(2) in \<open>auto simp: y_def same_links_def\<close>)
    have h': "holds (with_buf b y s) b n" using miss(1) by (simp add: holds_def y_def)
    have data: "blk s n = disk s n" using miss(2) by (intro blk_disk) auto
    have "blk (with_buf b y s) m = blk s m" for m
    proof (cases "m = n")
      case True
      then show ?thesis using blk_cached [OF ok' h'] data by (simp add: y_def)
    next
      case False
      then show ?thesis using bc_okD(3) [OF ok, of b m] miss(3,4) by (intro blk_other [OF ok ok']) (auto simp: holds_def y_def)
    qed
    then have "got s n b (with_buf b y s)"
      unfolding got_def using ok' h' data env miss(2-4) by (intro conjI) (auto simp: y_def)
    with run show ?thesis by blast
  qed
qed

text \<open>Changing the data of a held buffer, writing it, and giving it back.\<close>

lemma set_data_run:
  assumes ok: "bc_ok s" and b: "holds s b n" "b_busy (bufs s b)" "b_valid (bufs s b)"
    and s'_def: "s' = with_buf b ((bufs s b)\<lparr>b_data := d\<rparr>) s"
  shows "bc_ok s'" "blk s' m = (if m = n then d else blk s m)" "holds s' c m \<longleftrightarrow> holds s c m"
proof -
  have x: "b_dev (bufs s b) = 1" "b_blockno (bufs s b) = n" "b < NBUF" using b(1) by (auto simp: holds_def)
  show h: "holds s' c m \<longleftrightarrow> holds s c m" for c m by (simp add: s'_def holds_def)
  show ok': "bc_ok s'"
    unfolding s'_def
  proof (rule bc_ok_with_buf [OF ok])
    show "\<not> holds s c (b_blockno ((bufs s b)\<lparr>b_data := d\<rparr>))" if "c \<noteq> b" for c
      using bc_okD(1) [OF ok _ b(1)] that x(2) by auto
  qed (use b in \<open>simp_all add: same_links_def\<close>)
  show "blk s' m = (if m = n then d else blk s m)"
  proof (cases "m = n")
    case True
    then show ?thesis using blk_cached [OF ok', of b n] b by (simp add: h) (simp add: s'_def)
  next
    case False
    then show ?thesis unfolding s'_def
      by (simp, intro blk_other [OF ok ok' [unfolded s'_def]]) (use x in \<open>auto simp: holds_def\<close>)
  qed
qed

lemma bwrite_run:
  assumes ok: "bc_ok s" and b: "holds s b n" "b_busy (bufs s b)" "b_valid (bufs s b)" and n: "n < disksize s"
    and s'_def: "s' = (with_buf b ((bufs s b)\<lparr>b_dirty := False\<rparr>) s)\<lparr>dwrites := (n, b_data (bufs s b)) # dwrites s\<rparr>"
  shows "bwrite b s = Ret () s'" "bc_ok s'" "blk s' m = blk s m" "holds s' c m \<longleftrightarrow> holds s c m"
    "disk s' m = (if m = n then b_data (bufs s b) else disk s m)"
proof -
  have x: "b_dev (bufs s b) = 1" "b_blockno (bufs s b) = n" "b < NBUF" using b(1) by (auto simp: holds_def)
  have e: "(bufs s b)\<lparr>b_dirty := False, b_valid := True\<rparr> = (bufs s b)\<lparr>b_dirty := False\<rparr>"
    using b(3) by (cases "bufs s b") simp
  have s'2: "s' = (with_buf b ((bufs s b)\<lparr>b_dirty := False, b_valid := True\<rparr>) s)\<lparr>dwrites := (n, b_data (bufs s b)) # dwrites s\<rparr>"
    by (simp only: s'_def e)
  show "bwrite b s = Ret () s'"
    unfolding s'2 using iderw_write [of "with_buf b ((bufs s b)\<lparr>b_dirty := True\<rparr>) s" b] x b n
    by (simp add: bwrite_def kmonad the_buf_run upd_buf_run)
  show h: "holds s' c m \<longleftrightarrow> holds s c m" for c m by (simp add: s'_def holds_def)
  show d: "disk s' m = (if m = n then b_data (bufs s b) else disk s m)" for m
    by (simp add: disk_def disk_after_def s'_def)
  have buf: "bufs s' c = (if c = b then (bufs s b)\<lparr>b_dirty := False\<rparr> else bufs s c)" for c by (simp add: s'_def)
  have only: "c = b" if "holds s c n" for c using bc_okD(1) [OF ok that b(1)] .
  show ok': "bc_ok s'"
    unfolding bc_ok_def h
  proof (intro conjI allI impI)
    have "bc_list s' xs = bc_list (with_buf b ((bufs s b)\<lparr>b_dirty := False\<rparr>) s) xs" for xs
      by (simp add: s'_def bc_list_def)
    then show "\<exists>xs. bc_list s' xs" using bc_okD(4) [OF ok] bc_list_with_buf [of "(bufs s b)\<lparr>b_dirty := False\<rparr>" s b]
      by (simp add: same_links_def)
    show "a = c" if "holds s a m" "holds s c m" for a c m using bc_okD(1) [OF ok that] .
    show "b_valid (bufs s' c)" if "holds s c m" "b_dirty (bufs s' c)" for c m
      using that bc_okD(2) [OF ok that(1)] by (simp add: buf split: if_splits)
    show "b_data (bufs s' c) = disk s' m" if "holds s c m" "b_valid (bufs s' c)" "\<not> b_busy (bufs s' c)" "\<not> b_dirty (bufs s' c)" for c m
    proof (cases "c = b")
      case True
      then show ?thesis using that(3) b(2) by (simp add: buf)
    next
      case False
      then have "m \<noteq> n" using only that(1) by blast
      with False that show ?thesis using bc_okD(3) [OF ok that(1)] by (simp add: buf d)
    qed
  qed
  show "blk s' m = blk s m"
  proof (cases "\<exists>c. holds s c m \<and> b_valid (bufs s c)")
    case True
    then obtain c where c: "holds s c m" "b_valid (bufs s c)" by blast
    then have "b_valid (bufs s' c)" "holds s' c m" by (auto simp: buf h)
    with blk_cached [OF ok'] blk_cached [OF ok c] show ?thesis by (simp add: buf)
  next
    case False
    then have "m \<noteq> n" using b by blast
    moreover have "blk s m = disk s m" using False by (intro blk_disk) blast
    moreover have "blk s' m = disk s' m" using False by (intro blk_disk) (auto simp: h buf split: if_splits)
    ultimately show ?thesis by (simp add: d)
  qed
qed

text \<open>The links after \<open>brelse\<close>: the buffer is moved behind the head.\<close>

definition put_next :: "nat \<Rightarrow> nat \<Rightarrow> (nat \<Rightarrow> buf) \<Rightarrow> nat \<Rightarrow> buf" where
  "put_next i v B = B(i := (B i)\<lparr>b_next := v\<rparr>)"

definition put_prev :: "nat \<Rightarrow> nat \<Rightarrow> (nat \<Rightarrow> buf) \<Rightarrow> nat \<Rightarrow> buf" where
  "put_prev i v B = B(i := (B i)\<lparr>b_prev := v\<rparr>)"

lemma set_link [simp]:
  "b_next (put_next i v B c) = (if c = i then v else b_next (B c))" "b_prev (put_next i v B c) = b_prev (B c)"
  "b_prev (put_prev i v B c) = (if c = i then v else b_prev (B c))" "b_next (put_prev i v B c) = b_next (B c)"
  "b_busy (put_next i v B c) = b_busy (B c)" "b_busy (put_prev i v B c) = b_busy (B c)"
  "b_valid (put_next i v B c) = b_valid (B c)" "b_valid (put_prev i v B c) = b_valid (B c)"
  "b_dirty (put_next i v B c) = b_dirty (B c)" "b_dirty (put_prev i v B c) = b_dirty (B c)"
  "b_dev (put_next i v B c) = b_dev (B c)" "b_dev (put_prev i v B c) = b_dev (B c)"
  "b_blockno (put_next i v B c) = b_blockno (B c)" "b_blockno (put_prev i v B c) = b_blockno (B c)"
  "b_data (put_next i v B c) = b_data (B c)" "b_data (put_prev i v B c) = b_data (B c)"
  by (simp_all add: put_next_def put_prev_def)

definition move_front :: "(nat \<Rightarrow> buf) \<Rightarrow> nat \<Rightarrow> nat \<Rightarrow> buf" where
  "move_front B b = (
     let B1 = put_prev (b_next (B b)) (b_prev (B b)) B;
         B2 = put_next (b_prev (B1 b)) (b_next (B1 b)) B1;
         B3 = put_next b (b_next (B2 NBUF)) B2;
         B4 = put_prev b NBUF B3;
         B5 = put_prev (b_next (B4 NBUF)) b B4
     in put_next NBUF b B5)"

lemma link_step:
  "upd_buf i (\<lambda>y. y\<lparr>b_prev := v\<rparr>) s = Ret () (s\<lparr>bufs := put_prev i v (bufs s)\<rparr>)"
  "upd_buf i (\<lambda>y. y\<lparr>b_next := v\<rparr>) s = Ret () (s\<lparr>bufs := put_next i v (bufs s)\<rparr>)"
  by (simp_all add: upd_buf_def put_prev_def put_next_def kmonad)

lemma move_front_run:
  assumes B: "bufs s = B"
  shows "kdo (
       kbind (the_buf b id) (\<lambda>x. upd_buf (b_next x) (\<lambda>y. y\<lparr>b_prev := b_prev x\<rparr>)) #
       kbind (the_buf b id) (\<lambda>x. upd_buf (b_prev x) (\<lambda>y. y\<lparr>b_next := b_next x\<rparr>)) #
       kbind (the_buf NBUF b_next) (\<lambda>h. upd_buf b (\<lambda>x. x\<lparr>b_next := h\<rparr>)) #
       upd_buf b (\<lambda>x. x\<lparr>b_prev := NBUF\<rparr>) #
       kbind (the_buf NBUF b_next) (\<lambda>h. upd_buf h (\<lambda>x. x\<lparr>b_prev := b\<rparr>)) #
       upd_buf NBUF (\<lambda>x. x\<lparr>b_next := b\<rparr>) # ms) s = kdo ms (s\<lparr>bufs := move_front B b\<rparr>)"
proof -
  define B1 where "B1 = put_prev (b_next (B b)) (b_prev (B b)) B"
  define B2 where "B2 = put_next (b_prev (B1 b)) (b_next (B1 b)) B1"
  define B3 where "B3 = put_next b (b_next (B2 NBUF)) B2"
  define B4 where "B4 = put_prev b NBUF B3"
  define B5 where "B5 = put_prev (b_next (B4 NBUF)) b B4"
  have m: "move_front B b = put_next NBUF b B5"
    by (simp only: move_front_def Let_def B1_def [symmetric] B2_def [symmetric] B3_def [symmetric] B4_def [symmetric]
        B5_def [symmetric])
  show ?thesis unfolding m
    by (simp add: kmonad the_buf_run link_step B B1_def [symmetric] B2_def [symmetric] B3_def [symmetric] B4_def [symmetric]
        B5_def [symmetric] del: set_link)
qed

lemma move_front_sel [simp]:
  "b_busy (move_front B b c) = b_busy (B c)" "b_valid (move_front B b c) = b_valid (B c)"
  "b_dirty (move_front B b c) = b_dirty (B c)" "b_dev (move_front B b c) = b_dev (B c)"
  "b_blockno (move_front B b c) = b_blockno (B c)" "b_data (move_front B b c) = b_data (B c)"
  by (simp_all add: move_front_def Let_def)

lemma move_front_links:
  assumes "b_next (B b) \<noteq> b" "b_prev (B b) \<noteq> b" "b \<noteq> NBUF"
  defines "nx \<equiv> (\<lambda>c. b_next (B c))(b_prev (B b) := b_next (B b))"
    and "pv \<equiv> (\<lambda>c. b_prev (B c))(b_next (B b) := b_prev (B b))"
  shows "(\<lambda>c. b_next (move_front B b c)) = nx(b := nx NBUF, NBUF := b)"
    "(\<lambda>c. b_prev (move_front B b c)) = (pv(b := NBUF))(nx NBUF := b)"
  using assms(1-3) by (auto simp: move_front_def Let_def nx_def pv_def fun_eq_iff)

lemma move_front_list:
  assumes "dll (\<lambda>c. b_next (B c)) (\<lambda>c. b_prev (B c)) NBUF (xs @ b # ys) NBUF" "distinct (NBUF # xs @ b # ys)"
  shows "dll (\<lambda>c. b_next (move_front B b c)) (\<lambda>c. b_prev (move_front B b c)) NBUF (b # xs @ ys) NBUF"
proof -
  have "b_next (B b) \<noteq> b" using assms by (cases ys) (auto simp: dll_append)
  moreover have "b_prev (B b) \<noteq> b" using assms by (cases xs rule: rev_cases) (auto simp: dll_append)
  moreover have "b \<noteq> NBUF" using assms(2) by auto
  ultimately show ?thesis
    unfolding move_front_links [where B = B and b = b, OF \<open>b_next (B b) \<noteq> b\<close> \<open>b_prev (B b) \<noteq> b\<close> \<open>b \<noteq> NBUF\<close>]
    using dll_insert [OF dll_remove [OF assms], of b] assms(2) by simp
qed

definition bframe :: "'z bstate_scheme \<Rightarrow> 'z bstate_scheme \<Rightarrow> bool" where
  "bframe s s' \<longleftrightarrow> (\<exists>B W P R F. s' = s\<lparr>bufs := B, dwrites := W, procs := P, pReadyList := R, pFreeList := F\<rparr>)"

lemma bframe_trans: "bframe s t \<Longrightarrow> bframe t u \<Longrightarrow> bframe s u"
  by (force simp: bframe_def)

lemma bframe_sel:
  assumes "bframe s s'"
  shows "disksize s' = disksize s" "owner s' = owner s" "ncli s' = ncli s" "cpuid s' = cpuid s" "disk0 s' = disk0 s"
    "pipes s' = pipes s" "cproc s' = cproc s"
  using assms by (auto simp: bframe_def)

text \<open>Giving back a buffer.\<close>

definition released :: "'z bstate_scheme \<Rightarrow> nat \<Rightarrow> 'z bstate_scheme \<Rightarrow> bool" where
  "released s b s' \<longleftrightarrow> bc_ok s' \<and> benv s' \<and> (\<forall>m. blk s' m = blk s m) \<and> (\<forall>c m. holds s' c m = holds s c m)
     \<and> (\<forall>c. b_busy (bufs s' c) = (c \<noteq> b \<and> b_busy (bufs s c)) \<and> b_dirty (bufs s' c) = b_dirty (bufs s c)
          \<and> b_valid (bufs s' c) = b_valid (bufs s c) \<and> b_data (bufs s' c) = b_data (bufs s c))
     \<and> dwrites s' = dwrites s \<and> bframe s s'"

lemma lock_taken_disk [simp]: "disk0 (lock_taken l s) = disk0 s" "dwrites (lock_taken l s) = dwrites s"
  by (simp_all add: lock_taken_def)

lemma brelse_run:
  assumes ok: "bc_ok s" and env: "benv s" and b: "holds s b n" "b_busy (bufs s b)"
    and clean: "b_valid (bufs s b) \<Longrightarrow> \<not> b_dirty (bufs s b) \<Longrightarrow> b_data (bufs s b) = disk s n"
  shows "\<exists>s'. brelse b s = Ret () s' \<and> released s b s'"
proof -
  have bn: "b < NBUF" using b(1) by (simp add: holds_def)
  have lf: "lock_free BcacheLock s" using env by (simp add: benv_def lock_free_def)
  let ?l = "lock_taken BcacheLock s"
  define B where "B = (move_front (bufs s) b)(b := (move_front (bufs s) b b)\<lparr>b_busy := False\<rparr>)"
  let ?m = "?l\<lparr>bufs := B\<rparr>"
  obtain R F where tab: "table_ok ?m R F" using env by (auto simp: benv_def table_ok_def lists_rep_def nexts_def)
  have "lock_free PtableLock ?m" using env by (simp add: benv_def lock_free_def)
  from wakeup_run [OF tab this, of "BufChan b"] obtain t R' where t: "wakeup (BufChan b) ?m = Ret () t" "table_ok t R' F"
    "only_states ?m t" by blast
  note k = only_states_kernel [OF t(3)]
  obtain P R2 F2 where te: "t = ?m\<lparr>procs := P, pReadyList := R2, pFreeList := F2\<rparr>" using t(3) unfolding only_states_def by blast
  let ?s' = "lock_dropped BcacheLock t"
  have rel: "release_lk BcacheLock t = Ret () ?s'"
    by (rule release_dropped) (use lf k in \<open>auto simp: lock_free_def\<close>)
  have run: "brelse b s = Ret () ?s'"
  proof -
    have 1: "kdo (upd_buf b (\<lambda>x. x\<lparr>b_busy := False\<rparr>) # ms) (?l\<lparr>bufs := move_front (bufs s) b\<rparr>) = kdo ms ?m" for ms
      by (simp add: kmonad upd_buf_run with_buf_def B_def)
    have "brelse b s = kdo [wakeup (BufChan b), release_lk BcacheLock] ?m"
      unfolding brelse_def kbind_Ret [where m = "the_buf b b_busy", OF the_buf_run] using b(2)
      by (simp only: kdo.simps(2) [of "acquire_lk BcacheLock"] kthen_Ret [where m = "acquire_lk BcacheLock", OF klock.acq_free [OF lf]] not_True_eq_False if_False
          move_front_run [of ?l "bufs s" b, OF bc_list_lock(2)] 1)
    then show ?thesis using t(1) rel by (simp add: kmonad)
  qed
  have buf: "bufs ?s' = B" by (simp add: te lock_dropped_def)
  have cell: "b_busy (B c) = (c \<noteq> b \<and> b_busy (bufs s c))" "b_dirty (B c) = b_dirty (bufs s c)"
    "b_valid (B c) = b_valid (bufs s c)" "b_data (B c) = b_data (bufs s c)" "b_dev (B c) = b_dev (bufs s c)"
    "b_blockno (B c) = b_blockno (bufs s c)" "b_next (B c) = b_next (move_front (bufs s) b c)"
    "b_prev (B c) = b_prev (move_front (bufs s) b c)" for c by (auto simp: B_def)
  have "?s' = s\<lparr>bufs := B, procs := P, pReadyList := R2, pFreeList := F2\<rparr>"
    using lf by (simp add: te lock_dropped_def lock_taken_def lock_free_def fun_upd_idem)
  then have "?s' = s\<lparr>bufs := B, dwrites := dwrites s, procs := P, pReadyList := R2, pFreeList := F2\<rparr>" by simp
  then have fr: "bframe s ?s'" unfolding bframe_def by blast
  have dsk: "disk ?s' = disk s" "dwrites ?s' = dwrites s" by (simp_all add: te disk_def disk_after_def lock_dropped_def)
  have h: "holds ?s' c m = holds s c m" for c m by (simp add: holds_def buf cell)
  have bl: "blk ?s' m = blk s m" for m by (simp add: blk_def h buf cell dsk split: option.split)
  have env': "benv ?s'" 
  proof -
    have "table_ok ?s' R' F" using t(2) by simp
    then show ?thesis using env bframe_sel [OF fr] unfolding benv_def by (metis)
  qed
  obtain xs ys where xs: "bc_list s (xs @ b # ys)"
    using bc_okD(4) [OF ok] bn by (metis bc_list_def lessThan_iff split_list)
  then have "bc_list ?s' (b # xs @ ys)"
    using move_front_list [of "bufs s" xs b ys] by (auto simp: bc_list_def buf cell)
  moreover have sameb: "m = n" if "holds s b m" for m using that b(1) by (simp add: holds_def)
  ultimately have ok': "bc_ok ?s'"
    unfolding bc_ok_def h using bc_okD(1-3) [OF ok] clean sameb by (auto simp: buf cell dsk)
  show ?thesis
    using run ok' env' bl h fr dsk by (intro exI [of _ ?s']) (auto simp: released_def buf cell)
qed

text \<open>\<open>binit\<close> links all buffers into the ring and leaves them without a block.\<close>

definition idle_buf :: "buf \<Rightarrow> bool" where
  "idle_buf x \<longleftrightarrow> \<not> b_busy x \<and> \<not> b_dirty x \<and> \<not> b_valid x"

definition linked_to :: "nat \<Rightarrow> 'z bstate_scheme \<Rightarrow> bool" where
  "linked_to k s \<longleftrightarrow> dll (\<lambda>b. b_next (bufs s b)) (\<lambda>b. b_prev (bufs s b)) NBUF (rev [0..<k]) NBUF
     \<and> (\<forall>b < k. b_dev (bufs s b) = - 1) \<and> (\<forall>b. idle_buf (bufs s b))"

lemma binit_link_run:
  fixes s :: "'a bstate_scheme"
  assumes "linked_to k s" "k < NBUF"
  shows "\<exists>B. binit_link k s = Ret () (s\<lparr>bufs := B\<rparr>) \<and> linked_to (Suc k) (s\<lparr>bufs := B\<rparr>)"
proof -
  define B where "B = bufs s"
  define B2 where "B2 = put_prev k NBUF (put_next k (b_next (B NBUF)) B)"
  define B3 where "B3 = B2(k := (B2 k)\<lparr>b_dev := - 1\<rparr>)"
  define B5 where "B5 = put_next NBUF k (put_prev (b_next (B3 NBUF)) k B3)"
  have k: "k \<noteq> NBUF" using assms(2) by simp
  have dev: "upd_buf k (\<lambda>x. x\<lparr>b_dev := - 1\<rparr>) u = Ret () (u\<lparr>bufs := (bufs u)(k := (bufs u k)\<lparr>b_dev := - 1\<rparr>)\<rparr>)" for u :: "'a bstate_scheme"
    by (simp add: upd_buf_def kmonad)
  have run: "binit_link k s = Ret () (s\<lparr>bufs := B5\<rparr>)"
    by (simp add: binit_link_def kmonad the_buf_run link_step dev B_def [symmetric] B2_def [symmetric]
        B3_def [symmetric] B5_def [symmetric] del: set_link)
  have n3: "b_next (B3 c) = (if c = k then b_next (B NBUF) else b_next (B c))" "b_prev (B3 c) = (if c = k then NBUF else b_prev (B c))" for c
    by (simp_all add: B3_def B2_def)
  have nx: "(\<lambda>b. b_next (B5 b)) = (\<lambda>b. b_next (B b))(k := b_next (B NBUF), NBUF := k)"
    "(\<lambda>b. b_prev (B5 b)) = ((\<lambda>b. b_prev (B b))(k := NBUF))(b_next (B NBUF) := k)"
    using k by (auto simp: B5_def n3 fun_eq_iff)
  have "dll (\<lambda>b. b_next (B b)) (\<lambda>b. b_prev (B b)) NBUF (rev [0..<k]) NBUF" using assms(1) by (simp add: linked_to_def B_def)
  from dll_insert [OF this, of k] have "dll (\<lambda>b. b_next (B5 b)) (\<lambda>b. b_prev (B5 b)) NBUF (rev [0..<Suc k]) NBUF"
    unfolding nx using assms(2) by simp
  moreover have "b_dev (B5 b) = - 1" if "b < Suc k" for b
    using that assms(1) by (auto simp: B5_def B3_def B2_def linked_to_def B_def less_Suc_eq)
  moreover have "idle_buf (B5 b)" for b
    using assms(1) by (auto simp: B5_def B3_def B2_def linked_to_def B_def idle_buf_def)
  ultimately show ?thesis using run by (auto simp: linked_to_def)
qed

lemma binit_run:
  assumes zero: "\<And>b. idle_buf (bufs s b)"
    and s'_def: "\<And>B. s' B = s\<lparr>owner := (owner s)(BcacheLock := None), bufs := B\<rparr>"
  shows "\<exists>B. binit s = Ret () (s' B) \<and> bc_ok (s' B) \<and> (\<forall>b. idle_buf (B b)) \<and> (\<forall>b n. \<not> holds (s' B) b n)"
proof -
  let ?t = "s\<lparr>owner := (owner s)(BcacheLock := None), bufs := put_next NBUF NBUF (put_prev NBUF NBUF (bufs s))\<rparr>"
  have 1: "binit s = kfor [0..<NBUF] binit_link ?t" by (simp add: binit_def kmonad link_step)
  have "\<exists>s'. kfor [0..<NBUF] binit_link ?t = Ret () s' \<and> (\<exists>B. s' = ?t\<lparr>bufs := B\<rparr> \<and> linked_to NBUF s')"
  proof (rule kfor_upto [where I = "\<lambda>k s'. \<exists>B. s' = ?t\<lparr>bufs := B\<rparr> \<and> linked_to k s'"])
    show "\<exists>s'. binit_link i u = Ret () s' \<and> (\<exists>B. s' = ?t\<lparr>bufs := B\<rparr> \<and> linked_to (Suc i) s')"
      if "i < NBUF" "\<exists>B. u = ?t\<lparr>bufs := B\<rparr> \<and> linked_to i u" for i u
      using that binit_link_run [of i u] by auto
    show "\<exists>B. ?t = ?t\<lparr>bufs := B\<rparr> \<and> linked_to 0 ?t"
      using zero by (intro exI [of _ "bufs ?t"]) (simp add: linked_to_def idle_buf_def)
  qed simp
  then obtain B where B: "binit s = Ret () (?t\<lparr>bufs := B\<rparr>)" "linked_to NBUF (?t\<lparr>bufs := B\<rparr>)" using 1 by auto
  have "bc_list (?t\<lparr>bufs := B\<rparr>) (rev [0..<NBUF])" using B(2) by (auto simp: bc_list_def linked_to_def)
  moreover have "\<not> holds (?t\<lparr>bufs := B\<rparr>) b n" for b n using B(2) by (auto simp: linked_to_def holds_def)
  ultimately have "bc_ok (?t\<lparr>bufs := B\<rparr>)" "\<forall>b n. \<not> holds (?t\<lparr>bufs := B\<rparr>) b n" by (auto simp: bc_ok_def)
  with B show ?thesis by (intro exI [of _ B]) (auto simp: s'_def linked_to_def)
qed

section \<open>Properties\<close>

lemma set_bwrite_brelse:
  assumes ok: "bc_ok s" and env: "benv s" and b: "holds s b n" "b_busy (bufs s b)" "b_valid (bufs s b)" and n: "n < disksize s"
  shows "\<exists>s'. kdo [upd_buf b (\<lambda>x. x\<lparr>b_data := d\<rparr>), bwrite b, brelse b] s = Ret () s' \<and> bc_ok s' \<and> benv s'
    \<and> (\<forall>m. blk s' m = (if m = n then d else blk s m)) \<and> disk s' = (disk s)(n := d) \<and> \<not> b_busy (bufs s' b)"
proof -
  let ?t = "with_buf b ((bufs s b)\<lparr>b_data := d\<rparr>) s"
  note st = set_data_run [OF ok b, where d = d, OF refl]
  have t: "holds ?t b n" "b_busy (bufs ?t b)" "b_valid (bufs ?t b)" "n < disksize ?t" using st(3) b n by simp_all
  let ?u = "(with_buf b ((bufs ?t b)\<lparr>b_dirty := False\<rparr>) ?t)\<lparr>dwrites := (n, b_data (bufs ?t b)) # dwrites ?t\<rparr>"
  note wr = bwrite_run [OF st(1) t refl]
  have env': "benv ?u" using env by (simp add: benv_def with_buf_def table_ok_def lists_rep_def nexts_def)
  have u: "holds ?u b n" "b_busy (bufs ?u b)" "disk ?u m = (if m = n then d else disk s m)" "b_data (bufs ?u b) = disk ?u n" for m
    using wr(4,5) st(3) b by simp_all
  from brelse_run [OF wr(2) env' u(1,2) u(4)] obtain s' where s': "brelse b ?u = Ret () s'" "released ?u b s'" by blast
  have "disk s' = disk ?u" using s'(2) bframe_sel(5) [of ?u s'] by (auto simp: released_def disk_def)
  also have "\<dots> = (disk s)(n := d)" using u(3) by (auto simp: fun_eq_iff)
  finally have dk: "disk s' = (disk s)(n := d)" .
  have "kdo [upd_buf b (\<lambda>x. x\<lparr>b_data := d\<rparr>), bwrite b, brelse b] s = Ret () s'"
    using wr(1) s'(1) by (simp add: kmonad upd_buf_run)
  moreover have "blk s' m = (if m = n then d else blk s m)" for m
    using s'(2) wr(3) st(2) by (simp add: released_def)
  ultimately show ?thesis using s'(2) dk by (auto simp: released_def)
qed

definition bio_demo :: bstate where
  "bio_demo = pstate.extend pipe_demo (bstate.fields
     (\<lambda>_. \<lparr>b_busy = False, b_valid = False, b_dirty = False, b_dev = 0, b_blockno = 0, b_prev = 0, b_next = 0, b_qnext = None, b_data = []\<rparr>)
     (\<lambda>n. replicate 512 (ucast n)) [] 1000 None True (\<lambda>_. []))"

lemma bio_demo_env: "benv (bio_demo\<lparr>bufs := B\<rparr>)" "owner bio_demo = (\<lambda>_. None)" "disksize bio_demo = 1000"
proof -
  have "lists_rep (bio_demo\<lparr>bufs := B\<rparr>) (\<lambda>_. []) []"
    by (simp add: lists_rep_def links_ok_def pipe_demo_def bio_demo_def pstate.defs bstate.defs)
  then have "table_ok (bio_demo\<lparr>bufs := B\<rparr>) (\<lambda>_. []) []"
    by (auto simp: table_ok_def pipe_demo_def bio_demo_def pstate.defs bstate.defs)
  then show "benv (bio_demo\<lparr>bufs := B\<rparr>)"
    by (auto simp: benv_def pipe_demo_def bio_demo_def pstate.defs bstate.defs)
  show "owner bio_demo = (\<lambda>_. None)" "disksize bio_demo = 1000"
    by (simp_all add: pipe_demo_def bio_demo_def pstate.defs bstate.defs)
qed

lemma NBUF_pos: "\<exists>b. b < NBUF"
  by (rule exI [of _ 0]) (simp add: NBUF_def)

lemma bio_boot:
  "\<exists>s. binit bio_demo = Ret () s \<and> bc_ok s \<and> benv s \<and> disksize s = 1000 \<and> (\<forall>b. idle_buf (bufs s b)) \<and> (\<forall>b n. \<not> holds s b n)"
proof -
  have "bio_demo\<lparr>owner := (owner bio_demo)(BcacheLock := None), bufs := B\<rparr> = bio_demo\<lparr>bufs := B\<rparr>" for B
    by (simp add: bio_demo_def pipe_demo_def pstate.defs bstate.defs fun_upd_idem)
  then show ?thesis
    using binit_run [of bio_demo "\<lambda>B. bio_demo\<lparr>bufs := B\<rparr>"] bio_demo_env
    by (auto simp: bio_demo_def pstate.defs bstate.defs idle_buf_def)
qed

text \<open>C8. The buffer cache gives one copy of each block: with the cache invariant, \<open>bread\<close> of an unlocked block within
  the disk, cached or not as long as some buffer is idle and clean, returns a buffer held by the caller with
  the block's current contents, keeps the invariant (in it, that at most one buffer holds a block), and changes no block.\<close>

theorem bread_delivers:
  assumes "bc_ok s" "benv s" "n < disksize s" "\<And>b. holds s b n \<Longrightarrow> \<not> b_busy (bufs s b)"
    and "(\<exists>b. holds s b n) \<or> (\<exists>b < NBUF. \<not> b_busy (bufs s b) \<and> \<not> b_dirty (bufs s b))"
  shows "\<exists>b s'. bread 1 n s = Ret b s' \<and> (\<forall>c. holds s' c n \<longleftrightarrow> c = b) \<and> b_busy (bufs s' b) \<and> b_valid (bufs s' b)
    \<and> b_data (bufs s' b) = blk s n \<and> bc_ok s' \<and> (\<forall>m. blk s' m = blk s m) \<and> disk s' = disk s"
proof -
  from bread_run [OF assms] obtain b s' where b: "bread 1 n s = Ret b s'" "got s n b s'" by blast
  then have "disk s' = disk s" by (auto simp: got_def)
  moreover have "holds s' c n \<longleftrightarrow> c = b" for c using b(2) bc_okD(1) [of s' c n b] by (auto simp: got_def)
  ultimately show ?thesis using b by (auto simp: got_def)
qed

theorem bread_delivers_witness:
  "\<exists>s b s'. binit bio_demo = Ret () s \<and> bread 1 7 s = Ret b s' \<and> b_data (bufs s' b) = disk s 7"
proof -
  obtain s where s: "binit bio_demo = Ret () s" "bc_ok s" "benv s" "disksize s = 1000" "\<forall>b. idle_buf (bufs s b)"
    "\<forall>b n. \<not> holds s b n" using bio_boot by blast
  have "\<exists>b s'. bread 1 7 s = Ret b s' \<and> b_data (bufs s' b) = blk s 7"
    using bread_delivers [OF s(2,3), of 7] s(4-6) NBUF_pos by (auto simp: idle_buf_def)
  moreover have "blk s 7 = disk s 7" using s(6) by (intro blk_disk) auto
  ultimately show ?thesis using s(1) by auto
qed

text \<open>C28. The pattern by which blocks reach the disk: filling a held buffer with \<open>d\<close>, then \<open>bwrite\<close> and \<open>brelse\<close>, makes
  \<open>d\<close> the contents of its block in the cache and on the disk alike, changes no other block, unlocks the buffer
  and keeps the cache invariant, the recency ring with it.\<close>

theorem bwrite_writes_through:
  assumes "bc_ok s" "benv s" "holds s b n" "b_busy (bufs s b)" "b_valid (bufs s b)" "n < disksize s"
  shows "\<exists>s'. kdo [upd_buf b (\<lambda>x. x\<lparr>b_data := d\<rparr>), bwrite b, brelse b] s = Ret () s' \<and> bc_ok s'
    \<and> (\<forall>m. blk s' m = (if m = n then d else blk s m)) \<and> disk s' = (disk s)(n := d) \<and> \<not> b_busy (bufs s' b)"
  using set_bwrite_brelse [OF assms] by blast

theorem bwrite_writes_through_witness:
  "\<exists>s b t s'. binit bio_demo = Ret () s \<and> bread 1 7 s = Ret b t
    \<and> kdo [upd_buf b (\<lambda>x. x\<lparr>b_data := [1, 2]\<rparr>), bwrite b, brelse b] t = Ret () s' \<and> disk s' 7 = [1, 2]"
proof -
  obtain s where s: "binit bio_demo = Ret () s" "bc_ok s" "benv s" "disksize s = 1000" "\<forall>b. idle_buf (bufs s b)"
    "\<forall>b n. \<not> holds s b n" using bio_boot by blast
  obtain b t where t: "bread 1 7 s = Ret b t" "got s 7 b t"
    using bread_run [OF s(2,3), of 7] s(4-6) NBUF_pos by (auto simp: idle_buf_def)
  then have "7 < disksize t" using s(4) by (auto simp: got_def)
  with t(2) bwrite_writes_through [of t b 7 "[1, 2]"] show ?thesis using s(1) t(1) by (auto simp: got_def)
qed

text \<open>The cache never evicts a buffer in use or one pinned by the log: when all buffers are busy or dirty and the
  block is not cached, \<open>bget\<close> panics; nothing is written or lost.\<close>

theorem bget_never_evicts_pinned:
  assumes "bc_ok s" "benv s" "\<And>b. b < NBUF \<Longrightarrow> b_busy (bufs s b) \<or> b_dirty (bufs s b)" "\<And>b. \<not> holds s b n"
  shows "bget 1 n s = Stop (Panic ''bget: no buffers'')"
proof -
  have lf: "lock_free BcacheLock s" using assms(2) by (simp add: benv_def lock_free_def)
  obtain xs where xs: "bc_list (lock_taken BcacheLock s) xs" "set xs = {..<NBUF}"
    using bc_okD(4) [OF assms(1)] by (auto simp: bc_list_def)
  have "find (\<lambda>b. b_dev (bufs s b) = 1 \<and> b_blockno (bufs s b) = n) xs = None"
    using assms(4) xs(2) by (auto simp: find_None_iff holds_def)
  moreover have "find (\<lambda>b. \<not> b_busy (bufs s b) \<and> \<not> b_dirty (bufs s b)) (rev xs) = None"
    using assms(3) xs(2) by (auto simp: find_None_iff)
  ultimately show ?thesis
    using klock.acq_free [OF lf] scan_next [OF xs(1), of "\<lambda>x. b_dev x = 1 \<and> b_blockno x = n"]
      scan_prev [OF xs(1), of "\<lambda>x. \<not> b_busy x \<and> \<not> b_dirty x"]
    by (simp add: bget_def bget_loop_def kmonad)
qed

theorem bget_never_evicts_pinned_witness:
  "\<exists>s :: bstate. bc_ok s \<and> (\<forall>b. \<not> b_dirty (bufs s b)) \<and> bget 1 7 s = Stop (Panic ''bget: no buffers'')"
proof -
  obtain s where s: "binit bio_demo = Ret () s" "bc_ok s" "benv s" "\<forall>b. idle_buf (bufs s b)"
    "\<forall>b n. \<not> holds s b n" using bio_boot by blast
  let ?s = "s\<lparr>bufs := (\<lambda>b. (bufs s b)\<lparr>b_busy := True\<rparr>)\<rparr>"
  have h: "\<not> holds ?s b n" for b n using s(5) by (simp add: holds_def)
  obtain xs where "bc_list s xs" using bc_okD(4) [OF s(2)] by blast
  then have "bc_list ?s xs" by (simp add: bc_list_def)
  with h have ok: "bc_ok ?s" by (auto simp: bc_ok_def)
  have env: "benv ?s" using s(3) by (simp add: benv_def table_ok_def lists_rep_def nexts_def)
  have "bget 1 7 ?s = Stop (Panic ''bget: no buffers'')"
    by (rule bget_never_evicts_pinned [OF ok env _ h]) simp
  with ok s(4) show ?thesis by (intro exI [of _ ?s]) (simp add: idle_buf_def)
qed

end
