(* ===== verification/Log.thy ===== *)
theory Log
  imports Bio "HOL-Library.Sublist"
begin

text \<open>
  The write-ahead log (\<open>log.c\<close>) over the buffer cache. The header block on the disk and the header in
  memory hold the number of logged blocks and their home block numbers; \<open>commit\<close> copies the cached
  blocks to the log, writes the header, installs the blocks at their homes and clears the header;
  \<open>recover_from_log\<close> installs what a committed header names. A power failure can come after any block
  write, so the states on which recovery may start are the disks after any initial part of the writes.
\<close>

section \<open>Words in a block\<close>

unbundle bit_operations_syntax

definition rd32 :: "block \<Rightarrow> nat \<Rightarrow> uint" where
  "rd32 d i = ucast (d ! i) OR push_bit 8 (ucast (d ! (i + 1)))
     OR push_bit 16 (ucast (d ! (i + 2))) OR push_bit 24 (ucast (d ! (i + 3)))"

definition wr32 :: "block \<Rightarrow> nat \<Rightarrow> uint \<Rightarrow> block" where
  "wr32 d i w = d[i := ucast w, i + 1 := ucast (drop_bit 8 w), i + 2 := ucast (drop_bit 16 w), i + 3 := ucast (drop_bit 24 w)]"

definition LOGSIZE :: nat where
  "LOGSIZE = 30"

definition MAXOPBLOCKS :: nat where
  "MAXOPBLOCKS = 10"

record superblock =
  sb_size :: uint
  sb_nblocks :: uint
  sb_ninodes :: uint
  sb_nlog :: uint
  sb_logstart :: uint
  sb_inodestart :: uint
  sb_bmapstart :: uint

definition sb_of :: "block \<Rightarrow> superblock" where
  "sb_of d = \<lparr>sb_size = rd32 d 0, sb_nblocks = rd32 d 4, sb_ninodes = rd32 d 8, sb_nlog = rd32 d 12,
     sb_logstart = rd32 d 16, sb_inodestart = rd32 d 20, sb_bmapstart = rd32 d 24\<rparr>"

definition readsb :: "uint \<Rightarrow> ('z bstate_scheme, superblock) km" where
  "readsb dev = kbind (bread dev 1) (\<lambda>bp. kbind (the_buf bp b_data) (\<lambda>d. kdo2 [brelse bp] (kret (sb_of d))))"

section \<open>The log\<close>

text \<open>\<open>struct log\<close>: the lock is in the map of lock owners; \<open>lh_n\<close> and \<open>lh_block\<close> are \<open>struct logheader\<close>.\<close>

record lstate = bstate +
  lg_start :: uint
  lg_size :: int
  lg_outstanding :: int
  lg_committing :: bool
  lg_dev :: uint
  lh_n :: int
  lh_block :: "nat \<Rightarrow> uint"

definition log_block :: "nat \<Rightarrow> ('z lstate_scheme, uint) km" where
  "log_block i = (if i < LOGSIZE then kget (\<lambda>s. lh_block s i) else kfault ''log.lh.block'')"

text \<open>\<open>memmove(dst->data, src->data, BSIZE)\<close>.\<close>

definition copy_data :: "nat \<Rightarrow> nat \<Rightarrow> ('z bstate_scheme, unit) km" where
  "copy_data dst src = kbind (the_buf src b_data) (\<lambda>d. upd_buf dst (\<lambda>x. x\<lparr>b_data := d\<rparr>))"

definition install_one :: "nat \<Rightarrow> ('z lstate_scheme, unit) km" where
  "install_one tail = kbind (kget (\<lambda>s. (lg_dev s, lg_start s))) (\<lambda>(dev, start).
     kbind (bread dev (start + of_nat tail + 1)) (\<lambda>lbuf.
     kbind (log_block tail) (\<lambda>home. kbind (bread dev home) (\<lambda>dbuf.
     kdo [copy_data dbuf lbuf, bwrite dbuf, brelse lbuf, brelse dbuf]))))"

definition install_trans :: "('z lstate_scheme, unit) km" where
  "install_trans = kbind (kget lh_n) (\<lambda>n. kfor [0..<nat n] install_one)"

definition read_head :: "('z lstate_scheme, unit) km" where
  "read_head = kbind (kget (\<lambda>s. (lg_dev s, lg_start s))) (\<lambda>(dev, start). kbind (bread dev start) (\<lambda>b.
     kbind (the_buf b b_data) (\<lambda>d. kdo [
       kmod (\<lambda>s. s\<lparr>lh_n := sint (rd32 d 0)\<rparr>),
       kfor [0..<nat (sint (rd32 d 0))] (\<lambda>i.
         if i < LOGSIZE then kmod (\<lambda>s. s\<lparr>lh_block := (lh_block s)(i := rd32 d (4 + 4 * i))\<rparr>) else kfault ''log.lh.block''),
       brelse b])))"

definition write_head :: "('z lstate_scheme, unit) km" where
  "write_head = kbind (kget (\<lambda>s. (lg_dev s, lg_start s))) (\<lambda>(dev, start). kbind (bread dev start) (\<lambda>b.
     kbind (kget lh_n) (\<lambda>n. kdo [
       upd_buf b (\<lambda>x. x\<lparr>b_data := wr32 (b_data x) 0 (of_int n)\<rparr>),
       kfor [0..<nat n] (\<lambda>i. kbind (log_block i) (\<lambda>w. upd_buf b (\<lambda>x. x\<lparr>b_data := wr32 (b_data x) (4 + 4 * i) w\<rparr>))),
       bwrite b, brelse b])))"

definition recover_from_log :: "('z lstate_scheme, unit) km" where
  "recover_from_log = kdo [read_head, install_trans, kmod (\<lambda>s. s\<lparr>lh_n := 0\<rparr>), write_head]"

definition initlog :: "uint \<Rightarrow> ('z lstate_scheme, unit) km" where
  "initlog dev = kdo [
     kmod (\<lambda>s. s\<lparr>owner := (owner s)(LogLock := None)\<rparr>),
     kbind (readsb dev) (\<lambda>sb. kmod (\<lambda>s. s\<lparr>lg_start := sb_logstart sb, lg_size := sint (sb_nlog sb)\<rparr>)),
     kmod (\<lambda>s. s\<lparr>lg_dev := dev\<rparr>),
     recover_from_log]"

text \<open>The loop of \<open>begin_op\<close>, entered again after each sleep.\<close>

definition begin_op_loop :: "('z lstate_scheme, unit) km" where
  "begin_op_loop = kbind (kget (\<lambda>s. (lg_committing s, lh_n s, lg_outstanding s))) (\<lambda>(committing, n, outstanding).
     if committing then sleep LogChan (Some LogLock)
     else if n + (outstanding + 1) * int MAXOPBLOCKS > int LOGSIZE then sleep LogChan (Some LogLock)
     else kdo [kmod (\<lambda>s. s\<lparr>lg_outstanding := lg_outstanding s + 1\<rparr>), release_lk LogLock])"

definition begin_op :: "('z lstate_scheme, unit) km" where
  "begin_op = kthen (acquire_lk LogLock) begin_op_loop"

definition begin_op_resume :: "('z lstate_scheme, unit) km" where
  "begin_op_resume = kthen (sleep_tail LogLock) begin_op_loop"

definition write_log_one :: "nat \<Rightarrow> ('z lstate_scheme, unit) km" where
  "write_log_one tail = kbind (kget (\<lambda>s. (lg_dev s, lg_start s))) (\<lambda>(dev, start).
     kbind (bread dev (start + of_nat tail + 1)) (\<lambda>to.
     kbind (log_block tail) (\<lambda>home. kbind (bread dev home) (\<lambda>from.
     kdo [copy_data to from, bwrite to, brelse from, brelse to]))))"

definition write_log :: "('z lstate_scheme, unit) km" where
  "write_log = kbind (kget lh_n) (\<lambda>n. kfor [0..<nat n] write_log_one)"

definition commit :: "('z lstate_scheme, unit) km" where
  "commit = kbind (kget lh_n) (\<lambda>n. if n > 0 then kdo [
     write_log, write_head, install_trans, kmod (\<lambda>s. s\<lparr>lh_n := 0\<rparr>), write_head] else kret ())"

definition end_op :: "('z lstate_scheme, unit) km" where
  "end_op = kdo [
     acquire_lk LogLock,
     kmod (\<lambda>s. s\<lparr>lg_outstanding := lg_outstanding s - 1\<rparr>),
     kbind (kget lg_committing) (\<lambda>c. if c then kpanic ''log.committing'' else kret ()),
     kbind (kget lg_outstanding) (\<lambda>k.
       if k = 0 then kdo [
         kmod (\<lambda>s. s\<lparr>lg_committing := True\<rparr>), release_lk LogLock,
         commit,
         acquire_lk LogLock, kmod (\<lambda>s. s\<lparr>lg_committing := False\<rparr>), wakeup LogChan, release_lk LogLock]
       else kdo [wakeup LogChan, release_lk LogLock])]"

text \<open>\<open>log_write\<close>: the search loop ends at the first slot with the block number, or at \<open>lh_n\<close>.\<close>

definition log_write :: "nat \<Rightarrow> ('z lstate_scheme, unit) km" where
  "log_write b = kbind (kget (\<lambda>s. (lh_n s, lg_size s, lg_outstanding s))) (\<lambda>(n, size, outstanding).
     if n \<ge> int LOGSIZE \<or> n \<ge> size - 1 then kpanic ''too big a transaction''
     else if outstanding < 1 then kpanic ''log_write outside of trans''
     else kdo [
       acquire_lk LogLock,
       kbind (the_buf b b_blockno) (\<lambda>bn. kbind (kget (\<lambda>s. (lh_n s, lh_block s))) (\<lambda>(n, blocks).
         let i = (case find (\<lambda>i. blocks i = bn) [0..<nat n] of Some i \<Rightarrow> i | None \<Rightarrow> nat n) in kdo [
           kmod (\<lambda>s. s\<lparr>lh_block := (lh_block s)(i := bn)\<rparr>),
           (if int i = n then kmod (\<lambda>s. s\<lparr>lh_n := lh_n s + 1\<rparr>) else kret ())])),
       upd_buf b (\<lambda>x. x\<lparr>b_dirty := True\<rparr>),
       release_lk LogLock])"

section \<open>Sequences of block writes\<close>

text \<open>\<open>held s H\<close>: the cache is consistent and the locked buffers are \<open>H\<close>; \<open>dirtyb\<close> are the pinned buffers, \<open>pinned\<close> the
  block numbers they hold.\<close>

definition busyb :: "'z bstate_scheme \<Rightarrow> nat set" where
  "busyb s = {b. b < NBUF \<and> b_busy (bufs s b)}"

definition held :: "'z bstate_scheme \<Rightarrow> nat set \<Rightarrow> bool" where
  "held s H \<longleftrightarrow> bc_ok s \<and> benv s \<and> busyb s = H \<and> (\<forall>b \<in> H. b_valid (bufs s b)
     \<and> (\<exists>n. holds s b n \<and> (\<not> b_dirty (bufs s b) \<longrightarrow> b_data (bufs s b) = disk s n)))"

definition dirtyb :: "'z bstate_scheme \<Rightarrow> nat set" where
  "dirtyb s = {b. b < NBUF \<and> b_dirty (bufs s b)}"

definition pinned :: "'z bstate_scheme \<Rightarrow> uint set" where
  "pinned s = {n. \<exists>b. holds s b n \<and> b_dirty (bufs s b)}"

definition room :: "nat \<Rightarrow> 'z bstate_scheme \<Rightarrow> bool" where
  "room k s \<longleftrightarrow> card (dirtyb s) + k \<le> NBUF"

text \<open>\<open>wrote s ws s'\<close>: the step from \<open>s\<close> to \<open>s'\<close> made the disk writes \<open>ws\<close>, newest first, and left the
  cache consistent with them.\<close>

definition wrote :: "'z bstate_scheme \<Rightarrow> (uint \<times> block) list \<Rightarrow> 'z bstate_scheme \<Rightarrow> bool" where
  "wrote s ws s' \<longleftrightarrow> held s' {} \<and> dwrites s' = ws @ dwrites s \<and> disk0 s' = disk0 s \<and> disksize s' = disksize s
     \<and> (\<forall>m. blk s' m = disk_after (blk s) ws m) \<and> pinned s' = pinned s - fst ` set ws
     \<and> dirtyb s' \<subseteq> dirtyb s"

lemma disk_after_append: "disk_after d (xs @ ys) = disk_after (disk_after d ys) xs"
  by (auto simp: disk_after_def fun_eq_iff map_add_def split: option.split)

lemma disk_after_Cons: "disk_after d ((n, x) # ws) = (disk_after d ws)(n := x)"
  by (auto simp: disk_after_def fun_eq_iff)

lemma disk_after_Nil [simp]: "disk_after d [] = d"
  by (auto simp: disk_after_def)

lemma wrote_trans:
  assumes "wrote s ws t" "wrote t vs u"
  shows "wrote s (vs @ ws) u"
proof -
  have "blk u m = disk_after (blk s) (vs @ ws) m" for m
  proof -
    have "blk t = disk_after (blk s) ws" using assms(1) by (auto simp: wrote_def fun_eq_iff)
    then show ?thesis using assms(2) by (simp add: wrote_def disk_after_append)
  qed
  with assms show ?thesis by (auto simp: wrote_def)
qed

lemma wrote_disk: "wrote s ws s' \<Longrightarrow> disk s' = disk_after (disk s) ws"
  by (simp add: wrote_def disk_def disk_after_append)

lemma room_wrote: "wrote s ws s' \<Longrightarrow> room k s \<Longrightarrow> room k s'"
proof -
  assume a: "wrote s ws s'" "room k s"
  have "finite (dirtyb s)" by (simp add: dirtyb_def)
  then have "card (dirtyb s') \<le> card (dirtyb s)" using a(1) by (intro card_mono) (auto simp: wrote_def)
  then show ?thesis using a(2) by (simp add: room_def)
qed

lemma room_clean:
  assumes "room (Suc (card X)) s" "finite X"
  shows "\<exists>b < NBUF. \<not> b_dirty (bufs s b) \<and> b \<notin> X"
proof (rule ccontr)
  assume "\<not> ?thesis"
  then have "{..<NBUF} \<subseteq> dirtyb s \<union> X" by (auto simp: dirtyb_def)
  then have "NBUF \<le> card (dirtyb s \<union> X)" using assms(2) card_mono [of "dirtyb s \<union> X" "{..<NBUF}"] by (simp add: dirtyb_def)
  also have "\<dots> \<le> card (dirtyb s) + card X" by (rule card_Un_le)
  finally show False using assms(1) by (simp add: room_def)
qed

text \<open>What \<open>bread\<close> of an idle block and \<open>brelse\<close> keep.\<close>

lemma got_pinned:
  assumes "got s n b s'"
  shows "pinned s' = pinned s" "dirtyb s' = dirtyb s"
proof -
  obtain x where x: "s' = with_buf b x s" using assms by (auto simp: got_def)
  have bd: "b_dirty x \<longleftrightarrow> holds s b n \<and> b_dirty (bufs s b)" "\<not> holds s b n \<Longrightarrow> \<not> b_dirty (bufs s b)" "holds s' b n"
    using assms by (auto simp: got_def x)
  have o: "holds s' c m \<longleftrightarrow> holds s c m" "bufs s' c = bufs s c" if "c \<noteq> b" for c m using that by (auto simp: x holds_def)
  have e: "holds s' c m \<and> b_dirty (bufs s' c) \<longleftrightarrow> holds s c m \<and> b_dirty (bufs s c)" for c m
  proof (cases "c = b")
    case True
    then show ?thesis using bd by (auto simp: x holds_def)
  qed (simp add: o)
  show "pinned s' = pinned s" by (simp add: pinned_def e)
  show "dirtyb s' = dirtyb s" using bd by (auto simp: dirtyb_def x)
qed

lemma got_coh:
  assumes ok: "bc_ok s" and g: "got s n b s'" and "\<not> b_dirty (bufs s' b)"
  shows "b_data (bufs s' b) = disk s' n"
proof -
  have g': "bc_ok s'" "holds s' b n" "b_data (bufs s' b) = blk s n" "disk s' = disk s" "\<not> b_busy (bufs s b)"
    "\<not> (holds s b n \<and> b_dirty (bufs s b))" "\<And>c m. c \<noteq> b \<Longrightarrow> holds s' c m \<longleftrightarrow> holds s c m"
    using g assms(3) by (auto simp: got_def holds_def)
  have only: "c = b" if "holds s c n" for c using bc_okD(1) [OF g'(1) _ g'(2)] g'(7) that by blast
  have "blk s n = disk s n"
  proof (cases "holds s b n \<and> b_valid (bufs s b)")
    case True
    then show ?thesis using blk_cached [OF ok, of b n] bc_okD(3) [OF ok, of b n] g'(5,6) by simp
  next
    case False
    then show ?thesis using only by (intro blk_disk) auto
  qed
  with g' show ?thesis by simp
qed

definition same_blocks :: "'z bstate_scheme \<Rightarrow> 'z bstate_scheme \<Rightarrow> bool" where
  "same_blocks s s' \<longleftrightarrow> (\<forall>m. blk s' m = blk s m) \<and> pinned s' = pinned s \<and> dirtyb s' = dirtyb s
     \<and> dwrites s' = dwrites s \<and> bframe s s'"

lemma bframe_with_buf: "bframe s (with_buf b x s)"
proof -
  have "with_buf b x s = s\<lparr>bufs := (bufs s)(b := x), dwrites := dwrites s, procs := procs s, pReadyList := pReadyList s,
    pFreeList := pFreeList s\<rparr>" by (simp add: with_buf_def)
  then show ?thesis unfolding bframe_def by blast
qed

lemma held_bread:
  assumes h: "held s H" and n: "n < disksize s" and new: "\<And>b. b \<in> H \<Longrightarrow> \<not> holds s b n"
    and av: "n \<in> pinned s \<or> room (Suc (card H)) s"
  shows "\<exists>b s'. bread 1 n s = Ret b s' \<and> b \<notin> H \<and> held s' (insert b H) \<and> holds s' b n \<and> b_data (bufs s' b) = blk s n
    \<and> same_blocks s s' \<and> (\<forall>c \<in> H. bufs s' c = bufs s c)"
proof -
  have ok: "bc_ok s" "benv s" "busyb s = H" using h by (auto simp: held_def)
  have idle: "\<not> b_busy (bufs s b)" if "holds s b n" for b
    using new [of b] that ok(3) by (auto simp: busyb_def holds_def)
  have "(\<exists>b. holds s b n) \<or> (\<exists>b < NBUF. \<not> b_busy (bufs s b) \<and> \<not> b_dirty (bufs s b))"
  proof (cases "n \<in> pinned s")
    case True
    then show ?thesis by (auto simp: pinned_def)
  next
    case False
    have "finite H" using ok(3) by (auto simp: busyb_def)
    with False room_clean [of H s] av obtain b where "b < NBUF" "\<not> b_dirty (bufs s b)" "b \<notin> H" by blast
    then show ?thesis using ok(3) by (auto simp: busyb_def)
  qed
  from bread_run [OF ok(1,2) n idle this] obtain b s' where b: "bread 1 n s = Ret b s'" "got s n b s'" by blast
  obtain x where x: "s' = with_buf b x s" using b(2) by (auto simp: got_def)
  have nb: "b \<notin> H" "b < NBUF" using b(2) ok(3) by (auto simp: got_def busyb_def holds_def)
  have "b_busy (bufs s' b)" using b(2) by (simp add: got_def)
  then have "busyb s' = insert b H" using ok(3) nb by (auto simp: busyb_def x)
  moreover have "\<not> b_dirty (bufs s' b) \<longrightarrow> b_data (bufs s' b) = disk s' n" using got_coh [OF ok(1) b(2)] by blast
  moreover have cH: "bufs s' c = bufs s c" "holds s' c m = holds s c m" if "c \<in> H" for c m using that nb by (auto simp: x holds_def)
  ultimately have "held s' (insert b H)" using b(2) h by (auto simp: held_def got_def)
  moreover have "same_blocks s s'"
    unfolding same_blocks_def using b(2) got_pinned [OF b(2)] bframe_with_buf [of s b x] x by (auto simp: got_def)
  ultimately show ?thesis using b nb cH by (intro exI [of _ b] exI [of _ s']) (auto simp: got_def)
qed

lemma held_brelse:
  assumes h: "held s H" and b: "b \<in> H"
  shows "\<exists>s'. brelse b s = Ret () s' \<and> held s' (H - {b}) \<and> same_blocks s s' \<and> (\<forall>c m. holds s' c m = holds s c m)
    \<and> (\<forall>c. b_data (bufs s' c) = b_data (bufs s c))"
proof -
  obtain n where n: "holds s b n" "\<not> b_dirty (bufs s b) \<Longrightarrow> b_data (bufs s b) = disk s n" "b_busy (bufs s b)"
    using h b by (auto simp: held_def busyb_def)
  from brelse_run [OF _ _ n(1,3) n(2)] h obtain s' where s': "brelse b s = Ret () s'" "released s b s'" by (auto simp: held_def)
  have dk: "disk s' = disk s" using s'(2) bframe_sel(5) [of s s'] by (auto simp: released_def disk_def)
  have "busyb s' = H - {b}" using s'(2) h by (auto simp: released_def held_def busyb_def)
  then have "held s' (H - {b})" using s'(2) h dk by (auto simp: released_def held_def)
  moreover have "same_blocks s s'" using s'(2) by (auto simp: released_def same_blocks_def pinned_def dirtyb_def)
  ultimately show ?thesis using s' by (auto simp: released_def)
qed

lemma held_write:
  assumes h: "held s H" and b: "b \<in> H" "holds s b n" and n: "n < disksize s"
  shows "\<exists>s'. kdo (upd_buf b (\<lambda>x. x\<lparr>b_data := d\<rparr>) # bwrite b # ms) s = kdo ms s' \<and> held s' H
    \<and> dwrites s' = (n, d) # dwrites s \<and> (\<forall>m. blk s' m = (if m = n then d else blk s m)) \<and> pinned s' = pinned s - {n}
    \<and> dirtyb s' \<subseteq> dirtyb s \<and> bframe s s' \<and> (\<forall>c m. holds s' c m = holds s c m)"
proof -
  have ok: "bc_ok s" "benv s" "busyb s = H" using h by (auto simp: held_def)
  have bb: "b_busy (bufs s b)" "b_valid (bufs s b)" using h b by (auto simp: held_def busyb_def)
  let ?t = "with_buf b ((bufs s b)\<lparr>b_data := d\<rparr>) s"
  note st = set_data_run [OF ok(1) b(2) bb, where d = d, OF refl]
  have t: "holds ?t b n" "b_busy (bufs ?t b)" "b_valid (bufs ?t b)" "n < disksize ?t" using st(3) bb b n by simp_all
  define u where "u = (with_buf b ((bufs ?t b)\<lparr>b_dirty := False\<rparr>) ?t)\<lparr>dwrites := (n, b_data (bufs ?t b)) # dwrites ?t\<rparr>"
  note wr = bwrite_run [OF st(1) t u_def]
  have env': "benv u" using ok(2) by (simp add: u_def benv_def with_buf_def table_ok_def lists_rep_def nexts_def)
  have hs: "holds u c m = holds s c m" for c m by (simp add: wr(4) st(3))
  have bufs_u: "bufs u c = (if c = b then (bufs s b)\<lparr>b_data := d, b_dirty := False\<rparr> else bufs s c)" for c by (simp add: u_def)
  have dk: "disk u m = (if m = n then d else disk s m)" for m by (simp add: wr(5))
  have only: "c = b" if "holds s c n" for c using bc_okD(1) [OF ok(1) that b(2)] .
  have run: "kdo (upd_buf b (\<lambda>x. x\<lparr>b_data := d\<rparr>) # bwrite b # ms) s = kdo ms u"
    using wr(1) by (simp add: kmonad upd_buf_run)
  have bz: "busyb u = H" using ok(3) by (auto simp: busyb_def bufs_u)
  have hu: "held u H"
    unfolding held_def hs
  proof (intro conjI ballI wr(2) env' bz)
    fix c assume c: "c \<in> H"
    show "b_valid (bufs u c)" using h c by (auto simp: held_def bufs_u)
    show "\<exists>m. holds s c m \<and> (\<not> b_dirty (bufs u c) \<longrightarrow> b_data (bufs u c) = disk u m)"
    proof (cases "c = b")
      case True
      then show ?thesis using b(2) by (intro exI [of _ n]) (simp add: bufs_u dk)
    next
      case False
      obtain m where m: "holds s c m" "\<not> b_dirty (bufs s c) \<longrightarrow> b_data (bufs s c) = disk s m" using h c by (auto simp: held_def)
      then have "m \<noteq> n" using only False by blast
      with m False show ?thesis by (intro exI [of _ m]) (simp add: bufs_u dk)
    qed
  qed
  have pin: "pinned u = pinned s - {n}"
  proof -
    have "b_dirty (bufs u c) \<longleftrightarrow> c \<noteq> b \<and> b_dirty (bufs s c)" for c by (simp add: bufs_u)
    moreover have "c \<noteq> b \<longleftrightarrow> m \<noteq> n" if "holds s c m" for c m
      using only [of c] that b(2) by (auto simp: holds_def)
    ultimately show ?thesis unfolding pinned_def hs by blast
  qed
  have fr: "bframe s u"
  proof -
    have "u = s\<lparr>bufs := (bufs s)(b := (bufs s b)\<lparr>b_data := d, b_dirty := False\<rparr>), dwrites := (n, d) # dwrites s, procs := procs s,
      pReadyList := pReadyList s, pFreeList := pFreeList s\<rparr>" by (simp add: u_def with_buf_def)
    then show ?thesis unfolding bframe_def by blast
  qed
  show ?thesis
    using run hu pin fr hs wr(3) st(2) by (intro exI [of _ u]) (auto simp: u_def dirtyb_def)
qed

lemma same_blocks_trans: "same_blocks s t \<Longrightarrow> same_blocks t u \<Longrightarrow> same_blocks s u"
  by (auto simp: same_blocks_def intro: bframe_trans)

text \<open>The transfers of the log: block \<open>src\<close> is copied over block \<open>dst\<close>, on the disk too. The two buffers
  are read and released in either order.\<close>

lemma copy_data_run: "kthen (copy_data a b) k s = kthen (upd_buf a (\<lambda>x. x\<lparr>b_data := b_data (bufs s b)\<rparr>)) k s"
  by (simp add: copy_data_def kmonad the_buf_run upd_buf_run)

lemma copy_write:
  assumes u: "held u {a, b}" "a \<noteq> b" "holds u a src" "holds u b dst" "dst < disksize u"
    and xy: "x = a \<and> y = b \<or> x = b \<and> y = a"
  shows "\<exists>s'. kdo [copy_data b a, bwrite b, brelse x, brelse y] u = Ret () s' \<and> wrote u [(dst, b_data (bufs u a))] s' \<and> bframe u s'"
proof -
  have "b \<in> {a, b}" by simp
  from held_write [OF u(1) this u(4,5), of "b_data (bufs u a)" "[brelse x, brelse y]"] obtain t where
    t: "kdo (upd_buf b (\<lambda>x. x\<lparr>b_data := b_data (bufs u a)\<rparr>) # bwrite b # [brelse x, brelse y]) u = kdo [brelse x, brelse y] t"
       "held t {a, b}" "dwrites t = (dst, b_data (bufs u a)) # dwrites u" "\<forall>m. blk t m = (if m = dst then b_data (bufs u a) else blk u m)"
       "pinned t = pinned u - {dst}" "dirtyb t \<subseteq> dirtyb u" "bframe u t" by blast
  have "{a, b} - {x} = {y}" "x \<in> {a, b}" using xy u(2) by auto
  with held_brelse [OF t(2), of x] obtain v where v: "brelse x t = Ret () v" "held v {y}" "same_blocks t v" by auto
  from held_brelse [OF v(2), of y] obtain w where w: "brelse y v = Ret () w" "held w {}" "same_blocks v w" by auto
  note tw = same_blocks_trans [OF v(3) w(3)]
  have "kdo [copy_data b a, bwrite b, brelse x, brelse y] u = Ret () w"
    using t(1) v(1) w(1) by (simp add: kmonad copy_data_run)
  moreover have fr: "bframe u w" using t(7) tw by (auto simp: same_blocks_def intro: bframe_trans)
  moreover have "wrote u [(dst, b_data (bufs u a))] w"
    using w(2) t(3-6) tw bframe_sel [OF fr] by (auto simp: wrote_def same_blocks_def disk_after_def)
  ultimately show ?thesis by blast
qed

lemma wrote_same: "same_blocks s u \<Longrightarrow> wrote u ws s' \<Longrightarrow> wrote s ws s'"
proof -
  assume a: "same_blocks s u" "wrote u ws s'"
  then have "blk u = blk s" by (auto simp: same_blocks_def fun_eq_iff)
  with a bframe_sel [of s u] show ?thesis by (auto simp: wrote_def same_blocks_def)
qed

lemma wrote_Nil: "held s {} \<Longrightarrow> wrote s [] s"
  by (simp add: wrote_def)

lemma room_mono: "room k s \<Longrightarrow> j \<le> k \<Longrightarrow> room j s"
  by (simp add: room_def)

lemma two_breads:
  assumes h: "held s {}" and n: "n1 < disksize s" "n2 < disksize s" "n1 \<noteq> n2"
    and av: "room 1 s" "n2 \<in> pinned s \<or> room 2 s"
  shows "\<exists>a t b u. bread 1 n1 s = Ret a t \<and> bread 1 n2 t = Ret b u \<and> held u {a, b} \<and> a \<noteq> b \<and> holds u a n1 \<and> holds u b n2
    \<and> b_data (bufs u a) = blk s n1 \<and> b_data (bufs u b) = blk s n2 \<and> same_blocks s u \<and> bframe s t \<and> n1 < disksize u \<and> n2 < disksize u"
proof -
  have "n1 \<in> pinned s \<or> room (Suc (card ({}::nat set))) s" using av by simp
  from held_bread [OF h n(1) _ this] obtain a t where t: "bread 1 n1 s = Ret a t" "held t {a}" "holds t a n1"
    "b_data (bufs t a) = blk s n1" "same_blocks s t" by auto
  have ft: "bframe s t" using t(5) by (simp add: same_blocks_def)
  have "n2 < disksize t" using n(2) bframe_sel [OF ft] by simp
  moreover have "\<not> holds t b n2" if "b \<in> {a}" for b using that t(3) n(3) by (auto simp: holds_def)
  moreover have "n2 \<in> pinned t \<or> room (Suc (card {a})) t" using av t(5) by (auto simp: same_blocks_def room_def)
  ultimately obtain b u where u: "bread 1 n2 t = Ret b u" "b \<notin> {a}" "held u (insert b {a})" "holds u b n2"
    "b_data (bufs u b) = blk t n2" "same_blocks t u" "bufs u a = bufs t a"
    using held_bread [OF t(2), of n2] by blast
  note su = same_blocks_trans [OF t(5) u(6)]
  have "bframe s u" using su by (simp add: same_blocks_def)
  from bframe_sel [OF this] have "n1 < disksize u" "n2 < disksize u" using n by simp_all
  moreover have "b_data (bufs u b) = blk s n2" using u(5) t(5) by (simp add: same_blocks_def)
  moreover have "holds u a n1" "held u {a, b}" using u(3,7) t(3) by (auto simp: holds_def insert_commute)
  ultimately show ?thesis using t u su ft by auto
qed

lemma log_sel: "bframe s s' \<Longrightarrow> lg_start s' = lg_start s \<and> lg_dev s' = lg_dev s \<and> lh_n s' = lh_n s \<and> lh_block s' = lh_block s
   \<and> lg_size s' = lg_size s \<and> lg_outstanding s' = lg_outstanding s \<and> lg_committing s' = lg_committing s"
  by (auto simp: bframe_def)

definition lblk :: "'z lstate_scheme \<Rightarrow> nat \<Rightarrow> uint" where
  "lblk s i = lg_start s + of_nat i + 1"

lemma install_one_run:
  assumes h: "held s {}" and n: "lblk s i < disksize s" "lh_block s i < disksize s" "lblk s i \<noteq> lh_block s i"
    and d: "lg_dev s = 1" "i < LOGSIZE" and av: "room 1 s" "lh_block s i \<in> pinned s \<or> room 2 s"
  shows "\<exists>s'. install_one i s = Ret () s' \<and> wrote s [(lh_block s i, blk s (lblk s i))] s' \<and> bframe s s'"
proof -
  from two_breads [OF h n av] obtain a t b u where u: "bread 1 (lblk s i) s = Ret a t" "bread 1 (lh_block s i) t = Ret b u"
    "held u {a, b}" "a \<noteq> b" "holds u a (lblk s i)" "holds u b (lh_block s i)" "b_data (bufs u a) = blk s (lblk s i)"
    "same_blocks s u" "bframe s t" "lh_block s i < disksize u" by blast
  from copy_write [OF u(3-6,10), of a b] obtain s' where
    s': "kdo [copy_data b a, bwrite b, brelse a, brelse b] u = Ret () s'" "wrote u [(lh_block s i, b_data (bufs u a))] s'" "bframe u s'" by blast
  have "log_block i t = Ret (lh_block s i) t" using log_sel [OF u(9)] d(2) by (simp add: log_block_def kmonad)
  then have "install_one i s = Ret () s'"
    using u(1,2) s'(1) d(1) by (simp add: install_one_def kmonad lblk_def del: kdo.simps)
  moreover have "bframe s s'" using u(8) s'(3) by (auto simp: same_blocks_def intro: bframe_trans)
  ultimately show ?thesis using wrote_same [OF u(8) s'(2)] u(7) by auto
qed

lemma write_log_one_run:
  assumes h: "held s {}" and n: "lblk s i < disksize s" "lh_block s i < disksize s" "lblk s i \<noteq> lh_block s i"
    and d: "lg_dev s = 1" "i < LOGSIZE" and av: "room 1 s" "lh_block s i \<in> pinned s \<or> room 2 s"
  shows "\<exists>s'. write_log_one i s = Ret () s' \<and> wrote s [(lblk s i, blk s (lh_block s i))] s' \<and> bframe s s'"
proof -
  from two_breads [OF h n av] obtain a t b u where u: "bread 1 (lblk s i) s = Ret a t" "bread 1 (lh_block s i) t = Ret b u"
    "held u {b, a}" "b \<noteq> a" "holds u b (lh_block s i)" "holds u a (lblk s i)" "b_data (bufs u b) = blk s (lh_block s i)"
    "same_blocks s u" "bframe s t" "lblk s i < disksize u" by (auto simp: insert_commute)
  from copy_write [OF u(3-6,10), of b a] obtain s' where
    s': "kdo [copy_data a b, bwrite a, brelse b, brelse a] u = Ret () s'" "wrote u [(lblk s i, b_data (bufs u b))] s'" "bframe u s'" by blast
  have "log_block i t = Ret (lh_block s i) t" using log_sel [OF u(9)] d(2) by (simp add: log_block_def kmonad)
  then have "write_log_one i s = Ret () s'"
    using u(1,2) s'(1) d(1) by (simp add: write_log_one_def kmonad lblk_def del: kdo.simps)
  moreover have "bframe s s'" using u(8) s'(3) by (auto simp: same_blocks_def intro: bframe_trans)
  ultimately show ?thesis using wrote_same [OF u(8) s'(2)] u(7) by auto
qed

text \<open>The geometry: the log area lies within the disk and holds one block per logged block behind the header;
  the home blocks are distinct and outside of it.\<close>

definition region :: "uint \<Rightarrow> nat \<Rightarrow> uint set" where
  "region st sz = {st + of_nat i | i. i < sz}"

definition log_geom :: "'z lstate_scheme \<Rightarrow> nat \<Rightarrow> nat \<Rightarrow> bool" where
  "log_geom s sz k \<longleftrightarrow> lg_dev s = 1 \<and> k \<le> LOGSIZE \<and> k < sz \<and> unat (lg_start s) + sz \<le> unat (disksize s)
     \<and> (\<forall>i < k. lh_block s i < disksize s \<and> lh_block s i \<notin> region (lg_start s) sz) \<and> inj_on (lh_block s) {..<k}"

lemma unat_offset: "unat (st + of_nat i :: uint) = unat st + i" if "unat st + i \<le> unat (d :: uint)"
proof -
  have "unat st + i < 4294967296" using that unat_less32 [of d] by linarith
  moreover from this have "unat (of_nat i :: uint) = i" by (intro unat_of_nat32) simp
  ultimately show ?thesis by (simp add: unat_plus_if')
qed

lemma geom_lblk:
  assumes g: "log_geom s sz k" and i: "i < k"
  shows "lblk s i < disksize s" "lblk s i \<in> region (lg_start s) sz" "unat (lblk s i) = unat (lg_start s) + i + 1"
    "lblk s i \<noteq> lh_block s i" "lblk s i \<noteq> lg_start s"
proof -
  have le: "unat (lg_start s) + Suc i \<le> unat (disksize s)" using g i by (simp add: log_geom_def)
  have eq: "lblk s i = lg_start s + of_nat (Suc i)" by (simp add: lblk_def algebra_simps)
  show u: "unat (lblk s i) = unat (lg_start s) + i + 1" unfolding eq using unat_offset [OF le] by simp
  then show "lblk s i < disksize s" using g i by (simp add: word_less_nat_alt log_geom_def)
  show r: "lblk s i \<in> region (lg_start s) sz"
    unfolding eq region_def using g i by (auto simp: log_geom_def intro!: exI [of _ "Suc i"] simp del: of_nat_Suc)
  show "lblk s i \<noteq> lh_block s i" using r g i by (auto simp: log_geom_def)
  show "lblk s i \<noteq> lg_start s" using u by auto
qed

lemma geom_lblk_inj:
  assumes "log_geom s sz k" "i < k" "j < k" "lblk s i = lblk s j" shows "i = j"
proof -
  have "unat (lblk s i) = unat (lblk s j)" using assms(4) by simp
  then show ?thesis using geom_lblk(3) [OF assms(1,2)] geom_lblk(3) [OF assms(1,3)] by linarith
qed

lemma geom_start: "log_geom s sz k \<Longrightarrow> lg_start s \<in> region (lg_start s) sz \<and> lg_start s < disksize s"
  by (auto simp: log_geom_def region_def word_less_nat_alt intro!: exI [of _ 0])

lemma geom_frame: "bframe s s' \<Longrightarrow> log_geom s' sz k = log_geom s sz k" "bframe s s' \<Longrightarrow> lblk s' = lblk s"
  using log_sel [of s s'] bframe_sel(1) [of s s'] by (simp_all add: log_geom_def lblk_def [abs_def])

definition log_writes :: "'z lstate_scheme \<Rightarrow> nat \<Rightarrow> (uint \<times> block) list" where
  "log_writes s k = rev (map (\<lambda>i. (lblk s i, blk s (lh_block s i))) [0..<k])"

definition home_writes :: "'z lstate_scheme \<Rightarrow> nat \<Rightarrow> (uint \<times> block) list" where
  "home_writes s k = rev (map (\<lambda>i. (lh_block s i, blk s (lblk s i))) [0..<k])"

lemma disk_after_other: "m \<notin> fst ` set ws \<Longrightarrow> disk_after d ws m = d m"
  by (simp add: disk_after_def flip: map_of_eq_None_iff)

lemma write_log_run:
  assumes h: "held s {}" and g: "log_geom s sz k" "lh_n s = int k" and av: "room 1 s" "\<And>i. i < k \<Longrightarrow> lh_block s i \<in> pinned s"
  shows "\<exists>s'. write_log s = Ret () s' \<and> wrote s (log_writes s k) s' \<and> bframe s s'"
proof -
  have "\<exists>s'. kfor [0..<k] write_log_one s = Ret () s' \<and> wrote s (log_writes s k) s' \<and> bframe s s'"
  proof (rule kfor_upto [where I = "\<lambda>i t. wrote s (log_writes s i) t \<and> bframe s t"])
    fix i t
    assume i: "i < k" and t: "wrote s (log_writes s i) t \<and> bframe s t"
    then have w: "wrote s (log_writes s i) t" "bframe s t" by auto
    note l = log_sel [OF w(2)] geom_frame [OF w(2)] bframe_sel [OF w(2)]
    have notin: "lh_block s i \<notin> fst ` set (log_writes s i)"
    proof
      assume "lh_block s i \<in> fst ` set (log_writes s i)"
      then obtain j where "j < i" "lh_block s i = lblk s j" by (auto simp: log_writes_def)
      with geom_lblk(2) [OF g(1), of j] i g(1) show False by (auto simp: log_geom_def)
    qed
    have "\<exists>s'. write_log_one i t = Ret () s' \<and> wrote t [(lblk t i, blk t (lh_block t i))] s' \<and> bframe t s'"
    proof (rule write_log_one_run)
      show "held t {}" "room 1 t" using w(1) room_wrote [OF w(1) av(1)] by (auto simp: wrote_def)
      show "lblk t i < disksize t" "lh_block t i < disksize t" "lblk t i \<noteq> lh_block t i" "lg_dev t = 1" "i < LOGSIZE"
        using l geom_lblk [OF g(1) i] g(1) i by (auto simp: log_geom_def)
      show "lh_block t i \<in> pinned t \<or> room 2 t" using w(1) av(2) [OF i] notin l by (simp add: wrote_def)
    qed
    then obtain s' where s': "write_log_one i t = Ret () s'" "wrote t [(lblk t i, blk t (lh_block t i))] s'" "bframe t s'" by blast
    have "blk t (lh_block t i) = blk s (lh_block s i)" using w(1) l notin by (simp add: wrote_def disk_after_other)
    then have "log_writes s (Suc i) = [(lblk t i, blk t (lh_block t i))] @ log_writes s i" using l by (simp add: log_writes_def)
    with s' wrote_trans [OF w(1) s'(2)] bframe_trans [OF w(2) s'(3)]
    show "\<exists>s'. write_log_one i t = Ret () s' \<and> wrote s (log_writes s (Suc i)) s' \<and> bframe s s'" by auto
  next
    show "wrote s (log_writes s 0) s \<and> bframe s s"
      using wrote_Nil [OF h] bframe_with_buf [of s 0 "bufs s 0"] by (simp add: log_writes_def)
  qed simp
  then show ?thesis using g(2) by (simp add: write_log_def kmonad)
qed

lemma install_trans_run:
  assumes h: "held s {}" and g: "log_geom s sz k" "lh_n s = int k" and av: "room 1 s" "(\<forall>i < k. lh_block s i \<in> pinned s) \<or> room 2 s"
  shows "\<exists>s'. install_trans s = Ret () s' \<and> wrote s (home_writes s k) s' \<and> bframe s s'"
proof -
  have "\<exists>s'. kfor [0..<k] install_one s = Ret () s' \<and> wrote s (home_writes s k) s' \<and> bframe s s'"
  proof (rule kfor_upto [where I = "\<lambda>i t. wrote s (home_writes s i) t \<and> bframe s t"])
    fix i t
    assume i: "i < k" and t: "wrote s (home_writes s i) t \<and> bframe s t"
    then have w: "wrote s (home_writes s i) t" "bframe s t" by auto
    note l = log_sel [OF w(2)] geom_frame [OF w(2)] bframe_sel [OF w(2)]
    have "lh_block s i \<noteq> lh_block s j" if "j < i" for j
      using g(1) i that by (auto simp: log_geom_def dest: inj_onD)
    then have "lh_block s i \<notin> lh_block s ` {..<i}" by (metis imageE lessThan_iff)
    moreover have "fst ` set (home_writes s i) = lh_block s ` {..<i}" by (force simp: home_writes_def)
    moreover have "lblk s i \<notin> lh_block s ` {..<i}" using geom_lblk(2) [OF g(1) i] g(1) i by (auto simp: log_geom_def)
    ultimately have notin: "lblk s i \<notin> fst ` set (home_writes s i)" "lh_block s i \<notin> fst ` set (home_writes s i)" by auto
    have "\<exists>s'. install_one i t = Ret () s' \<and> wrote t [(lh_block t i, blk t (lblk t i))] s' \<and> bframe t s'"
    proof (rule install_one_run)
      show "held t {}" "room 1 t" using w(1) room_wrote [OF w(1) av(1)] by (auto simp: wrote_def)
      show "lblk t i < disksize t" "lh_block t i < disksize t" "lblk t i \<noteq> lh_block t i" "lg_dev t = 1" "i < LOGSIZE"
        using l geom_lblk [OF g(1) i] g(1) i by (auto simp: log_geom_def)
      show "lh_block t i \<in> pinned t \<or> room 2 t"
        using w(1) av(2) i notin(2) l room_wrote [OF w(1), of 2] by (auto simp: wrote_def)
    qed
    then obtain s' where s': "install_one i t = Ret () s'" "wrote t [(lh_block t i, blk t (lblk t i))] s'" "bframe t s'" by blast
    have "blk t (lblk t i) = blk s (lblk s i)" using w(1) l notin by (simp add: wrote_def disk_after_other)
    then have "home_writes s (Suc i) = [(lh_block t i, blk t (lblk t i))] @ home_writes s i" using l by (simp add: home_writes_def)
    with s' wrote_trans [OF w(1) s'(2)] bframe_trans [OF w(2) s'(3)]
    show "\<exists>s'. install_one i t = Ret () s' \<and> wrote s (home_writes s (Suc i)) s' \<and> bframe s s'" by auto
  next
    show "wrote s (home_writes s 0) s \<and> bframe s s"
      using wrote_Nil [OF h] bframe_with_buf [of s 0 "bufs s 0"] by (simp add: home_writes_def)
  qed simp
  then show ?thesis using g(2) by (simp add: install_trans_def kmonad)
qed

text \<open>The header block.\<close>

lemma length_wr32 [simp]: "length (wr32 d i w) = length d"
  by (simp add: wr32_def)

lemma rd32_wr32 [simp]: "i + 3 < length d \<Longrightarrow> rd32 (wr32 d i w) i = w"
proof -
  assume l: "i + 3 < length d"
  have "24 + (n - 24) = n \<or> n - 16 < 8" "16 + (n - 16) = n \<or> n - 8 < 8" "8 + (n - 8) = n \<or> n < 8" for n :: nat
    by auto
  with l show ?thesis
    unfolding rd32_def wr32_def
    by (intro bit_word_eqI) (auto simp: bit_simps nth_list_update; metis (no_types, lifting))
qed

lemma rd32_wr32_other: "i + 4 \<le> j \<or> j + 4 \<le> i \<Longrightarrow> rd32 (wr32 d i w) j = rd32 d j"
  by (auto simp: rd32_def wr32_def)

definition put_head :: "nat \<Rightarrow> (nat \<Rightarrow> uint) \<Rightarrow> block \<Rightarrow> block" where
  "put_head n f d = fold (\<lambda>i d. wr32 d (4 + 4 * i) (f i)) [0..<n] (wr32 d 0 (of_nat n))"

lemma length_put_head [simp]: "length (put_head n f d) = length d"
proof -
  have "length (fold (\<lambda>i d. wr32 d (4 + 4 * i) (f i)) xs e) = length e" for xs e by (induction xs arbitrary: e) auto
  then show ?thesis by (simp add: put_head_def)
qed

lemma put_head_Suc: "put_head (Suc n) f d = wr32 (fold (\<lambda>i d. wr32 d (4 + 4 * i) (f i)) [0..<n] (wr32 d 0 (of_nat (Suc n)))) (4 + 4 * n) (f n)"
  by (simp add: put_head_def)

lemma fold_head:
  assumes "4 + 4 * n \<le> length e" "j < n"
  shows "rd32 (fold (\<lambda>i d. wr32 d (4 + 4 * i) (f i)) [0..<n] e) (4 + 4 * j) = f j"
  using assms
proof (induction n)
  case (Suc n)
  have len: "length (fold (\<lambda>i d. wr32 d (4 + 4 * i) (f i)) xs e) = length e" for xs e by (induction xs arbitrary: e) auto
  show ?case
  proof (cases "j = n")
    case True
    then show ?thesis using Suc.prems by (simp add: len)
  next
    case False
    then show ?thesis using Suc by (simp add: rd32_wr32_other)
  qed
qed simp

lemma put_head_words:
  assumes "4 + 4 * n \<le> length d"
  shows "rd32 (put_head n f d) 0 = of_nat n" "j < n \<Longrightarrow> rd32 (put_head n f d) (4 + 4 * j) = f j"
proof -
  have "rd32 (fold (\<lambda>i d. wr32 d (4 + 4 * i) (f i)) xs e) 0 = rd32 e 0" for xs e
    by (induction xs arbitrary: e) (auto simp: rd32_wr32_other)
  then show "rd32 (put_head n f d) 0 = of_nat n" using assms by (simp add: put_head_def)
  show "rd32 (put_head n f d) (4 + 4 * j) = f j" if "j < n"
    unfolding put_head_def by (rule fold_head) (use assms that in auto)
qed

definition set_buf_data :: "nat \<Rightarrow> block \<Rightarrow> 'z bstate_scheme \<Rightarrow> 'z bstate_scheme" where
  "set_buf_data b d s = with_buf b ((bufs s b)\<lparr>b_data := d\<rparr>) s"

lemma set_buf_data:
  "upd_buf b (\<lambda>x. x\<lparr>b_data := wr32 (b_data x) i w\<rparr>) s = Ret () (set_buf_data b (wr32 (b_data (bufs s b)) i w) s)"
  "b_data (bufs (set_buf_data b d s) b) = d" "set_buf_data b d (set_buf_data b e s) = set_buf_data b d s"
  by (simp_all add: set_buf_data_def upd_buf_run)

lemma set_buf_data_log [simp]:
  "lh_block (set_buf_data b d s) = lh_block s" "lh_n (set_buf_data b d s) = lh_n s"
  by (simp_all add: set_buf_data_def with_buf_def)

lemma head_loop:
  assumes "set xs \<subseteq> {..<LOGSIZE}"
  shows "kfor xs (\<lambda>i. kbind (log_block i) (\<lambda>w. upd_buf b (\<lambda>x. x\<lparr>b_data := wr32 (b_data x) (4 + 4 * i) w\<rparr>))) (set_buf_data b d s)
    = Ret () (set_buf_data b (fold (\<lambda>i d. wr32 d (4 + 4 * i) (lh_block s i)) xs d) s)"
  using assms
proof (induction xs arbitrary: d)
  case (Cons i xs)
  then have "log_block i (set_buf_data b d s) = Ret (lh_block s i) (set_buf_data b d s)" by (simp add: log_block_def kmonad)
  with Cons show ?case by (simp add: kmonad set_buf_data)
qed (simp add: kmonad)

lemma write_head_run:
  assumes h: "held s {}" and g: "lg_dev s = 1" "lg_start s < disksize s" "lh_n s = int k" "k \<le> LOGSIZE" and av: "room 1 s"
  shows "\<exists>s'. write_head s = Ret () s' \<and> wrote s [(lg_start s, put_head k (lh_block s) (blk s (lg_start s)))] s' \<and> bframe s s'"
proof -
  have "lg_start s \<in> pinned s \<or> room (Suc (card ({}::nat set))) s" using av by simp
  from held_bread [OF h g(2) _ this] obtain b t where t: "bread 1 (lg_start s) s = Ret b t" "held t {b}" "holds t b (lg_start s)"
    "b_data (bufs t b) = blk s (lg_start s)" "same_blocks s t" by auto
  have ft: "bframe s t" using t(5) by (simp add: same_blocks_def)
  note l = log_sel [OF ft] bframe_sel [OF ft]
  define d where "d = put_head k (lh_block s) (blk s (lg_start s))"
  have "b \<in> {b}" "lg_start s < disksize t" using g(2) l by simp_all
  from held_write [OF t(2) this(1) t(3) this(2), of d "[brelse b]"] obtain u where
    u: "kdo (upd_buf b (\<lambda>x. x\<lparr>b_data := d\<rparr>) # bwrite b # [brelse b]) t = kdo [brelse b] u" "held u {b}"
       "dwrites u = (lg_start s, d) # dwrites t" "\<forall>m. blk u m = (if m = lg_start s then d else blk t m)"
       "pinned u = pinned t - {lg_start s}" "dirtyb u \<subseteq> dirtyb t" "bframe t u" by blast
  from held_brelse [OF u(2), of b] obtain s' where s': "brelse b u = Ret () s'" "held s' {}" "same_blocks u s'" by auto
  have loop: "kfor [0..<k] (\<lambda>i. kbind (log_block i) (\<lambda>w. upd_buf b (\<lambda>x. x\<lparr>b_data := wr32 (b_data x) (4 + 4 * i) w\<rparr>)))
      (set_buf_data b (wr32 (blk s (lg_start s)) 0 (of_nat k)) t) = Ret () (set_buf_data b d t)"
    using head_loop [of "[0..<k]" b "wr32 (blk s (lg_start s)) 0 (of_nat k)" t] g(4) l by (force simp: d_def put_head_def)
  have step: "kdo [bwrite b, brelse b] (set_buf_data b d t) = Ret () s'"
    using u(1) s'(1) by (simp add: kmonad set_buf_data_def upd_buf_run)
  have "write_head s = Ret () s'"
    using t(1,4) g loop step l by (simp add: write_head_def kmonad set_buf_data)
  moreover have fr: "bframe s s'" using ft u(7) s'(3) by (auto simp: same_blocks_def intro: bframe_trans)
  moreover have "wrote s [(lg_start s, d)] s'"
    using s'(2,3) u(3-6) t(5) bframe_sel [OF fr] by (auto simp: wrote_def same_blocks_def disk_after_def)
  ultimately show ?thesis by (auto simp: d_def)
qed

text \<open>The fields of the log do not matter to the cache.\<close>

lemma lh_blocks [simp]:
  "held (s\<lparr>lh_n := n\<rparr>) H = held s H" "held (s\<lparr>lh_block := f\<rparr>) H = held s H"
  "blk (s\<lparr>lh_n := n\<rparr>) = blk s" "blk (s\<lparr>lh_block := f\<rparr>) = blk s"
  "pinned (s\<lparr>lh_n := n\<rparr>) = pinned s" "pinned (s\<lparr>lh_block := f\<rparr>) = pinned s"
  "dirtyb (s\<lparr>lh_n := n\<rparr>) = dirtyb s" "dirtyb (s\<lparr>lh_block := f\<rparr>) = dirtyb s"
  "disk (s\<lparr>lh_n := n\<rparr>) = disk s" "disk (s\<lparr>lh_block := f\<rparr>) = disk s"
  "holds (s\<lparr>lh_n := n\<rparr>) = holds s" "holds (s\<lparr>lh_block := f\<rparr>) = holds s"
  by (simp_all add: held_def bc_ok_def bc_list_def benv_def table_ok_def lists_rep_def nexts_def busyb_def holds_def
      blk_def disk_def pinned_def dirtyb_def fun_eq_iff cong: option.case_cong)

lemma lh_room [simp]: "room k (s\<lparr>lh_n := n\<rparr>) = room k s" "room k (s\<lparr>lh_block := f\<rparr>) = room k s"
  by (simp_all add: room_def)

lemma lh_wrote [simp]: "wrote (s\<lparr>lh_n := n\<rparr>) ws t = wrote s ws t" "wrote (s\<lparr>lh_block := f\<rparr>) ws t = wrote s ws t"
  "wrote s ws (t\<lparr>lh_n := n\<rparr>) = wrote s ws t"
  by (simp_all add: wrote_def)

lemma lh_bframe: "bframe s t \<Longrightarrow> bframe (s\<lparr>lh_n := n, lh_block := f\<rparr>) (t\<lparr>lh_n := n, lh_block := f\<rparr>)"
proof -
  assume "bframe s t"
  then obtain B W P R F where "t = s\<lparr>bufs := B, dwrites := W, procs := P, pReadyList := R, pFreeList := F\<rparr>"
    unfolding bframe_def by blast
  then have "t\<lparr>lh_n := n, lh_block := f\<rparr>
    = s\<lparr>lh_n := n, lh_block := f, bufs := B, dwrites := W, procs := P, pReadyList := R, pFreeList := F\<rparr>" by simp
  then show ?thesis unfolding bframe_def by blast
qed

lemma lh_same: "same_blocks s t \<Longrightarrow> same_blocks (s\<lparr>lh_n := n, lh_block := f\<rparr>) (t\<lparr>lh_n := n, lh_block := f\<rparr>)"
  by (auto simp: same_blocks_def lh_bframe)

lemma read_loop:
  assumes "set xs \<subseteq> {..<LOGSIZE}"
  shows "\<exists>f. kfor xs (\<lambda>i. if i < LOGSIZE then kmod (\<lambda>s. s\<lparr>lh_block := (lh_block s)(i := g i)\<rparr>) else kfault ''log.lh.block'') s
    = Ret () (s\<lparr>lh_block := f\<rparr>) \<and> (\<forall>i. f i = (if i \<in> set xs then g i else lh_block s i))"
  using assms
proof (induction xs arbitrary: s)
  case Nil
  then show ?case by (intro exI [of _ "lh_block s"]) (simp add: kmonad)
next
  case (Cons i xs)
  then obtain f where f: "kfor xs (\<lambda>i. if i < LOGSIZE then kmod (\<lambda>s. s\<lparr>lh_block := (lh_block s)(i := g i)\<rparr>) else kfault ''log.lh.block'')
      (s\<lparr>lh_block := (lh_block s)(i := g i)\<rparr>) = Ret () (s\<lparr>lh_block := f\<rparr>)"
    "\<forall>j. f j = (if j \<in> set xs then g j else ((lh_block s)(i := g i)) j)"
    using Cons.IH [of "s\<lparr>lh_block := (lh_block s)(i := g i)\<rparr>"] by auto
  have "i < LOGSIZE" using Cons.prems by simp
  then have "kfor (i # xs) (\<lambda>i. if i < LOGSIZE then kmod (\<lambda>s. s\<lparr>lh_block := (lh_block s)(i := g i)\<rparr>) else kfault ''log.lh.block'') s
    = Ret () (s\<lparr>lh_block := f\<rparr>)" using f(1) by (simp add: kmonad)
  moreover have "\<forall>j. f j = (if j \<in> set (i # xs) then g j else lh_block s j)" using f(2) by simp
  ultimately show ?case by blast
qed

lemma read_head_run:
  assumes h: "held s {}" and g: "lg_dev s = 1" "lg_start s < disksize s" and av: "room 1 s"
    and d: "sint (rd32 (blk s (lg_start s)) 0) = int k" "k \<le> LOGSIZE"
  shows "\<exists>f s'. read_head s = Ret () s' \<and> held s' {} \<and> same_blocks (s\<lparr>lh_n := int k, lh_block := f\<rparr>) s'
    \<and> (\<forall>i < k. f i = rd32 (blk s (lg_start s)) (4 + 4 * i))"
proof -
  let ?d = "blk s (lg_start s)"
  have "lg_start s \<in> pinned s \<or> room (Suc (card ({}::nat set))) s" using av by simp
  from held_bread [OF h g(2) _ this] obtain b t where t: "bread 1 (lg_start s) s = Ret b t" "held t {b}"
    "b_data (bufs t b) = ?d" "same_blocks s t" by auto
  have sub: "set [0..<k] \<subseteq> {..<LOGSIZE}" using d(2) by auto
  obtain f where f: "kfor [0..<k] (\<lambda>i. if i < LOGSIZE then kmod (\<lambda>s. s\<lparr>lh_block := (lh_block s)(i := rd32 ?d (4 + 4 * i))\<rparr>) else kfault ''log.lh.block'')
      (t\<lparr>lh_n := int k\<rparr>) = Ret () (t\<lparr>lh_n := int k, lh_block := f\<rparr>)" "\<forall>i < k. f i = rd32 ?d (4 + 4 * i)"
    using read_loop [OF sub, of "\<lambda>i. rd32 ?d (4 + 4 * i)" "t\<lparr>lh_n := int k\<rparr>"] by auto
  have "held (t\<lparr>lh_n := int k, lh_block := f\<rparr>) {b}" using t(2) by simp
  from held_brelse [OF this, of b] obtain s' where s': "brelse b (t\<lparr>lh_n := int k, lh_block := f\<rparr>) = Ret () s'" "held s' {}"
    "same_blocks (t\<lparr>lh_n := int k, lh_block := f\<rparr>) s'" by auto
  have "read_head s = Ret () s'"
    using t(1,3) g(1) d f(1) s'(1) by (simp add: read_head_def kmonad the_buf_run)
  moreover have "same_blocks (s\<lparr>lh_n := int k, lh_block := f\<rparr>) s'" using same_blocks_trans [OF lh_same [OF t(4)] s'(3)] .
  ultimately show ?thesis using s'(2) f(2) by blast
qed

lemma blk_unpinned:
  assumes h: "held s {}" and "m \<notin> pinned s"
  shows "blk s m = disk s m"
proof (cases "\<exists>b. holds s b m \<and> b_valid (bufs s b)")
  case True
  then obtain b where b: "holds s b m" "b_valid (bufs s b)" by blast
  have ok: "bc_ok s" using h by (simp add: held_def)
  have "b_data (bufs s b) = disk s m"
    using b h assms(2) by (intro bc_okD(3) [OF ok]) (auto simp: pinned_def held_def busyb_def holds_def)
  then show ?thesis using blk_cached [OF ok b] by simp
next
  case False
  then show ?thesis by (intro blk_disk) blast
qed

section \<open>Crashes\<close>

text \<open>
  The contents a disk stands for: those its committed header, if any, would have recovery install.
  \<open>hdr_ok\<close>: the header on the disk names distinct blocks outside the log area, as many as the log holds.
\<close>

definition recovered :: "uint \<Rightarrow> (uint \<Rightarrow> block) \<Rightarrow> uint \<Rightarrow> block" where
  "recovered st D m = (case find (\<lambda>i. rd32 (D st) (4 + 4 * i) = m) (rev [0..<nat (sint (rd32 (D st) 0))]) of
     Some i \<Rightarrow> D (st + of_nat i + 1) | None \<Rightarrow> D m)"

definition hdr_ok :: "uint \<Rightarrow> nat \<Rightarrow> uint \<Rightarrow> (uint \<Rightarrow> block) \<Rightarrow> bool" where
  "hdr_ok st sz dsz D \<longleftrightarrow> length (D st) = BSIZE \<and> unat st + sz \<le> unat dsz \<and> (\<exists>k. sint (rd32 (D st) 0) = int k \<and> k \<le> LOGSIZE \<and> k < sz
     \<and> (\<forall>i < k. rd32 (D st) (4 + 4 * i) < dsz \<and> rd32 (D st) (4 + 4 * i) \<notin> region st sz)
     \<and> inj_on (\<lambda>i. rd32 (D st) (4 + 4 * i)) {..<k})"

lemma find_index:
  assumes "inj_on f {..<k}"
  shows "i < k \<Longrightarrow> find (\<lambda>j. f j = f i) (rev [0..<k]) = Some i" "m \<notin> f ` {..<k} \<Longrightarrow> find (\<lambda>j. f j = m) (rev [0..<k]) = None"
proof -
  show "find (\<lambda>j. f j = f i) (rev [0..<k]) = Some i" if i: "i < k"
  proof (cases "find (\<lambda>j. f j = f i) (rev [0..<k])")
    case None
    then show ?thesis using i by (auto simp: find_None_iff)
  next
    case (Some j)
    then have "f j = f i" "j < k" using find_SomeD [OF Some] by auto
    then show ?thesis using Some assms i by (auto dest: inj_onD)
  qed
  show "find (\<lambda>j. f j = m) (rev [0..<k]) = None" if "m \<notin> f ` {..<k}" using that by (auto simp: find_None_iff)
qed

lemma recovered_committed:
  assumes "sint (rd32 (D st) 0) = int k" "\<And>i. i < k \<Longrightarrow> rd32 (D st) (4 + 4 * i) = f i" "inj_on f {..<k}"
  shows "i < k \<Longrightarrow> recovered st D (f i) = D (st + of_nat i + 1)" "m \<notin> f ` {..<k} \<Longrightarrow> recovered st D m = D m"
proof -
  have "find (\<lambda>j. rd32 (D st) (4 + 4 * j) = x) (rev [0..<k]) = find (\<lambda>j. f j = x) (rev [0..<k])" for x
    by (rule find_cong) (auto simp: assms(2))
  then show "i < k \<Longrightarrow> recovered st D (f i) = D (st + of_nat i + 1)" "m \<notin> f ` {..<k} \<Longrightarrow> recovered st D m = D m"
    using find_index [OF assms(3)] by (simp_all add: recovered_def assms(1))
qed

lemma recovered_clear: "sint (rd32 (D st) 0) = 0 \<Longrightarrow> recovered st D m = D m"
  by (simp add: recovered_def)

lemma disk_after_rev_map:
  assumes "inj_on g {..<k}" "i < k"
  shows "disk_after D (rev (map (\<lambda>i. (g i, h i)) [0..<k])) (g i) = h i"
proof -
  have "distinct (map fst (rev (map (\<lambda>i. (g i, h i)) [0..<k])))"
    using assms(1) by (simp add: rev_map comp_def distinct_map atLeast0LessThan)
  moreover have "(g i, h i) \<in> set (rev (map (\<lambda>i. (g i, h i)) [0..<k]))" using assms(2) by auto
  ultimately have "map_of (rev (map (\<lambda>i. (g i, h i)) [0..<k])) (g i) = Some (h i)" by (rule map_of_is_SomeI)
  then show ?thesis by (simp add: disk_after_def)
qed

text \<open>The writes that install a committed header keep what the disk stands for, and so does clearing the
  header once they are done.\<close>

lemma installing_keeps:
  assumes hd: "sint (rd32 (D st) 0) = int k" "\<And>i. i < k \<Longrightarrow> rd32 (D st) (4 + 4 * i) = f i" "inj_on f {..<k}"
    and reg: "\<And>i. i < k \<Longrightarrow> f i \<notin> R" "st \<in> R" "\<And>i. i < k \<Longrightarrow> st + of_nat i + 1 \<in> R"
    and sub: "fst ` set vs \<subseteq> f ` {..<k}" and m: "m \<notin> R"
  shows "disk_after D vs st = D st" "recovered st (disk_after D vs) m = recovered st D m"
proof -
  have in_R: "disk_after D vs x = D x" if "x \<in> R" for x using that sub reg(1) by (intro disk_after_other) auto
  show st: "disk_after D vs st = D st" using in_R reg(2) .
  have hd': "sint (rd32 (disk_after D vs st) 0) = int k" "\<And>i. i < k \<Longrightarrow> rd32 (disk_after D vs st) (4 + 4 * i) = f i"
    using hd by (simp_all add: st)
  note new = recovered_committed [where D = "disk_after D vs" and st = st, OF hd' hd(3)] and old = recovered_committed [where D = D and st = st, OF hd]
  show "recovered st (disk_after D vs) m = recovered st D m"
  proof (cases "m \<in> f ` {..<k}")
    case True
    then obtain i where "i < k" "m = f i" by auto
    then show ?thesis by (simp add: new(1) old(1) in_R reg(3))
  next
    case False
    then have "m \<notin> fst ` set vs" using sub by auto
    then show ?thesis using False by (simp add: new(2) old(2) disk_after_other)
  qed
qed

lemma installed_all:
  assumes hd: "sint (rd32 (D st) 0) = int k" "\<And>i. i < k \<Longrightarrow> rd32 (D st) (4 + 4 * i) = f i" "inj_on f {..<k}"
    and ws: "ws = rev (map (\<lambda>i. (f i, D (st + of_nat i + 1))) [0..<k])"
  shows "disk_after D ws m = recovered st D m"
proof (cases "m \<in> f ` {..<k}")
  case True
  then obtain i where "i < k" "m = f i" by auto
  then show ?thesis using recovered_committed(1) [where D = D and st = st, OF hd] disk_after_rev_map [OF hd(3)] by (simp add: ws)
next
  case False
  then have "m \<notin> fst ` set ws" by (auto simp: ws)
  then show ?thesis using recovered_committed(2) [where D = D and st = st, OF hd] False by (simp add: disk_after_other)
qed

lemma put_head_0: "length d = BSIZE \<Longrightarrow> sint (rd32 (put_head 0 f d) 0) = 0"
  using put_head_words(1) [of 0 d f] by (simp add: BSIZE_def)

text \<open>The writes of an installation with the final clearing of the header: whichever part of them reached the
  disk, it stands for the same contents.\<close>

lemma install_suffixes:
  assumes ok: "hdr_ok st sz dsz D" and hd: "sint (rd32 (D st) 0) = int k" "\<And>i. i < k \<Longrightarrow> rd32 (D st) (4 + 4 * i) = f i" "inj_on f {..<k}"
    and reg: "\<And>i. i < k \<Longrightarrow> f i \<notin> region st sz" "st \<in> region st sz" "\<And>i. i < k \<Longrightarrow> st + of_nat i + 1 \<in> region st sz"
    and ws: "ws = rev (map (\<lambda>i. (f i, D (st + of_nat i + 1))) [0..<k])" and h0: "length h0 = BSIZE" "sint (rd32 h0 0) = 0"
    and vs: "suffix vs ((st, h0) # ws)"
  shows "hdr_ok st sz dsz (disk_after D vs)" "m \<notin> region st sz \<Longrightarrow> recovered st (disk_after D vs) m = recovered st D m"
proof -
  have keep: "hdr_ok st sz dsz (disk_after D vs) \<and> (m \<notin> region st sz \<longrightarrow> recovered st (disk_after D vs) m = recovered st D m)"
    if "suffix vs ws" for m
  proof -
    have "fst ` set vs \<subseteq> fst ` set ws" using that by (auto dest: set_mono_suffix)
    also have "\<dots> = f ` {..<k}" by (force simp: ws)
    finally have sub: "fst ` set vs \<subseteq> f ` {..<k}" .
    have "disk_after D vs st = D st" using sub reg(1,2) by (intro disk_after_other) auto
    then have "hdr_ok st sz dsz (disk_after D vs)" using ok by (simp add: hdr_ok_def)
    with installing_keeps(2) [where D = D and st = st and R = "region st sz", OF hd reg sub] show ?thesis by blast
  qed
  have full: "hdr_ok st sz dsz (disk_after D vs) \<and> (m \<notin> region st sz \<longrightarrow> recovered st (disk_after D vs) m = recovered st D m)"
    if v: "vs = (st, h0) # ws" for m
  proof -
    have "disk_after D vs = (disk_after D ws)(st := h0)" by (simp add: v disk_after_Cons)
    then have "recovered st (disk_after D vs) m = disk_after D ws m" if "m \<noteq> st"
      using that h0(2) by (simp add: recovered_clear)
    moreover have "disk_after D ws m = recovered st D m" by (rule installed_all [where D = D and st = st, OF hd ws])
    moreover have "hdr_ok st sz dsz (disk_after D vs)" using ok h0 by (auto simp: v hdr_ok_def disk_after_Cons)
    ultimately show ?thesis using reg(2) by auto
  qed
  show "hdr_ok st sz dsz (disk_after D vs)" "m \<notin> region st sz \<Longrightarrow> recovered st (disk_after D vs) m = recovered st D m"
    using vs keep full by (auto simp: suffix_Cons)
qed

lemma recover_run:
  assumes h: "held r {}" "dirtyb r = {}" and g: "lg_dev r = 1" "lg_start r = st" and ok: "hdr_ok st sz (disksize r) (disk r)"
  shows "\<exists>r' ws. recover_from_log r = Ret () r' \<and> wrote r ws r' \<and> (\<forall>m. m \<notin> region st sz \<longrightarrow> disk r' m = recovered st (disk r) m)
    \<and> sint (rd32 (disk r' st) 0) = 0 \<and> lh_n r' = 0
    \<and> (\<forall>vs. suffix vs ws \<longrightarrow> hdr_ok st sz (disksize r) (disk_after (disk r) vs)
        \<and> (\<forall>m. m \<notin> region st sz \<longrightarrow> recovered st (disk_after (disk r) vs) m = recovered st (disk r) m))"
proof -
  let ?D = "disk r"
  obtain k where k: "sint (rd32 (?D st) 0) = int k" "k \<le> LOGSIZE" "k < sz"
    "\<And>i. i < k \<Longrightarrow> rd32 (?D st) (4 + 4 * i) < disksize r \<and> rd32 (?D st) (4 + 4 * i) \<notin> region st sz"
    "inj_on (\<lambda>i. rd32 (?D st) (4 + 4 * i)) {..<k}" "length (?D st) = BSIZE" "unat st + sz \<le> unat (disksize r)"
    using ok by (auto simp: hdr_ok_def)
  have "pinned r = {}" using h(2) by (auto simp: pinned_def dirtyb_def holds_def)
  then have blk: "blk r m = ?D m" for m using blk_unpinned [OF h(1)] by simp
  have room: "room j r" if "j \<le> 2" for j using that h(2) by (simp add: room_def NBUF_def)
  have st: "lg_start r < disksize r" using k(3,7) g(2) by (simp add: word_less_nat_alt)
  from read_head_run [OF h(1) g(1) st room] k(1,2) obtain f s1 where
    s1: "read_head r = Ret () s1" "held s1 {}" "same_blocks (r\<lparr>lh_n := int k, lh_block := f\<rparr>) s1" "\<And>i. i < k \<Longrightarrow> f i = rd32 (?D st) (4 + 4 * i)"
    by (auto simp: blk g)
  have f1: "bframe (r\<lparr>lh_n := int k, lh_block := f\<rparr>) s1" using s1(3) by (simp add: same_blocks_def)
  note l1 = log_sel [OF f1] bframe_sel [OF f1]
  have inj: "inj_on f {..<k}" using k(5) s1(4) by (auto simp: inj_on_def)
  have geom: "log_geom s1 sz k" using k l1 g inj s1(4) by (auto simp: log_geom_def)
  have blk1: "blk s1 m = ?D m" "dirtyb s1 = {}" "room j s1 = room j r" for m j
    using s1(3) blk h(2) by (auto simp: same_blocks_def room_def)
  have "\<exists>s'. install_trans s1 = Ret () s' \<and> wrote s1 (home_writes s1 k) s' \<and> bframe s1 s'"
    by (rule install_trans_run [OF s1(2) geom]) (use l1 room blk1 in auto)
  then obtain s2 where s2: "install_trans s1 = Ret () s2" "wrote s1 (home_writes s1 k) s2" "bframe s1 s2" by blast
  note l2 = log_sel [OF s2(3)] bframe_sel [OF s2(3)]
  let ?t = "s2\<lparr>lh_n := 0\<rparr>"
  have rt: "room 1 ?t" using room_wrote [OF s2(2), of 1] blk1(3) room [of 1] by simp
  have "\<exists>s'. write_head ?t = Ret () s' \<and> wrote ?t [(lg_start ?t, put_head 0 (lh_block ?t) (blk ?t (lg_start ?t)))] s' \<and> bframe ?t s'"
    by (rule write_head_run [OF _ _ _ _ _ rt]) (use s2(2) l1 l2 g st in \<open>auto simp: wrote_def\<close>)
  then obtain s3 where s3: "write_head ?t = Ret () s3" "wrote s2 [(st, put_head 0 f (blk s2 st))] s3" "bframe ?t s3"
    using l1 l2 g by auto
  define h0 where "h0 = put_head 0 f (blk s2 st)"
  have hw: "home_writes s1 k = rev (map (\<lambda>i. (f i, ?D (st + of_nat i + 1))) [0..<k])"
    using l1 g by (simp add: home_writes_def lblk_def blk1)
  have reg: "\<And>i. i < k \<Longrightarrow> f i \<notin> region st sz" "st \<in> region st sz" "\<And>i. i < k \<Longrightarrow> st + of_nat i + 1 \<in> region st sz"
    using k(4) s1(4) geom_start [OF geom] geom_lblk(2) [OF geom] l1 g by (auto simp: lblk_def)
  have "st \<notin> fst ` set (home_writes s1 k)" using reg(1,2) by (force simp: hw)
  then have "blk s2 st = ?D st" using s2(2) blk1 by (simp add: wrote_def disk_after_other)
  then have h0: "length h0 = BSIZE" "sint (rd32 h0 0) = 0" using k(6) put_head_0 by (simp_all add: h0_def)
  have run: "recover_from_log r = Ret () s3" using s1(1) s2(1) s3(1) by (simp add: recover_from_log_def kmonad)
  have "wrote r (home_writes s1 k) s2" using wrote_same [OF s1(3) s2(2)] by simp
  from wrote_trans [OF this s3(2)] have w: "wrote r ((st, h0) # home_writes s1 k) s3" by (simp add: h0_def)
  have dk: "disk s3 = (disk_after ?D (home_writes s1 k))(st := h0)" using wrote_disk [OF w] by (simp add: disk_after_Cons)
  note suf = install_suffixes [where D = ?D and st = st, OF ok k(1) s1(4) [symmetric] inj reg hw h0]
  have "disk s3 m = recovered st ?D m" if "m \<notin> region st sz" for m
    using that reg(2) installed_all [where D = ?D and st = st, OF k(1) s1(4) [symmetric] inj hw] by (auto simp: dk)
  moreover have "lh_n s3 = 0" using log_sel [OF s3(3)] by simp
  moreover have "sint (rd32 (disk s3 st) 0) = 0" using h0(2) by (simp add: dk)
  ultimately show ?thesis using run w suf by (intro exI [of _ s3] exI [of _ "(st, h0) # home_writes s1 k"]) auto
qed

lemma sint_small: "k < 2147483648 \<Longrightarrow> sint (of_nat k :: uint) = int k"
  by (simp add: sint_uint signed_take_bit_eq_if_positive bit_iff_odd unsigned_of_nat take_bit_nat_eq_self take_bit_int_eq_self)

text \<open>The disk with the log blocks and the header of a transaction written stands for the new contents.\<close>

definition tx_ready :: "'z lstate_scheme \<Rightarrow> nat \<Rightarrow> nat \<Rightarrow> bool" where
  "tx_ready s sz k \<longleftrightarrow> held s {} \<and> log_geom s sz k \<and> lh_n s = int k \<and> room 1 s \<and> pinned s = lh_block s ` {..<k}
     \<and> sint (rd32 (disk s (lg_start s)) 0) = 0 \<and> length (disk s (lg_start s)) = BSIZE"

lemma tx_readyD:
  assumes "tx_ready s sz k"
  shows "held s {}" "log_geom s sz k" "lh_n s = int k" "room 1 s" "pinned s = lh_block s ` {..<k}"
    "sint (rd32 (disk s (lg_start s)) 0) = 0" "length (disk s (lg_start s)) = BSIZE"
  using assms by (auto simp: tx_ready_def)

definition tx_head :: "'z lstate_scheme \<Rightarrow> nat \<Rightarrow> block" where
  "tx_head s k = put_head k (lh_block s) (disk s (lg_start s))"

definition tx_disk :: "'z lstate_scheme \<Rightarrow> nat \<Rightarrow> uint \<Rightarrow> block" where
  "tx_disk s k = disk_after (disk s) ((lg_start s, tx_head s k) # log_writes s k)"

lemma tx_region:
  assumes "tx_ready s sz k"
  shows "\<And>i. i < k \<Longrightarrow> lh_block s i \<notin> region (lg_start s) sz" "lg_start s \<in> region (lg_start s) sz"
    "\<And>i. i < k \<Longrightarrow> lg_start s + of_nat i + 1 \<in> region (lg_start s) sz" "inj_on (lh_block s) {..<k}"
    "fst ` set (log_writes s k) \<subseteq> region (lg_start s) sz" "lg_start s \<notin> fst ` set (log_writes s k)"
  using tx_readyD(2) [OF assms] geom_start [OF tx_readyD(2) [OF assms]] geom_lblk [OF tx_readyD(2) [OF assms]]
  by (auto simp: log_geom_def lblk_def log_writes_def)

lemma tx_log_block:
  assumes "tx_ready s sz k" "i < k"
  shows "disk_after D (log_writes s k) (lg_start s + of_nat i + 1) = blk s (lh_block s i)"
proof -
  have "inj_on (lblk s) {..<k}" using geom_lblk_inj [OF tx_readyD(2) [OF assms(1)]] by (auto simp: inj_on_def)
  from disk_after_rev_map [OF this assms(2), of D "\<lambda>i. blk s (lh_block s i)"] show ?thesis
    by (simp add: log_writes_def lblk_def)
qed

lemma tx_disk_head:
  assumes tx: "tx_ready s sz k"
  shows "sint (rd32 (tx_disk s k (lg_start s)) 0) = int k" "\<And>i. i < k \<Longrightarrow> rd32 (tx_disk s k (lg_start s)) (4 + 4 * i) = lh_block s i"
    "i < k \<Longrightarrow> tx_disk s k (lg_start s + of_nat i + 1) = blk s (lh_block s i)"
    "m \<notin> region (lg_start s) sz \<Longrightarrow> tx_disk s k m = disk s m" "hdr_ok (lg_start s) sz (disksize s) (tx_disk s k)"
proof -
  note t = tx_readyD [OF tx] and r = tx_region [OF tx]
  have k: "k \<le> LOGSIZE" "k < sz" using t(2) by (auto simp: log_geom_def)
  then have len: "4 + 4 * k \<le> length (disk s (lg_start s))" using t(7) by (simp add: LOGSIZE_def BSIZE_def)
  have hd: "tx_disk s k (lg_start s) = tx_head s k" by (simp add: tx_disk_def disk_after_Cons)
  have "sint (of_nat k :: uint) = int k" using k(1) by (intro sint_small) (simp add: LOGSIZE_def)
  then show n: "sint (rd32 (tx_disk s k (lg_start s)) 0) = int k"
    using put_head_words(1) [OF len] by (simp add: hd tx_head_def)
  show w: "rd32 (tx_disk s k (lg_start s)) (4 + 4 * i) = lh_block s i" if "i < k" for i
    using put_head_words(2) [OF len that] by (simp add: hd tx_head_def)
  show "tx_disk s k (lg_start s + of_nat i + 1) = blk s (lh_block s i)" if "i < k"
    using tx_log_block [OF tx that] geom_lblk(5) [OF t(2) that] by (auto simp: tx_disk_def disk_after_Cons lblk_def)
  show "tx_disk s k m = disk s m" if "m \<notin> region (lg_start s) sz"
    using that r(2,5) by (auto simp: tx_disk_def disk_after_Cons intro!: disk_after_other)
  have "length (tx_disk s k (lg_start s)) = BSIZE" using t(7) by (simp add: hd tx_head_def)
  moreover have "unat (lg_start s) + sz \<le> unat (disksize s)" "\<And>i. i < k \<Longrightarrow> lh_block s i < disksize s" using t(2) by (auto simp: log_geom_def)
  moreover have "inj_on (\<lambda>i. rd32 (tx_disk s k (lg_start s)) (4 + 4 * i)) {..<k}" using r(4) w by (auto simp: inj_on_def)
  ultimately show "hdr_ok (lg_start s) sz (disksize s) (tx_disk s k)"
    unfolding hdr_ok_def using n w r(1) k by (intro conjI exI [of _ k]) auto
qed

lemma tx_recovered:
  assumes tx: "tx_ready s sz k" and m: "m \<notin> region (lg_start s) sz"
  shows "recovered (lg_start s) (tx_disk s k) m = blk s m"
proof -
  note hd = tx_disk_head(1,2) [OF tx] tx_region(4) [OF tx]
  note rc = recovered_committed [where D = "tx_disk s k" and st = "lg_start s", OF hd]
  show ?thesis
  proof (cases "m \<in> lh_block s ` {..<k}")
    case True
    then obtain i where "i < k" "m = lh_block s i" by auto
    then show ?thesis by (simp add: rc(1) tx_disk_head(3) [OF tx])
  next
    case False
    then have "blk s m = disk s m" using tx_readyD(5) [OF tx] by (intro blk_unpinned [OF tx_readyD(1) [OF tx]]) simp
    with False show ?thesis by (simp add: rc(2) tx_disk_head(4) [OF tx m])
  qed
qed

text \<open>\<open>commit\<close>: first the log blocks and the header, then the installation with the final header.\<close>

lemma commit_first_half:
  assumes tx: "tx_ready s sz k"
  shows "\<exists>t. kdo (write_log # write_head # ms) s = kdo ms t \<and> wrote s ((lg_start s, tx_head s k) # log_writes s k) t \<and> bframe s t"
proof -
  note t = tx_readyD [OF tx] and r = tx_region [OF tx]
  obtain s1 where s1: "write_log s = Ret () s1" "wrote s (log_writes s k) s1" "bframe s s1"
    using write_log_run [OF t(1-4)] t(5) by auto
  note l = log_sel [OF s1(3)] bframe_sel [OF s1(3)]
  have "lg_start s \<notin> pinned s" using r(1,2) t(5) by (metis imageE lessThan_iff)
  then have "blk s1 (lg_start s) = disk s (lg_start s)"
    using s1(2) r(6) blk_unpinned [OF t(1)] by (simp add: wrote_def disk_after_other)
  then have hd: "put_head k (lh_block s1) (blk s1 (lg_start s1)) = tx_head s k" using l by (simp add: tx_head_def)
  have "\<exists>s'. write_head s1 = Ret () s' \<and> wrote s1 [(lg_start s1, put_head k (lh_block s1) (blk s1 (lg_start s1)))] s' \<and> bframe s1 s'"
    by (rule write_head_run [OF _ _ _ _ _ room_wrote [OF s1(2) t(4)]])
      (use s1(2) l t(2,3) geom_start [OF t(2)] in \<open>auto simp: wrote_def log_geom_def\<close>)
  then obtain s2 where s2: "write_head s1 = Ret () s2" "wrote s1 [(lg_start s, tx_head s k)] s2" "bframe s1 s2" unfolding hd using l by auto
  show ?thesis
    using s1(1) s2(1) wrote_trans [OF s1(2) s2(2)] bframe_trans [OF s1(3) s2(3)] by (intro exI [of _ s2]) (simp add: kmonad)
qed

lemma commit_second_half:
  assumes tx: "tx_ready s sz k" and w: "wrote s ((lg_start s, tx_head s k) # log_writes s k) t" "bframe s t"
    and hw: "hw = rev (map (\<lambda>i. (lh_block s i, tx_disk s k (lg_start s + of_nat i + 1))) [0..<k])"
  shows "\<exists>h0 s'. kdo [install_trans, kmod (\<lambda>s. s\<lparr>lh_n := 0\<rparr>), write_head] t = Ret () s' \<and> wrote t ((lg_start s, h0) # hw) s'
    \<and> length h0 = BSIZE \<and> sint (rd32 h0 0) = 0 \<and> lh_n s' = 0"
proof -
  note r = tx_region [OF tx] and l = log_sel [OF w(2)] bframe_sel [OF w(2)] and rd = tx_readyD [OF tx]
  have ht: "held t {}" using w(1) by (simp add: wrote_def)
  have geom: "log_geom t sz k" using geom_frame [OF w(2)] rd(2) by simp
  have homes: "lh_block t i \<in> pinned t" if i: "i < k" for i
  proof -
    have "lh_block s i \<noteq> lg_start s" "lh_block s i \<notin> fst ` set (log_writes s k)" using r(1) [OF i] r(2,5) by auto
    then show ?thesis using w(1) rd(5) i l by (auto simp: wrote_def)
  qed
  have "\<exists>s'. install_trans t = Ret () s' \<and> wrote t (home_writes t k) s' \<and> bframe t s'"
    by (rule install_trans_run [OF ht geom _ room_wrote [OF w(1) rd(4)]]) (use l rd(3) homes in auto)
  moreover have "blk t (lg_start s + of_nat i + 1) = tx_disk s k (lg_start s + of_nat i + 1)" if i: "i < k" for i
  proof -
    have "blk t (lg_start s + of_nat i + 1) = disk_after (blk s) (log_writes s k) (lg_start s + of_nat i + 1)"
      using w(1) geom_lblk(5) [OF rd(2) i] by (simp add: wrote_def disk_after_Cons lblk_def)
    then show ?thesis using tx_log_block [OF tx i] tx_disk_head(3) [OF tx i] by simp
  qed
  then have "home_writes t k = hw" using l by (simp add: home_writes_def hw lblk_def)
  ultimately obtain s3 where s3: "install_trans t = Ret () s3" "wrote t hw s3" "bframe t s3" by auto
  note l3 = log_sel [OF s3(3)] bframe_sel [OF s3(3)]
  let ?u = "s3\<lparr>lh_n := 0\<rparr>"
  have ru: "room 1 ?u" using room_wrote [OF s3(2) room_wrote [OF w(1) rd(4)]] by simp
  have "\<exists>s'. write_head ?u = Ret () s' \<and> wrote ?u [(lg_start ?u, put_head 0 (lh_block ?u) (blk ?u (lg_start ?u)))] s' \<and> bframe ?u s'"
    by (rule write_head_run [OF _ _ _ _ _ ru])
      (use s3(2) l l3 rd(2) geom_start [OF rd(2)] in \<open>auto simp: wrote_def log_geom_def\<close>)
  then obtain s4 where s4: "write_head ?u = Ret () s4" "wrote s3 [(lg_start s, put_head 0 (lh_block s) (blk s3 (lg_start s)))] s4" "bframe ?u s4"
    using l l3 by auto
  have "lg_start s \<notin> fst ` set hw" using r(1,2) by (force simp: hw)
  then have "blk s3 (lg_start s) = tx_head s k" using s3(2) w(1) by (simp add: wrote_def disk_after_other disk_after_Cons)
  moreover have "length (tx_head s k) = BSIZE" using rd(7) by (simp add: tx_head_def)
  moreover have "lh_n s4 = 0" using log_sel [OF s4(3)] by simp
  ultimately show ?thesis using s3(1) s4 wrote_trans [OF s3(2) s4(2)] put_head_0
    by (intro exI [of _ "put_head 0 (lh_block s) (blk s3 (lg_start s))"] exI [of _ s4]) (simp add: kmonad)
qed

lemma commit_run:
  assumes tx: "tx_ready s sz k" and k: "0 < k"
  shows "\<exists>s' ws. commit s = Ret () s' \<and> wrote s ws s' \<and> lh_n s' = 0 \<and> pinned s' = {}
    \<and> (\<forall>m. m \<notin> region (lg_start s) sz \<longrightarrow> disk s' m = blk s m)
    \<and> (\<forall>vs. suffix vs ws \<longrightarrow> hdr_ok (lg_start s) sz (disksize s) (disk_after (disk s) vs)
        \<and> ((\<forall>m. m \<notin> region (lg_start s) sz \<longrightarrow> recovered (lg_start s) (disk_after (disk s) vs) m = disk s m)
          \<or> (\<forall>m. m \<notin> region (lg_start s) sz \<longrightarrow> recovered (lg_start s) (disk_after (disk s) vs) m = blk s m)))"
proof -
  let ?st = "lg_start s" and ?X = "(lg_start s, tx_head s k) # log_writes s k"
  note rd = tx_readyD [OF tx] and r = tx_region [OF tx] and hd = tx_disk_head [OF tx]
  define hw where "hw = rev (map (\<lambda>i. (lh_block s i, tx_disk s k (?st + of_nat i + 1))) [0..<k])"
  obtain t where t: "kdo (write_log # write_head # [install_trans, kmod (\<lambda>s. s\<lparr>lh_n := 0\<rparr>), write_head]) s
      = kdo [install_trans, kmod (\<lambda>s. s\<lparr>lh_n := 0\<rparr>), write_head] t" "wrote s ?X t" "bframe s t"
    using commit_first_half [OF tx] by blast
  obtain h0 s' where s': "kdo [install_trans, kmod (\<lambda>s. s\<lparr>lh_n := 0\<rparr>), write_head] t = Ret () s'"
    "wrote t ((?st, h0) # hw) s'" "length h0 = BSIZE" "sint (rd32 h0 0) = 0" "lh_n s' = 0"
    using commit_second_half [OF tx t(2,3) hw_def] by blast
  have run: "commit s = Ret () s'" using t(1) s'(1) rd(3) k by (simp add: commit_def kmonad)
  note w = wrote_trans [OF t(2) s'(2)]
  note suf = install_suffixes [where D = "tx_disk s k" and st = ?st and dsz = "disksize s" and f = "lh_block s",
      OF hd(5,1,2) r(4,1-3) hw_def s'(3,4)]
  have new: "hdr_ok ?st sz (disksize s) (disk_after (disk s) (vs @ ?X))"
    "m \<notin> region ?st sz \<Longrightarrow> recovered ?st (disk_after (disk s) (vs @ ?X)) m = blk s m" if "suffix vs ((?st, h0) # hw)" for vs m
    using suf [of vs] that tx_recovered [OF tx] by (simp_all add: disk_after_append tx_disk_def)
  have old: "hdr_ok ?st sz (disksize s) (disk_after (disk s) vs)"
    "m \<notin> region ?st sz \<Longrightarrow> recovered ?st (disk_after (disk s) vs) m = disk s m" if "suffix vs (log_writes s k)" for vs m
  proof -
    have sub: "fst ` set vs \<subseteq> fst ` set (log_writes s k)" using that by (auto dest: set_mono_suffix)
    then have e: "disk_after (disk s) vs ?st = disk s ?st" using r(6) by (intro disk_after_other) auto
    then show "hdr_ok ?st sz (disksize s) (disk_after (disk s) vs)" using rd(2,6,7) by (auto simp: hdr_ok_def log_geom_def)
    show "recovered ?st (disk_after (disk s) vs) m = disk s m" if "m \<notin> region ?st sz"
      using that sub r(5) rd(6) e by (subst recovered_clear) (auto intro!: disk_after_other)
  qed
  have cases: "suffix vs (log_writes s k) \<or> (\<exists>us. vs = us @ ?X \<and> suffix us ((?st, h0) # hw))"
    if "suffix vs (((?st, h0) # hw) @ ?X)" for vs
    using that by (auto simp only: suffix_append suffix_Cons) (auto intro: exI [of _ "[]"])
  have "disk s' m = blk s m" if "m \<notin> region ?st sz" for m
  proof -
    have "disk s' = (disk_after (tx_disk s k) hw)(?st := h0)"
      using wrote_disk [OF w] by (simp add: disk_after_append disk_after_Cons tx_disk_def)
    then show ?thesis using that r(2) tx_recovered [OF tx that]
      installed_all [where D = "tx_disk s k" and st = ?st, OF hd(1,2) r(4) hw_def] by auto
  qed
  moreover have "pinned s' = {}"
  proof -
    have "fst ` set hw = lh_block s ` {..<k}" by (force simp: hw_def)
    then show ?thesis using w rd(5) by (auto simp: wrote_def)
  qed
  moreover have "hdr_ok ?st sz (disksize s) (disk_after (disk s) vs)
        \<and> ((\<forall>m. m \<notin> region ?st sz \<longrightarrow> recovered ?st (disk_after (disk s) vs) m = disk s m)
          \<or> (\<forall>m. m \<notin> region ?st sz \<longrightarrow> recovered ?st (disk_after (disk s) vs) m = blk s m))"
    if v: "suffix vs (((?st, h0) # hw) @ ?X)" for vs
    using cases [OF v]
  proof
    assume "suffix vs (log_writes s k)"
    then show ?thesis using old by simp
  next
    assume "\<exists>us. vs = us @ ?X \<and> suffix us ((?st, h0) # hw)"
    then obtain us where "vs = us @ ?X" "suffix us ((?st, h0) # hw)" by blast
    then show ?thesis using new by simp
  qed
  ultimately show ?thesis
    using run w s'(5) by (intro exI [of _ s'] exI [of _ "((?st, h0) # hw) @ ?X"] conjI) auto
qed

section \<open>Properties\<close>

text \<open>A state for the witnesses: a booted cache on a zeroed disk, with a transaction that changes block 50.\<close>

definition log_demo :: lstate where
  "log_demo = bstate.extend (bio_demo\<lparr>disk0 := (\<lambda>_. replicate 512 0)\<rparr>) (lstate.fields 2 30 0 False 1 1 (\<lambda>_. 50))"

definition tx_demo_bufs :: "(nat \<Rightarrow> buf) \<Rightarrow> nat \<Rightarrow> buf" where
  "tx_demo_bufs B = B(0 := (B 0)\<lparr>b_dev := 1, b_blockno := 50, b_valid := True, b_dirty := True, b_data := replicate 512 7\<rparr>)"

lemma log_demo_sel:
  "lg_start log_demo = 2" "lg_dev log_demo = 1" "lh_n log_demo = 1" "lh_block log_demo = (\<lambda>_. 50)" "disksize log_demo = 1000"
  "disk (log_demo\<lparr>bufs := B\<rparr>) = (\<lambda>_. replicate 512 0)" "benv (log_demo\<lparr>bufs := B\<rparr>)"
proof -
  have "lists_rep (log_demo\<lparr>bufs := B\<rparr>) (\<lambda>_. []) []"
    by (simp add: lists_rep_def links_ok_def pipe_demo_def log_demo_def bio_demo_def pstate.defs bstate.defs lstate.defs)
  then have "table_ok (log_demo\<lparr>bufs := B\<rparr>) (\<lambda>_. []) []"
    by (auto simp: table_ok_def pipe_demo_def log_demo_def bio_demo_def pstate.defs bstate.defs lstate.defs)
  then show "benv (log_demo\<lparr>bufs := B\<rparr>)"
    by (auto simp: benv_def pipe_demo_def log_demo_def bio_demo_def pstate.defs bstate.defs lstate.defs)
qed (simp_all add: log_demo_def bio_demo_def pstate.defs bstate.defs lstate.defs disk_def)

lemma log_boot:
  "\<exists>B. binit log_demo = Ret () (log_demo\<lparr>bufs := B\<rparr>) \<and> bc_ok (log_demo\<lparr>bufs := B\<rparr>) \<and> (\<forall>b. idle_buf (B b))
     \<and> (\<forall>b n. \<not> holds (log_demo\<lparr>bufs := B\<rparr>) b n)"
proof -
  have "log_demo\<lparr>owner := (owner log_demo)(BcacheLock := None), bufs := B\<rparr> = log_demo\<lparr>bufs := B\<rparr>" for B
    by (simp add: log_demo_def bio_demo_def pipe_demo_def pstate.defs bstate.defs lstate.defs fun_upd_idem)
  then show ?thesis
    using binit_run [of log_demo "\<lambda>B. log_demo\<lparr>bufs := B\<rparr>"]
    by (auto simp: log_demo_def bio_demo_def pstate.defs bstate.defs lstate.defs idle_buf_def)
qed

lemma rd32_zero: "i + 3 < 512 \<Longrightarrow> rd32 (replicate 512 0) i = 0"
  by (simp add: rd32_def)

lemma tx_demo:
  assumes "bc_ok (log_demo\<lparr>bufs := B\<rparr>)" "\<forall>b. idle_buf (B b)" "\<forall>b n. \<not> holds (log_demo\<lparr>bufs := B\<rparr>) b n"
  shows "tx_ready (log_demo\<lparr>bufs := tx_demo_bufs B\<rparr>) 30 1" "blk (log_demo\<lparr>bufs := tx_demo_bufs B\<rparr>) 50 = replicate 512 7"
proof -
  let ?s = "log_demo\<lparr>bufs := tx_demo_bufs B\<rparr>"
  have h: "holds ?s b n \<longleftrightarrow> b = 0 \<and> n = 50" for b n
    using assms(3) by (auto simp: holds_def tx_demo_bufs_def NBUF_def)
  have d: "b_dirty (bufs ?s b) \<longleftrightarrow> b = 0" "\<not> b_busy (bufs ?s b)" "b_valid (bufs ?s b) \<longleftrightarrow> b = 0" for b
    using assms(2) by (auto simp: tx_demo_bufs_def idle_buf_def)
  obtain xs where "bc_list (log_demo\<lparr>bufs := B\<rparr>) xs" using bc_okD(4) [OF assms(1)] by blast
  moreover have "(\<lambda>b. b_next (tx_demo_bufs B b)) = (\<lambda>b. b_next (B b))" "(\<lambda>b. b_prev (tx_demo_bufs B b)) = (\<lambda>b. b_prev (B b))"
    by (auto simp: tx_demo_bufs_def)
  ultimately have "bc_list ?s xs" by (simp add: bc_list_def)
  then have ok: "bc_ok ?s" unfolding bc_ok_def h using d by auto
  then have held: "held ?s {}" using d log_demo_sel(7) by (simp add: held_def busyb_def)
  have dirty: "dirtyb ?s = {0}" "pinned ?s = {50}" using d by (auto simp: dirtyb_def pinned_def h NBUF_def)
  have "50 \<notin> region 2 30"
  proof
    assume "50 \<in> region 2 30"
    then obtain i where i: "50 = (2 :: uint) + of_nat i" "i < 30" by (auto simp: region_def)
    then have "unat (50 :: uint) = unat ((2 :: uint) + of_nat i)" by simp
    also have "\<dots> = 2 + i" using unat_offset [of 2 i 1000] i(2) by simp
    finally show False using i(2) by simp
  qed
  then have "log_geom ?s 30 1" by (simp add: log_geom_def log_demo_sel LOGSIZE_def inj_on_def)
  then show "tx_ready ?s 30 1"
    using held dirty by (simp add: tx_ready_def log_demo_sel room_def NBUF_def rd32_zero BSIZE_def image_def lessThan_def)
  show "blk ?s 50 = replicate 512 7"
    using blk_cached [OF ok, of 0 50] h d by (simp add: tx_demo_bufs_def)
qed

text \<open>C1. Transactions are atomic under crashes. Let a transaction of \<open>k\<close> blocks be ready to commit: no buffer locked, the
  pinned blocks are those of the header in memory, the header on the disk is empty, and the log area has room. Then
  \<open>commit\<close> returns with all cached contents on the disk; and if only the first writes of it, however many, reach the
  disk, \<open>recover_from_log\<close> on a freshly booted kernel ends with the blocks outside the log either all as before
  the transaction or all as after it.\<close>

theorem commit_crash_atomic:
  assumes tx: "tx_ready s sz k" and k: "0 < k"
  shows "\<exists>s' ws. commit s = Ret () s' \<and> dwrites s' = ws @ dwrites s
    \<and> (\<forall>m. m \<notin> region (lg_start s) sz \<longrightarrow> disk s' m = blk s m)
    \<and> (\<forall>vs r. suffix vs ws \<and> held r {} \<and> dirtyb r = {} \<and> lg_dev r = 1 \<and> lg_start r = lg_start s \<and> disksize r = disksize s
          \<and> disk r = disk_after (disk s) vs \<longrightarrow>
        (\<exists>r'. recover_from_log r = Ret () r' \<and> ((\<forall>m. m \<notin> region (lg_start s) sz \<longrightarrow> disk r' m = disk s m)
          \<or> (\<forall>m. m \<notin> region (lg_start s) sz \<longrightarrow> disk r' m = blk s m))))"
proof -
  obtain s' ws where s': "commit s = Ret () s'" "wrote s ws s'" "\<forall>m. m \<notin> region (lg_start s) sz \<longrightarrow> disk s' m = blk s m"
    "\<And>vs. suffix vs ws \<Longrightarrow> hdr_ok (lg_start s) sz (disksize s) (disk_after (disk s) vs)
        \<and> ((\<forall>m. m \<notin> region (lg_start s) sz \<longrightarrow> recovered (lg_start s) (disk_after (disk s) vs) m = disk s m)
          \<or> (\<forall>m. m \<notin> region (lg_start s) sz \<longrightarrow> recovered (lg_start s) (disk_after (disk s) vs) m = blk s m))"
    using commit_run [OF tx k] by blast
  have "\<exists>r'. recover_from_log r = Ret () r' \<and> ((\<forall>m. m \<notin> region (lg_start s) sz \<longrightarrow> disk r' m = disk s m)
      \<or> (\<forall>m. m \<notin> region (lg_start s) sz \<longrightarrow> disk r' m = blk s m))"
    if a: "suffix vs ws" "held r {}" "dirtyb r = {}" "lg_dev r = 1" "lg_start r = lg_start s" "disksize r = disksize s"
      "disk r = disk_after (disk s) vs" for vs and r :: "'b lstate_scheme"
  proof -
    have "hdr_ok (lg_start s) sz (disksize r) (disk r)" using s'(4) [OF a(1)] a(6,7) by simp
    from recover_run [OF a(2-5) this] obtain r' where "recover_from_log r = Ret () r'"
      "\<forall>m. m \<notin> region (lg_start s) sz \<longrightarrow> disk r' m = recovered (lg_start s) (disk r) m" by blast
    then show ?thesis using s'(4) [OF a(1)] a(7) by auto
  qed
  then show ?thesis using s'(1-3) by (intro exI [of _ s'] exI [of _ ws]) (auto simp: wrote_def)
qed

theorem commit_crash_atomic_witness:
  "\<exists>B s'. binit log_demo = Ret () (log_demo\<lparr>bufs := B\<rparr>) \<and> commit (log_demo\<lparr>bufs := tx_demo_bufs B\<rparr>) = Ret () s'
    \<and> disk log_demo 50 = replicate 512 0 \<and> disk s' 50 = replicate 512 7
    \<and> (\<exists>r'. recover_from_log (log_demo\<lparr>bufs := B\<rparr>) = Ret () r' \<and> disk r' 50 \<in> {replicate 512 0, replicate 512 7})"
proof -
  obtain B where B: "binit log_demo = Ret () (log_demo\<lparr>bufs := B\<rparr>)" "bc_ok (log_demo\<lparr>bufs := B\<rparr>)" "\<forall>b. idle_buf (B b)"
    "\<forall>b n. \<not> holds (log_demo\<lparr>bufs := B\<rparr>) b n" using log_boot by blast
  note tx = tx_demo [OF B(2-4)]
  let ?s = "log_demo\<lparr>bufs := tx_demo_bufs B\<rparr>" and ?r = "log_demo\<lparr>bufs := B\<rparr>"
  have out: "50 \<notin> region (lg_start ?s) 30"
    using tx(1) by (auto simp: tx_ready_def log_geom_def log_demo_sel)
  have r: "held ?r {}" "dirtyb ?r = {}" using B(2,3) log_demo_sel(7) by (auto simp: held_def busyb_def dirtyb_def idle_buf_def)
  from commit_crash_atomic [where 'b = unit, OF tx(1) zero_less_one] obtain s' ws where s': "commit ?s = Ret () s'"
    "\<forall>m. m \<notin> region (lg_start ?s) 30 \<longrightarrow> disk s' m = blk ?s m"
    and rec: "\<forall>vs r. suffix vs ws \<and> held r {} \<and> dirtyb r = {} \<and> lg_dev r = 1 \<and> lg_start r = lg_start ?s \<and> disksize r = disksize ?s
          \<and> disk r = disk_after (disk ?s) vs \<longrightarrow>
        (\<exists>r'. recover_from_log (r :: lstate) = Ret () r' \<and> ((\<forall>m. m \<notin> region (lg_start ?s) 30 \<longrightarrow> disk r' m = disk ?s m)
          \<or> (\<forall>m. m \<notin> region (lg_start ?s) 30 \<longrightarrow> disk r' m = blk ?s m)))"
    by (elim exE conjE) (rule that)
  have "\<exists>r'. recover_from_log ?r = Ret () r' \<and> ((\<forall>m. m \<notin> region (lg_start ?s) 30 \<longrightarrow> disk r' m = disk ?s m)
      \<or> (\<forall>m. m \<notin> region (lg_start ?s) 30 \<longrightarrow> disk r' m = blk ?s m))"
    using rec [rule_format, of "[]" ?r] r by (simp add: log_demo_sel)
  then have "\<exists>r'. recover_from_log ?r = Ret () r' \<and> (disk r' 50 = disk ?s 50 \<or> disk r' 50 = blk ?s 50)" using out by blast
  moreover have "disk ?s 50 = replicate 512 0" "disk log_demo 50 = replicate 512 0"
    using log_demo_sel(6) [of "tx_demo_bufs B"] log_demo_sel(6) [of "bufs log_demo"] by simp_all
  ultimately show ?thesis using B(1) s' out tx(2) by auto
qed

text \<open>C29. Recovery can itself be interrupted: with a well-formed header on the disk, \<open>recover_from_log\<close> returns with the blocks
  the header names installed and the header cleared; and after any initial part of its writes the header is still
  well-formed and the disk stands for the same contents, so that another recovery completes it.\<close>

theorem recovery_restartable:
  assumes "held r {}" "dirtyb r = {}" "lg_dev r = 1" "lg_start r = st" "hdr_ok st sz (disksize r) (disk r)"
  shows "\<exists>r' ws. recover_from_log r = Ret () r' \<and> dwrites r' = ws @ dwrites r
    \<and> (\<forall>m. m \<notin> region st sz \<longrightarrow> disk r' m = recovered st (disk r) m) \<and> sint (rd32 (disk r' st) 0) = 0
    \<and> (\<forall>vs. suffix vs ws \<longrightarrow> hdr_ok st sz (disksize r) (disk_after (disk r) vs)
        \<and> (\<forall>m. m \<notin> region st sz \<longrightarrow> recovered st (disk_after (disk r) vs) m = recovered st (disk r) m))"
  using recover_run [OF assms] by (auto simp: wrote_def)

theorem recovery_restartable_witness:
  "\<exists>B r'. binit log_demo = Ret () (log_demo\<lparr>bufs := B\<rparr>) \<and> recover_from_log (log_demo\<lparr>bufs := B\<rparr>) = Ret () r'
    \<and> sint (rd32 (disk r' 2) 0) = 0"
proof -
  obtain B where B: "binit log_demo = Ret () (log_demo\<lparr>bufs := B\<rparr>)" "bc_ok (log_demo\<lparr>bufs := B\<rparr>)" "\<forall>b. idle_buf (B b)"
    using log_boot by blast
  let ?r = "log_demo\<lparr>bufs := B\<rparr>"
  have r: "held ?r {}" "dirtyb ?r = {}" using B(2,3) log_demo_sel(7) by (auto simp: held_def busyb_def dirtyb_def idle_buf_def)
  have "hdr_ok 2 30 (disksize ?r) (disk ?r)" by (simp add: hdr_ok_def log_demo_sel rd32_zero BSIZE_def)
  with recovery_restartable [OF r, of 2 30] B(1) show ?thesis by (auto simp: log_demo_sel)
qed

end
