(* ===== verification/Inode.thy ===== *)
theory Inode
  imports Log
begin

text \<open>
  The block allocator and the inodes of \<open>fs.c\<close>: the free map, the inode cache with its reference
  counts and locks, the inodes on the disk, and the blocks of a file (\<open>bmap\<close>, \<open>itrunc\<close>). A pointer to an
  in-memory inode is its index in the cache. Data are read and written through the buffer cache and
  the log, as byte lists.
\<close>

unbundle bit_operations_syntax

section \<open>The layout of the disk\<close>

definition ROOTINO :: uint where
  "ROOTINO = 1"

definition ROOTDEV :: uint where
  "ROOTDEV = 1"

definition NINODE :: nat where
  "NINODE = 50"

definition NDIRECT :: nat where
  "NDIRECT = 12"

definition NINDIRECT :: nat where
  "NINDIRECT = 128"

definition MAXFILE :: nat where
  "MAXFILE = NDIRECT + NINDIRECT"

definition IPB :: nat where
  "IPB = 8"

definition IBLOCK :: "uint \<Rightarrow> superblock \<Rightarrow> uint" where
  "IBLOCK i sb = i div of_nat IPB + sb_inodestart sb"

definition BPB :: nat where
  "BPB = 4096"

definition BBLOCK :: "uint \<Rightarrow> superblock \<Rightarrow> uint" where
  "BBLOCK b sb = b div of_nat BPB + sb_bmapstart sb"

definition T_DIR :: u16 where
  "T_DIR = 1"

definition T_FILE :: u16 where
  "T_FILE = 2"

definition T_DEV :: u16 where
  "T_DEV = 3"

definition rd16 :: "u8 list \<Rightarrow> nat \<Rightarrow> u16" where
  "rd16 d i = ucast (d ! i) OR push_bit 8 (ucast (d ! (i + 1)))"

definition wr16 :: "u8 list \<Rightarrow> nat \<Rightarrow> u16 \<Rightarrow> u8 list" where
  "wr16 d i w = d[i := ucast w, i + 1 := ucast (drop_bit 8 w)]"

record inode =
  i_dev :: uint
  i_inum :: uint
  i_ref :: int
  i_busy :: bool
  i_valid :: bool
  i_type :: u16
  i_major :: u16
  i_minor :: u16
  i_nlink :: u16
  i_size :: uint
  i_addrs :: "nat \<Rightarrow> uint"

record istate = lstate +
  inodes :: "nat \<Rightarrow> inode"
  sblk :: superblock

definition upd_inode :: "nat \<Rightarrow> (inode \<Rightarrow> inode) \<Rightarrow> ('z istate_scheme, unit) km" where
  "upd_inode i f = kmod (\<lambda>s. s\<lparr>inodes := (inodes s)(i := f (inodes s i))\<rparr>)"

definition the_inode :: "nat \<Rightarrow> (inode \<Rightarrow> 'a) \<Rightarrow> ('z istate_scheme, 'a) km" where
  "the_inode i f = kget (\<lambda>s. f (inodes s i))"

definition upd_data :: "nat \<Rightarrow> (block \<Rightarrow> block) \<Rightarrow> ('z bstate_scheme, unit) km" where
  "upd_data b f = upd_buf b (\<lambda>x. x\<lparr>b_data := f (b_data x)\<rparr>)"

section \<open>The free map\<close>

definition bzero :: "uint \<Rightarrow> uint \<Rightarrow> ('z istate_scheme, unit) km" where
  "bzero dev bno = kbind (bread dev bno) (\<lambda>bp. kdo [upd_data bp (\<lambda>_. replicate BSIZE 0), log_write bp, brelse bp])"

definition bm_bit :: "block \<Rightarrow> nat \<Rightarrow> bool" where
  "bm_bit d bi \<longleftrightarrow> d ! (bi div 8) AND push_bit (bi mod 8) 1 \<noteq> 0"

definition bm_set :: "nat \<Rightarrow> block \<Rightarrow> block" where
  "bm_set bi d = d[bi div 8 := d ! (bi div 8) OR push_bit (bi mod 8) 1]"

definition bm_clear :: "nat \<Rightarrow> block \<Rightarrow> block" where
  "bm_clear bi d = d[bi div 8 := d ! (bi div 8) AND NOT (push_bit (bi mod 8) 1)]"

text \<open>\<open>balloc\<close>: the outer loop goes over the blocks of the free map, given as the list of the first block
  numbers they describe, the inner loop over the bits of one of them.\<close>

fun balloc_loop :: "uint \<Rightarrow> nat list \<Rightarrow> ('z istate_scheme, uint) km" where
  "balloc_loop dev [] = kpanic ''balloc: out of blocks''"
| "balloc_loop dev (b # bs) = kbind (kget sblk) (\<lambda>sb. kbind (bread dev (BBLOCK (of_nat b) sb)) (\<lambda>bp. kbind (the_buf bp b_data) (\<lambda>d.
     case find (\<lambda>bi. \<not> bm_bit d bi) [0..<min BPB (unat (sb_size sb) - b)] of
       Some bi \<Rightarrow> kdo2 [
         upd_data bp (bm_set bi), log_write bp, brelse bp,
         bzero dev (of_nat (b + bi))] (kret (of_nat (b + bi)))
     | None \<Rightarrow> kthen (brelse bp) (balloc_loop dev bs))))"

definition balloc :: "uint \<Rightarrow> ('z istate_scheme, uint) km" where
  "balloc dev = kbind (kget (\<lambda>s. unat (sb_size (sblk s)))) (\<lambda>n. balloc_loop dev (map (\<lambda>i. BPB * i) [0..<(n + BPB - 1) div BPB]))"

definition bfree :: "uint \<Rightarrow> uint \<Rightarrow> ('z istate_scheme, unit) km" where
  "bfree dev b = kbind (readsb dev) (\<lambda>sb. kthen (kmod (\<lambda>s. s\<lparr>sblk := sb\<rparr>))
     (kbind (bread dev (BBLOCK b sb)) (\<lambda>bp. kbind (the_buf bp b_data) (\<lambda>d.
       let bi = unat b mod BPB in
       if \<not> bm_bit d bi then kpanic ''freeing free block''
       else kdo [upd_data bp (bm_clear bi), log_write bp, brelse bp]))))"

section \<open>Inodes\<close>

text \<open>\<open>iinit\<close>, with the line it prints left out.\<close>

definition iinit :: "uint \<Rightarrow> ('z istate_scheme, unit) km" where
  "iinit dev = kdo [
     kmod (\<lambda>s. s\<lparr>owner := (owner s)(IcacheLock := None)\<rparr>),
     kbind (readsb dev) (\<lambda>sb. kmod (\<lambda>s. s\<lparr>sblk := sb\<rparr>))]"

fun iget_scan :: "(nat \<Rightarrow> inode) \<Rightarrow> uint \<Rightarrow> uint \<Rightarrow> nat list \<Rightarrow> nat option \<Rightarrow> nat option \<times> nat option" where
  "iget_scan c dev inum [] vacant = (None, vacant)"
| "iget_scan c dev inum (i # is) vacant =
     (if i_ref (c i) > 0 \<and> i_dev (c i) = dev \<and> i_inum (c i) = inum then (Some i, vacant)
      else iget_scan c dev inum is (if vacant = None \<and> i_ref (c i) = 0 then Some i else vacant))"

definition iget :: "uint \<Rightarrow> uint \<Rightarrow> ('z istate_scheme, nat) km" where
  "iget dev inum = kthen (acquire_lk IcacheLock) (kbind (kget (\<lambda>s. iget_scan (inodes s) dev inum [0..<NINODE] None)) (\<lambda>r. case r of
     (Some ip, _) \<Rightarrow> kdo2 [upd_inode ip (\<lambda>x. x\<lparr>i_ref := i_ref x + 1\<rparr>), release_lk IcacheLock] (kret ip)
   | (None, None) \<Rightarrow> kpanic ''iget: no inodes''
   | (None, Some ip) \<Rightarrow> kdo2 [
       upd_inode ip (\<lambda>x. x\<lparr>i_dev := dev\<rparr>),
       upd_inode ip (\<lambda>x. x\<lparr>i_inum := inum\<rparr>),
       upd_inode ip (\<lambda>x. x\<lparr>i_ref := 1\<rparr>),
       upd_inode ip (\<lambda>x. x\<lparr>i_busy := False, i_valid := False\<rparr>),
       release_lk IcacheLock] (kret ip)))"

definition dinode_at :: "uint \<Rightarrow> nat" where
  "dinode_at inum = 64 * (unat inum mod IPB)"

text \<open>The on-disk inode at offset \<open>o\<close> of a block: type, major, minor, nlink, size and the block addresses.\<close>

definition dinode_read :: "block \<Rightarrow> nat \<Rightarrow> inode \<Rightarrow> inode" where
  "dinode_read d off x = x\<lparr>i_type := rd16 d off, i_major := rd16 d (off + 2), i_minor := rd16 d (off + 4),
     i_nlink := rd16 d (off + 6), i_size := rd32 d (off + 8),
     i_addrs := (\<lambda>k. if k \<le> NDIRECT then rd32 d (off + 12 + 4 * k) else i_addrs x k)\<rparr>"

definition dinode_write :: "inode \<Rightarrow> nat \<Rightarrow> block \<Rightarrow> block" where
  "dinode_write x off d = fold (\<lambda>k d. wr32 d (off + 12 + 4 * k) (i_addrs x k)) [0..<NDIRECT + 1]
     (wr32 (wr16 (wr16 (wr16 (wr16 d off (i_type x)) (off + 2) (i_major x)) (off + 4) (i_minor x)) (off + 6) (i_nlink x))
       (off + 8) (i_size x))"

definition dinode_clear :: "nat \<Rightarrow> block \<Rightarrow> block" where
  "dinode_clear off d = take off d @ replicate 64 0 @ drop (off + 64) d"

fun ialloc_loop :: "uint \<Rightarrow> u16 \<Rightarrow> nat list \<Rightarrow> ('z istate_scheme, nat) km" where
  "ialloc_loop dev type [] = kpanic ''ialloc: no inodes''"
| "ialloc_loop dev type (inum # is) = kbind (kget sblk) (\<lambda>sb. kbind (bread dev (IBLOCK (of_nat inum) sb)) (\<lambda>bp. kbind (the_buf bp b_data) (\<lambda>d.
     let off = dinode_at (of_nat inum) in
     if rd16 d off = 0 then kthen (kdo [
         upd_data bp (dinode_clear off),
         upd_data bp (\<lambda>d. wr16 d off type),
         log_write bp, brelse bp]) (iget dev (of_nat inum))
     else kthen (brelse bp) (ialloc_loop dev type is))))"

definition ialloc :: "uint \<Rightarrow> u16 \<Rightarrow> ('z istate_scheme, nat) km" where
  "ialloc dev type = kbind (kget (\<lambda>s. unat (sb_ninodes (sblk s)))) (\<lambda>n. ialloc_loop dev type [1..<n])"

definition iupdate :: "nat \<Rightarrow> ('z istate_scheme, unit) km" where
  "iupdate ip = kbind (the_inode ip id) (\<lambda>x. kbind (kget sblk) (\<lambda>sb. kbind (bread (i_dev x) (IBLOCK (i_inum x) sb)) (\<lambda>bp. kdo [
     upd_data bp (dinode_write x (dinode_at (i_inum x))), log_write bp, brelse bp])))"

definition idup :: "nat \<Rightarrow> ('z istate_scheme, nat) km" where
  "idup ip = kdo2 [acquire_lk IcacheLock, upd_inode ip (\<lambda>x. x\<lparr>i_ref := i_ref x + 1\<rparr>), release_lk IcacheLock] (kret ip)"

definition ilock_read :: "nat \<Rightarrow> ('z istate_scheme, unit) km" where
  "ilock_read ip = kbind (the_inode ip id) (\<lambda>x. if i_valid x then kret () else
     kbind (kget sblk) (\<lambda>sb. kbind (bread (i_dev x) (IBLOCK (i_inum x) sb)) (\<lambda>bp. kbind (the_buf bp b_data) (\<lambda>d. kdo [
       upd_inode ip (dinode_read d (dinode_at (i_inum x))),
       brelse bp,
       upd_inode ip (\<lambda>x. x\<lparr>i_valid := True\<rparr>),
       kbind (the_inode ip i_type) (\<lambda>t. if t = 0 then kpanic ''ilock: no type'' else kret ())]))))"

text \<open>The loop of \<open>ilock\<close>, entered again after each sleep.\<close>

definition ilock_loop :: "nat \<Rightarrow> ('z istate_scheme, unit) km" where
  "ilock_loop ip = kbind (the_inode ip i_busy) (\<lambda>b.
     if b then sleep (InodeChan ip) (Some IcacheLock)
     else kdo [upd_inode ip (\<lambda>x. x\<lparr>i_busy := True\<rparr>), release_lk IcacheLock, ilock_read ip])"

definition ilock :: "nat \<Rightarrow> ('z istate_scheme, unit) km" where
  "ilock ip = kbind (the_inode ip i_ref) (\<lambda>r. if r < 1 then kpanic ''ilock''
     else kthen (acquire_lk IcacheLock) (ilock_loop ip))"

definition ilock_resume :: "nat \<Rightarrow> ('z istate_scheme, unit) km" where
  "ilock_resume ip = kthen (sleep_tail IcacheLock) (ilock_loop ip)"

definition iunlock :: "nat \<Rightarrow> ('z istate_scheme, unit) km" where
  "iunlock ip = kbind (the_inode ip id) (\<lambda>x. if \<not> i_busy x \<or> i_ref x < 1 then kpanic ''iunlock''
     else kdo [acquire_lk IcacheLock, upd_inode ip (\<lambda>x. x\<lparr>i_busy := False\<rparr>), wakeup (InodeChan ip), release_lk IcacheLock])"

section \<open>The blocks of a file\<close>

definition set_addr :: "nat \<Rightarrow> nat \<Rightarrow> uint \<Rightarrow> ('z istate_scheme, unit) km" where
  "set_addr ip k a = upd_inode ip (\<lambda>x. x\<lparr>i_addrs := (i_addrs x)(k := a)\<rparr>)"

text \<open>The address at index \<open>k\<close> of the inode, allocated when it is zero.\<close>

definition addr_or_balloc :: "nat \<Rightarrow> nat \<Rightarrow> ('z istate_scheme, uint) km" where
  "addr_or_balloc ip k = kbind (the_inode ip id) (\<lambda>x. if i_addrs x k = 0
     then kbind (balloc (i_dev x)) (\<lambda>a. kdo2 [set_addr ip k a] (kret a)) else kret (i_addrs x k))"

definition bmap :: "nat \<Rightarrow> uint \<Rightarrow> ('z istate_scheme, uint) km" where
  "bmap ip bn = (if unat bn < NDIRECT then addr_or_balloc ip (unat bn)
     else let bn = unat bn - NDIRECT in
     if bn < NINDIRECT then
       kbind (addr_or_balloc ip NDIRECT) (\<lambda>addr. kbind (the_inode ip i_dev) (\<lambda>dev.
       kbind (bread dev addr) (\<lambda>bp. kbind (the_buf bp b_data) (\<lambda>d.
         if rd32 d (4 * bn) = 0 then
           kbind (balloc dev) (\<lambda>addr. kdo2 [upd_data bp (\<lambda>d. wr32 d (4 * bn) addr), log_write bp, brelse bp] (kret addr))
         else kdo2 [brelse bp] (kret (rd32 d (4 * bn)))))))
     else kpanic ''bmap: out of range'')"

definition itrunc :: "nat \<Rightarrow> ('z istate_scheme, unit) km" where
  "itrunc ip = kbind (the_inode ip i_dev) (\<lambda>dev. kdo [
     kfor [0..<NDIRECT] (\<lambda>i. kbind (the_inode ip i_addrs) (\<lambda>a.
       if a i \<noteq> 0 then kdo [bfree dev (a i), set_addr ip i 0] else kret ())),
     kbind (the_inode ip i_addrs) (\<lambda>addrs. if addrs NDIRECT \<noteq> 0 then
       kbind (bread dev (addrs NDIRECT)) (\<lambda>bp. kdo [
         kfor [0..<NINDIRECT] (\<lambda>j. kbind (the_buf bp b_data) (\<lambda>d.
           if rd32 d (4 * j) \<noteq> 0 then bfree dev (rd32 d (4 * j)) else kret ())),
         brelse bp,
         bfree dev (addrs NDIRECT),
         set_addr ip NDIRECT 0]) else kret ()),
     upd_inode ip (\<lambda>x. x\<lparr>i_size := 0\<rparr>),
     iupdate ip])"

definition iput :: "nat \<Rightarrow> ('z istate_scheme, unit) km" where
  "iput ip = kdo [
     acquire_lk IcacheLock,
     kbind (the_inode ip id) (\<lambda>x. if i_ref x = 1 \<and> i_valid x \<and> i_nlink x = 0 then
       if i_busy x then kpanic ''iput busy'' else kdo [
         upd_inode ip (\<lambda>x. x\<lparr>i_busy := True\<rparr>),
         release_lk IcacheLock,
         itrunc ip,
         upd_inode ip (\<lambda>x. x\<lparr>i_type := 0\<rparr>),
         iupdate ip,
         acquire_lk IcacheLock,
         upd_inode ip (\<lambda>x. x\<lparr>i_busy := False, i_valid := False\<rparr>),
         wakeup (InodeChan ip)]
       else kret ()),
     upd_inode ip (\<lambda>x. x\<lparr>i_ref := i_ref x - 1\<rparr>),
     release_lk IcacheLock]"

definition iunlockput :: "nat \<Rightarrow> ('z istate_scheme, unit) km" where
  "iunlockput ip = kdo [iunlock ip, iput ip]"

record stat =
  st_type :: u16
  st_dev :: uint
  st_ino :: uint
  st_nlink :: u16
  st_size :: uint

definition stati :: "nat \<Rightarrow> ('z istate_scheme, stat) km" where
  "stati ip = the_inode ip (\<lambda>x. \<lparr>st_type = i_type x, st_dev = i_dev x, st_ino = i_inum x, st_nlink = i_nlink x, st_size = i_size x\<rparr>)"

section \<open>Properties\<close>

text \<open>The cache invariant: counts are not negative and an inode has at most one entry in use.\<close>

definition ic_ok :: "(nat \<Rightarrow> inode) \<Rightarrow> bool" where
  "ic_ok c \<longleftrightarrow> (\<forall>i < NINODE. 0 \<le> i_ref (c i)) \<and> (\<forall>i < NINODE. \<forall>j < NINODE. 0 < i_ref (c i) \<longrightarrow> 0 < i_ref (c j)
     \<longrightarrow> i_dev (c i) = i_dev (c j) \<longrightarrow> i_inum (c i) = i_inum (c j) \<longrightarrow> i = j)"

definition cached_at :: "(nat \<Rightarrow> inode) \<Rightarrow> uint \<Rightarrow> uint \<Rightarrow> nat \<Rightarrow> bool" where
  "cached_at c dev inum i \<longleftrightarrow> 0 < i_ref (c i) \<and> i_dev (c i) = dev \<and> i_inum (c i) = inum"

lemma iget_scan_fst: "fst (iget_scan c dev inum xs v) = find (cached_at c dev inum) xs"
  by (induction xs arbitrary: v) (auto simp: cached_at_def)

lemma iget_scan_snd:
  "find (cached_at c dev inum) xs = None \<Longrightarrow>
     snd (iget_scan c dev inum xs v) = (if v = None then find (\<lambda>i. i_ref (c i) = 0) xs else v)"
  by (induction xs arbitrary: v) (auto simp: cached_at_def split: if_splits)

definition with_inode :: "nat \<Rightarrow> inode \<Rightarrow> 'z istate_scheme \<Rightarrow> 'z istate_scheme" where
  "with_inode i x s = s\<lparr>inodes := (inodes s)(i := x)\<rparr>"

lemma upd_inode_run: "upd_inode i f s = Ret () (with_inode i (f (inodes s i)) s)"
  by (simp add: upd_inode_def with_inode_def kmonad)

lemma with_inode [simp]:
  "inodes (with_inode i x s) = (inodes s)(i := x)" "with_inode i y (with_inode i x s) = with_inode i y s"
  "owner (with_inode i x s) = owner s" "ncli (with_inode i x s) = ncli s" "cpuid (with_inode i x s) = cpuid s"
  by (simp_all add: with_inode_def)

lemma with_inode_lock:
  assumes "lock_free l s"
  shows "release_lk l (with_inode i x (lock_taken l s)) = Ret () (with_inode i x s)"
proof -
  have "release_lk l (with_inode i x (lock_taken l s)) = Ret () (lock_dropped l (with_inode i x (lock_taken l s)))"
    by (rule release_dropped) (use assms in \<open>auto simp: lock_free_def\<close>)
  also have "lock_dropped l (with_inode i x (lock_taken l s)) = with_inode i x s"
    using assms by (simp add: lock_dropped_def lock_taken_def with_inode_def lock_free_def fun_upd_idem)
  finally show ?thesis .
qed

lemma lock_taken_inodes [simp]: "inodes (lock_taken l s) = inodes s"
  by (simp add: lock_taken_def)

text \<open>The entry \<open>iget\<close> hands out.\<close>

definition iget_entry :: "(nat \<Rightarrow> inode) \<Rightarrow> uint \<Rightarrow> uint \<Rightarrow> nat \<Rightarrow> inode" where
  "iget_entry c dev inum i = (if cached_at c dev inum i then (c i)\<lparr>i_ref := i_ref (c i) + 1\<rparr>
     else (c i)\<lparr>i_dev := dev, i_inum := inum, i_ref := 1, i_busy := False, i_valid := False\<rparr>)"

text \<open>C12. The inode cache: \<open>iget\<close> returns the entry in use for the inode, one reference more, or else an unused entry
  set up for it with one reference, not valid and not locked; the lock is released, no other entry changes and there
  is still at most one entry in use per inode. Only when every entry is in use for another inode does it panic.\<close>

theorem iget_one_entry:
  assumes ok: "ic_ok (inodes s)" and lf: "lock_free IcacheLock s"
  shows "if \<exists>i < NINODE. cached_at (inodes s) dev inum i \<or> i_ref (inodes s i) = 0
    then \<exists>i < NINODE. iget dev inum s = Ret i (with_inode i (iget_entry (inodes s) dev inum i) s)
      \<and> (cached_at (inodes s) dev inum i \<or> i_ref (inodes s i) = 0 \<and> (\<forall>j < NINODE. \<not> cached_at (inodes s) dev inum j))
      \<and> ic_ok ((inodes s)(i := iget_entry (inodes s) dev inum i))
    else iget dev inum s = Stop (Panic ''iget: no inodes'')"
proof -
  let ?c = "inodes s"
  have acq: "acquire_lk IcacheLock s = Ret () (lock_taken IcacheLock s)" using klock.acq_free [OF lf] .
  obtain h v where hv: "iget_scan ?c dev inum [0..<NINODE] None = (h, v)" by fastforce
  have h: "h = find (cached_at ?c dev inum) [0..<NINODE]" using iget_scan_fst [of ?c dev inum "[0..<NINODE]" None] hv by simp
  have v: "h = None \<Longrightarrow> v = find (\<lambda>i. i_ref (?c i) = 0) [0..<NINODE]"
    using iget_scan_snd [of ?c dev inum "[0..<NINODE]" None] hv h by simp
  consider (hit) i where "h = Some i" | (free) i where "h = None" "v = Some i" | (full) "h = None" "v = None"
    by (cases h; cases v) auto
  then show ?thesis
  proof cases
    case (hit i)
    then have i: "i < NINODE" "cached_at ?c dev inum i" using h find_SomeD [of "cached_at ?c dev inum" "[0..<NINODE]" i] by auto
    have run: "iget dev inum s = Ret i (with_inode i (iget_entry ?c dev inum i) s)"
      using acq hv hit i(2) with_inode_lock [OF lf] by (simp add: iget_def kmonad upd_inode_run iget_entry_def)
    have "ic_ok (?c(i := iget_entry ?c dev inum i))" using ok i by (auto simp: ic_ok_def iget_entry_def cached_at_def)
    with run i show ?thesis by (auto simp: exI [of _ i])
  next
    case (free i)
    then have i: "i < NINODE" "i_ref (?c i) = 0" using v find_SomeD [of "\<lambda>i. i_ref (?c i) = 0" "[0..<NINODE]" i] by auto
    have no: "\<not> cached_at ?c dev inum j" if "j < NINODE" for j using that free(1) h by (auto simp: find_None_iff)
    have nc: "\<not> cached_at ?c dev inum i" using i by (simp add: cached_at_def)
    have run: "iget dev inum s = Ret i (with_inode i (iget_entry ?c dev inum i) s)"
      using acq hv free nc with_inode_lock [OF lf] by (simp add: iget_def kmonad upd_inode_run iget_entry_def)
    have "ic_ok (?c(i := iget_entry ?c dev inum i))"
      using ok i no nc by (auto simp: ic_ok_def iget_entry_def cached_at_def)
    with run i no show ?thesis by (auto simp: exI [of _ i])
  next
    case full
    then have "\<not> cached_at ?c dev inum i" "i_ref (?c i) \<noteq> 0" if "i < NINODE" for i
      using that h v by (auto simp: find_None_iff)
    moreover have "iget dev inum s = Stop (Panic ''iget: no inodes'')"
      using acq hv full by (simp add: iget_def kmonad)
    ultimately show ?thesis by auto
  qed
qed

text \<open>A state for the witnesses, with an empty inode cache.\<close>

definition inode_demo :: istate where
  "inode_demo = lstate.extend log_demo (istate.fields
     (\<lambda>_. \<lparr>i_dev = 0, i_inum = 0, i_ref = 0, i_busy = False, i_valid = False, i_type = 0, i_major = 0, i_minor = 0, i_nlink = 0,
        i_size = 0, i_addrs = (\<lambda>_. 0)\<rparr>)
     \<lparr>sb_size = 1000, sb_nblocks = 941, sb_ninodes = 200, sb_nlog = 30, sb_logstart = 2, sb_inodestart = 32, sb_bmapstart = 58\<rparr>)"

lemma inode_demo_sel:
  "ic_ok (inodes inode_demo)" "lock_free l inode_demo" "i_ref (inodes inode_demo i) = 0"
  by (simp_all add: inode_demo_def istate.defs lstate.defs log_demo_def bio_demo_def pipe_demo_def pstate.defs bstate.defs
      ic_ok_def lock_free_def)

theorem iget_one_entry_witness:
  "\<exists>i < NINODE. iget 1 5 inode_demo = Ret i (with_inode i (iget_entry (inodes inode_demo) 1 5 i) inode_demo)"
proof -
  have "\<exists>i < NINODE. cached_at (inodes inode_demo) 1 5 i \<or> i_ref (inodes inode_demo i) = 0"
    by (rule exI [of _ 0]) (simp add: inode_demo_sel NINODE_def)
  with iget_one_entry [OF inode_demo_sel(1,2), of 1 5] show ?thesis by auto
qed

end
