(* ===== verification/Devices.thy ===== *)
theory Devices
  imports Kalloc
begin

unbundle bit_operations_syntax

text \<open>
  The interrupt controllers and timers: \<open>picirq.c\<close>, \<open>ioapic.c\<close>, \<open>timer.c\<close> and the routines of \<open>lapic.c\<close> that program
  the local APIC. The code tells a device what to do by a fixed sequence of writes; the model keeps
  the sequence of port writes and the last value of each register. A reading beyond those that are given leaves the code
  waiting for the device, the outcome \<open>Hang\<close>.
\<close>

section \<open>Ports\<close>

definition upd_hw :: "(hardware \<Rightarrow> hardware) \<Rightarrow> ('z kcore_scheme, unit) km" where
  "upd_hw f = kmod (\<lambda>s. s\<lparr>devices := f (devices s)\<rparr>)"

definition the_hw :: "(hardware \<Rightarrow> 'a) \<Rightarrow> ('z kcore_scheme, 'a) km" where
  "the_hw f = kget (\<lambda>s. f (devices s))"

definition outb :: "u16 \<Rightarrow> u8 \<Rightarrow> ('z kcore_scheme, unit) km" where
  "outb port b = upd_hw (\<lambda>h. h\<lparr>ports := (port, b) # ports h\<rparr>)"

definition inb :: "u16 \<Rightarrow> ('z kcore_scheme, u8) km" where
  "inb port = kbind (the_hw (\<lambda>h. portin h port)) (\<lambda>bs. case bs of
     [] \<Rightarrow> khang ''inb''
   | b # rest \<Rightarrow> kdo2 [upd_hw (\<lambda>h. h\<lparr>portin := (portin h)(port := rest)\<rparr>)] (kret b))"

section \<open>Trap numbers\<close>

abbreviation (input) T_IRQ0 :: nat where
  "T_IRQ0 \<equiv> 32"

abbreviation (input) IRQ_TIMER :: nat where
  "IRQ_TIMER \<equiv> 0"

abbreviation (input) IRQ_KBD :: nat where
  "IRQ_KBD \<equiv> 1"

abbreviation (input) IRQ_COM1 :: nat where
  "IRQ_COM1 \<equiv> 4"

abbreviation (input) IRQ_IDE :: nat where
  "IRQ_IDE \<equiv> 14"

abbreviation (input) IRQ_ERROR :: nat where
  "IRQ_ERROR \<equiv> 19"

abbreviation (input) IRQ_SPURIOUS :: nat where
  "IRQ_SPURIOUS \<equiv> 31"

section \<open>The 8259A controllers\<close>

abbreviation (input) IO_PIC1 :: u16 where
  "IO_PIC1 \<equiv> 0x20"

abbreviation (input) IO_PIC2 :: u16 where
  "IO_PIC2 \<equiv> 0xA0"

definition picsetmask :: "u16 \<Rightarrow> ('z kcore_scheme, unit) km" where
  "picsetmask m = kdo [
     upd_hw (\<lambda>h. h\<lparr>irqmask := m\<rparr>),
     outb (IO_PIC1 + 1) (ucast m),
     outb (IO_PIC2 + 1) (ucast (drop_bit 8 m))]"

definition picenable :: "nat \<Rightarrow> ('z kcore_scheme, unit) km" where
  "picenable irq = kbind (the_hw irqmask) (\<lambda>m. picsetmask (m AND NOT (push_bit irq 1)))"

definition picinit :: "('z kcore_scheme, unit) km" where
  "picinit = kdo [
     outb (IO_PIC1 + 1) 0xFF,
     outb (IO_PIC2 + 1) 0xFF,
     outb IO_PIC1 0x11,
     outb (IO_PIC1 + 1) (of_nat T_IRQ0),
     outb (IO_PIC1 + 1) (push_bit IRQ_SLAVE 1),
     outb (IO_PIC1 + 1) 0x3,
     outb IO_PIC2 0x11,
     outb (IO_PIC2 + 1) (of_nat (T_IRQ0 + 8)),
     outb (IO_PIC2 + 1) (of_nat IRQ_SLAVE),
     outb (IO_PIC2 + 1) 0x3,
     outb IO_PIC1 0x68,
     outb IO_PIC1 0x0a,
     outb IO_PIC2 0x68,
     outb IO_PIC2 0x0a,
     kbind (the_hw irqmask) (\<lambda>m. if m \<noteq> 0xFFFF then picsetmask m else kret ())]"

section \<open>The I/O APIC\<close>

text \<open>The register that selects and the one that reads or writes are one access to the selected register.\<close>

abbreviation (input) IOAPIC :: uint where
  "IOAPIC \<equiv> 0xFEC00000"

abbreviation (input) REG_ID :: uint where
  "REG_ID \<equiv> 0"

abbreviation (input) REG_VER :: uint where
  "REG_VER \<equiv> 1"

abbreviation (input) REG_TABLE :: uint where
  "REG_TABLE \<equiv> 0x10"

abbreviation (input) INT_DISABLED :: uint where
  "INT_DISABLED \<equiv> 0x00010000"

definition ioapicread :: "uint \<Rightarrow> ('z kcore_scheme, uint) km" where
  "ioapicread reg = kbind (the_hw ioapic) (\<lambda>p.
     if p = 0 then kfault ''ioapic'' else the_hw (\<lambda>h. ioapic_regs h reg))"

definition ioapicwrite :: "uint \<Rightarrow> uint \<Rightarrow> ('z kcore_scheme, unit) km" where
  "ioapicwrite reg data = kbind (the_hw ioapic) (\<lambda>p.
     if p = 0 then kfault ''ioapic'' else upd_hw (\<lambda>h. h\<lparr>ioapic_regs := (ioapic_regs h)(reg := data)\<rparr>))"

definition ioapicenable :: "nat \<Rightarrow> uint \<Rightarrow> ('z kcore_scheme, unit) km" where
  "ioapicenable irq cpunum = kbind (the_hw ismp) (\<lambda>mp. if \<not> mp then kret () else kdo [
     ioapicwrite (REG_TABLE + 2 * of_nat irq) (of_nat (T_IRQ0 + irq)),
     ioapicwrite (REG_TABLE + 2 * of_nat irq + 1) (push_bit 24 cpunum)])"

section \<open>The timer of a machine with one CPU\<close>

abbreviation (input) IO_TIMER1 :: u16 where
  "IO_TIMER1 \<equiv> 0x40"

abbreviation (input) TIMER_FREQ :: nat where
  "TIMER_FREQ \<equiv> 1193182"

definition TIMER_DIV :: "nat \<Rightarrow> nat" where
  "TIMER_DIV x = (TIMER_FREQ + x div 2) div x"

definition timerinit :: "('z kcore_scheme, unit) km" where
  "timerinit = kdo [
     outb (IO_TIMER1 + 3) (0x00 OR 0x04 OR 0x30),
     outb IO_TIMER1 (of_nat (TIMER_DIV 100 mod 256)),
     outb IO_TIMER1 (of_nat (TIMER_DIV 100 div 256)),
     picenable IRQ_TIMER]"

section \<open>The local APIC\<close>

text \<open>The indices of the registers, and the bits written to them.\<close>

abbreviation (input) LAPIC_VER :: uint where
  "LAPIC_VER \<equiv> 0x0030 div 4"

abbreviation (input) TPR :: uint where
  "TPR \<equiv> 0x0080 div 4"

abbreviation (input) EOI :: uint where
  "EOI \<equiv> 0x00B0 div 4"

abbreviation (input) SVR :: uint where
  "SVR \<equiv> 0x00F0 div 4"

abbreviation (input) ENABLE :: uint where
  "ENABLE \<equiv> 0x00000100"

abbreviation (input) ESR :: uint where
  "ESR \<equiv> 0x0280 div 4"

abbreviation (input) ICRLO :: uint where
  "ICRLO \<equiv> 0x0300 div 4"

abbreviation (input) INIT :: uint where
  "INIT \<equiv> 0x00000500"

abbreviation (input) STARTUP :: uint where
  "STARTUP \<equiv> 0x00000600"

abbreviation (input) DELIVS :: uint where
  "DELIVS \<equiv> 0x00001000"

abbreviation (input) ASSERT :: uint where
  "ASSERT \<equiv> 0x00004000"

abbreviation (input) LEVEL :: uint where
  "LEVEL \<equiv> 0x00008000"

abbreviation (input) BCAST :: uint where
  "BCAST \<equiv> 0x00080000"

abbreviation (input) ICRHI :: uint where
  "ICRHI \<equiv> 0x0310 div 4"

abbreviation (input) TIMER :: uint where
  "TIMER \<equiv> 0x0320 div 4"

abbreviation (input) X1 :: uint where
  "X1 \<equiv> 0x0000000B"

abbreviation (input) PERIODIC :: uint where
  "PERIODIC \<equiv> 0x00020000"

abbreviation (input) PCINT :: uint where
  "PCINT \<equiv> 0x0340 div 4"

abbreviation (input) LINT0 :: uint where
  "LINT0 \<equiv> 0x0350 div 4"

abbreviation (input) LINT1 :: uint where
  "LINT1 \<equiv> 0x0360 div 4"

abbreviation (input) ERROR :: uint where
  "ERROR \<equiv> 0x0370 div 4"

abbreviation (input) MASKED :: uint where
  "MASKED \<equiv> 0x00010000"

abbreviation (input) TICR :: uint where
  "TICR \<equiv> 0x0380 div 4"

abbreviation (input) TDCR :: uint where
  "TDCR \<equiv> 0x03E0 div 4"

definition lapicw :: "uint \<Rightarrow> uint \<Rightarrow> ('z kcore_scheme, unit) km" where
  "lapicw i v = kbind (the_hw lapic) (\<lambda>p. if p = 0 then kfault ''lapic''
     else kbind (kget cpuid) (\<lambda>c. upd_hw (\<lambda>h. h\<lparr>lapic_regs := (lapic_regs h)(c := (lapic_regs h c)(i := v))\<rparr>)))"

text \<open>Reading a register that the device changes by itself.\<close>

definition lapicr :: "uint \<Rightarrow> ('z kcore_scheme, uint) km" where
  "lapicr i = kbind (the_hw (\<lambda>h. lapic_in h i)) (\<lambda>vs. case vs of
     [] \<Rightarrow> khang ''lapic''
   | v # rest \<Rightarrow> kdo2 [upd_hw (\<lambda>h. h\<lparr>lapic_in := (lapic_in h)(i := rest)\<rparr>)] (kret v))"

text \<open>The wait until the device has delivered: as many rounds as there are readings.\<close>

fun delivs_loop :: "uint list \<Rightarrow> ('z kcore_scheme, unit) km" where
  "delivs_loop [] = khang ''lapic''"
| "delivs_loop (_ # vs) = kbind (lapicr ICRLO) (\<lambda>v. if v AND DELIVS \<noteq> 0 then delivs_loop vs else kret ())"

definition lapicinit :: "('z kcore_scheme, unit) km" where
  "lapicinit = kbind (the_hw lapic) (\<lambda>p. if p = 0 then kret () else kdo [
     lapicw SVR (ENABLE OR of_nat (T_IRQ0 + IRQ_SPURIOUS)),
     lapicw TDCR X1,
     lapicw TIMER (PERIODIC OR of_nat (T_IRQ0 + IRQ_TIMER)),
     lapicw TICR 10000000,
     lapicw LINT0 MASKED,
     lapicw LINT1 MASKED,
     kbind (lapicr LAPIC_VER) (\<lambda>v. if drop_bit 16 v AND 0xFF \<ge> 4 then lapicw PCINT MASKED else kret ()),
     lapicw ERROR (of_nat (T_IRQ0 + IRQ_ERROR)),
     lapicw ESR 0,
     lapicw ESR 0,
     lapicw EOI 0,
     lapicw ICRHI 0,
     lapicw ICRLO (BCAST OR INIT OR LEVEL),
     kbind (the_hw (\<lambda>h. lapic_in h ICRLO)) delivs_loop,
     lapicw TPR 0])"

text \<open>
  \<open>cpunum\<close>: the ID register of the local APIC is the number of the CPU. The warning for a call with interrupts
  enabled is left out; the callers run with interrupts off.
\<close>

definition cpunum :: "('z kcore_scheme, nat) km" where
  "cpunum = kbind (the_hw lapic) (\<lambda>p. if p \<noteq> 0 then kget cpuid else kret 0)"

definition lapiceoi :: "('z kcore_scheme, unit) km" where
  "lapiceoi = kbind (the_hw lapic) (\<lambda>p. if p \<noteq> 0 then lapicw EOI 0 else kret ())"

abbreviation (input) CMOS_PORT :: u16 where
  "CMOS_PORT \<equiv> 0x70"

definition store16 :: "bmem \<Rightarrow> uint \<Rightarrow> u16 \<Rightarrow> bmem" where
  "store16 m a v = m(a := ucast v, a + 1 := ucast (drop_bit 8 v))"

definition startup_ipi :: "u8 \<Rightarrow> uint \<Rightarrow> ('z kcore_scheme, unit) km" where
  "startup_ipi apicid addr = kdo [
     lapicw ICRHI (push_bit 24 (ucast apicid)),
     lapicw ICRLO (STARTUP OR drop_bit 12 addr)]"

definition lapicstartap :: "u8 \<Rightarrow> uint \<Rightarrow> ('z kmem_scheme, unit) km" where
  "lapicstartap apicid addr = kdo [
     outb CMOS_PORT 0xF,
     outb (CMOS_PORT + 1) 0x0A,
     kmod (\<lambda>s. s\<lparr>mem := store16 (mem s) (p2v (push_bit 4 0x40 OR 0x67)) 0\<rparr>),
     kmod (\<lambda>s. s\<lparr>mem := store16 (mem s) (p2v (push_bit 4 0x40 OR 0x67) + 2) (ucast (drop_bit 4 addr))\<rparr>),
     lapicw ICRHI (push_bit 24 (ucast apicid)),
     lapicw ICRLO (INIT OR LEVEL OR ASSERT),
     lapicw ICRLO (INIT OR LEVEL),
     startup_ipi apicid addr,
     startup_ipi apicid addr]"

end
