(* ===== verification/Console.thy ===== *)
theory Console
  imports Inode Devices
begin

text \<open>
  The console (\<open>console.c\<close>) with the serial port (\<open>uart.c\<close>) and the keyboard (\<open>kbd.c\<close>, \<open>kbd.h\<close>), and
  \<open>procdump\<close> of \<open>proc.c\<close>, which it calls. The screen is the array of the CGA memory with the position in the cursor
  registers; \<open>serial\<close> collects the bytes sent to the serial port. The function pointers of \<open>devsw\<close> are
  names of the functions that are stored there. \<open>consoleintr\<close> takes the results of its \<open>getc\<close> as a list.
  The functions that lock an inode end in the state in which they sleep when the inode is locked.
\<close>

unbundle bit_operations_syntax

section \<open>Output\<close>

datatype devfn = Consoleread | Consolewrite

record cstate = istate +
  panicked :: bool
  cons_locking :: bool
  crt :: "nat \<Rightarrow> u16"
  crt_pos :: nat
  uart :: bool
  serial :: "u8 list"
  input_buf :: "nat \<Rightarrow> u8"
  input_r :: uint
  input_w :: uint
  input_e :: uint
  devsw_read :: "nat \<Rightarrow> devfn option"
  devsw_write :: "nat \<Rightarrow> devfn option"

text \<open>\<open>uartputc\<close>: the wait for the transmitter, at most 128 polls, has no effect on the state.\<close>

definition uartputc :: "nat \<Rightarrow> ('z cstate_scheme, unit) km" where
  "uartputc c = kbind (kget uart) (\<lambda>u. if \<not> u then kret () else kmod (\<lambda>s. s\<lparr>serial := serial s @ [of_nat c]\<rparr>))"

abbreviation (input) COM1 :: u16 where
  "COM1 \<equiv> 0x3f8"

definition uartinit :: "('z cstate_scheme, unit) km" where
  "uartinit = kdo [
     outb (COM1 + 2) 0,
     outb (COM1 + 3) 0x80,
     outb COM1 (115200 div 9600),
     outb (COM1 + 1) 0,
     outb (COM1 + 3) 0x03,
     outb (COM1 + 4) 0,
     outb (COM1 + 1) 0x01,
     kbind (inb (COM1 + 5)) (\<lambda>status. if status = 0xFF then kret () else kdo [
       kmod (\<lambda>s. s\<lparr>uart := True\<rparr>),
       kbind (inb (COM1 + 2)) (\<lambda>_. kret ()),
       kbind (inb COM1) (\<lambda>_. kret ()),
       picenable IRQ_COM1,
       ioapicenable IRQ_COM1 0,
       kfor (''xv6...'' @ nl) (\<lambda>c. uartputc (of_char c))])]"

definition BACKSPACE :: nat where
  "BACKSPACE = 256"

definition put_crt :: "nat \<Rightarrow> u16 \<Rightarrow> ('z cstate_scheme, unit) km" where
  "put_crt i w = kmod (\<lambda>s. s\<lparr>crt := (crt s)(i := w)\<rparr>)"

text \<open>The two moves of a scroll: \<open>memmove(crt, crt+80, 23*80 words)\<close> and \<open>memset(crt+pos, 0, 24*80 - pos words)\<close>.\<close>

definition scroll_up :: "(nat \<Rightarrow> u16) \<Rightarrow> nat \<Rightarrow> nat \<Rightarrow> u16" where
  "scroll_up m pos i = (if pos \<le> i \<and> i < 24 * 80 then 0 else if i < 23 * 80 then m (i + 80) else m i)"

definition cgaputc :: "nat \<Rightarrow> ('z cstate_scheme, unit) km" where
  "cgaputc c = kbind (kget crt_pos) (\<lambda>pos.
     kbind (if c = 10 then kret (pos + (80 - pos mod 80))
            else if c = BACKSPACE then kret (if pos > 0 then pos - 1 else pos)
            else kdo2 [put_crt pos (of_nat (c mod 256) OR 0x0700)] (kret (pos + 1))) (\<lambda>pos.
     if pos > 25 * 80 then kpanic ''pos under/overflow''
     else kbind (if pos div 80 \<ge> 24 then kdo2 [kmod (\<lambda>s. s\<lparr>crt := scroll_up (crt s) (pos - 80)\<rparr>)] (kret (pos - 80)) else kret pos) (\<lambda>pos.
     kdo [kmod (\<lambda>s. s\<lparr>crt_pos := pos mod 65536\<rparr>), put_crt pos (0x20 OR 0x0700)])))"

definition consputc :: "nat \<Rightarrow> ('z cstate_scheme, unit) km" where
  "consputc c = kbind (kget panicked) (\<lambda>p. if p then khang ''panicked'' else kdo [
     (if c = BACKSPACE then kdo [uartputc 8, uartputc 32, uartputc 8] else uartputc c),
     cgaputc c])"

text \<open>\<open>printint\<close>: the digits in the order in which they are stored in \<open>buf\<close>, least significant first.\<close>

definition digit :: "nat \<Rightarrow> char" where
  "digit n = ''0123456789abcdef'' ! n"

fun int_digits :: "nat \<Rightarrow> nat \<Rightarrow> string" where
  "int_digits base x = (if base < 2 \<or> x < base then [digit (x mod base)] else digit (x mod base) # int_digits base (x div base))"

definition int_buf :: "uint \<Rightarrow> nat \<Rightarrow> bool \<Rightarrow> string" where
  "int_buf xx base sign = (let neg = sign \<and> sint xx < 0 in
     int_digits base (unat (if neg then - xx else xx)) @ (if neg then ''-'' else []))"

definition printint :: "uint \<Rightarrow> nat \<Rightarrow> bool \<Rightarrow> ('z cstate_scheme, unit) km" where
  "printint xx base sign = kfor (rev (int_buf xx base sign)) (\<lambda>c. consputc (of_char c))"

datatype parg = PInt uint | PStr "string option"

fun cprintf_loop :: "string \<Rightarrow> parg list \<Rightarrow> ('z cstate_scheme, unit) km" where
  "cprintf_loop [] as = kret ()"
| "cprintf_loop (c # cs) as = (if c \<noteq> CHR ''%'' then kthen (consputc (of_char c)) (cprintf_loop cs as)
     else case cs of [] \<Rightarrow> kret ()
     | d # ds \<Rightarrow>
       if d = CHR ''d'' then (case as of PInt w # as \<Rightarrow> kthen (printint w 10 True) (cprintf_loop ds as) | _ \<Rightarrow> kfault ''cprintf'')
       else if d = CHR ''x'' \<or> d = CHR ''p'' then
         (case as of PInt w # as \<Rightarrow> kthen (printint w 16 False) (cprintf_loop ds as) | _ \<Rightarrow> kfault ''cprintf'')
       else if d = CHR ''s'' then (case as of
           PStr s # as \<Rightarrow> kthen (kfor (case s of None \<Rightarrow> ''(null)'' | Some x \<Rightarrow> x) (\<lambda>c. consputc (of_char c))) (cprintf_loop ds as)
         | _ \<Rightarrow> kfault ''cprintf'')
       else if d = CHR ''%'' then kthen (consputc (of_char d)) (cprintf_loop ds as)
       else kthen (consputc 37) (kthen (consputc (of_char d)) (cprintf_loop ds as)))"

definition cprintf :: "string \<Rightarrow> parg list \<Rightarrow> ('z cstate_scheme, unit) km" where
  "cprintf fmt as = kbind (kget cons_locking) (\<lambda>locking. kdo [
     (if locking then acquire_lk ConsLock else kret ()),
     cprintf_loop fmt as,
     (if locking then release_lk ConsLock else kret ())])"

section \<open>The process listing\<close>

fun state_name :: "procstate \<Rightarrow> string" where
  "state_name UNUSED = ''unused''"
| "state_name EMBRYO = ''embryo''"
| "state_name SLEEPING = ''sleep ''"
| "state_name RUNNABLE = ''runble''"
| "state_name RUNNING = ''run   ''"
| "state_name ZOMBIE = ''zombie''"

definition chars :: "u8 list \<Rightarrow> string" where
  "chars bs = map (\<lambda>b. char_of (unat b)) (takeWhile (\<lambda>b. b \<noteq> 0) bs)"

definition procdump_one :: "nat \<Rightarrow> ('z cstate_scheme, unit) km" where
  "procdump_one i = kbind (the_proc i id) (\<lambda>p. if p_state p = UNUSED then kret () else kdo [
     cprintf ''%d %d %d %d %s %s'' [PInt (of_int (p_pid p)), PInt (of_int (p_priority p)), PInt (of_int (p_uid p)),
       PInt (of_int (p_gid p)), PStr (Some (state_name (p_state p))), PStr (Some (chars (p_name p)))],
     (if p_state p = SLEEPING then kbind (kget (\<lambda>s. getcallerpcs (load32 (mem s)) (cx_ebp (p_context p) + 8))) (\<lambda>pcs.
        kfor (takeWhile (\<lambda>pc. pc \<noteq> 0) pcs) (\<lambda>pc. cprintf '' %p'' [PInt pc])) else kret ()),
     cprintf nl []])"

definition procdump :: "('z cstate_scheme, unit) km" where
  "procdump = kfor [0..<NPROC] procdump_one"

section \<open>The keyboard\<close>

text \<open>The tables of \<open>kbd.h\<close>: the rows given in full, then the entries given by index.\<close>

definition codes :: "string \<Rightarrow> u8 list" where
  "codes cs = map (\<lambda>c. of_nat (of_char c)) cs"

definition ctl_codes :: "string \<Rightarrow> u8 list" where
  "ctl_codes cs = map (\<lambda>c. c - 64) (codes cs)"

definition keypad :: "u8 \<Rightarrow> u8 \<Rightarrow> (nat \<times> u8) list" where
  "keypad enter dv = [(0x9C, enter), (0xB5, dv), (0xC8, 0xE2), (0xD0, 0xE3), (0xC9, 0xE6), (0xD1, 0xE7), (0xCB, 0xE4),
     (0xCD, 0xE5), (0x97, 0xE0), (0xCF, 0xE1), (0xD2, 0xE8), (0xD3, 0xE9)]"

definition table256 :: "u8 list \<Rightarrow> (nat \<times> u8) list \<Rightarrow> u8 \<Rightarrow> u8" where
  "table256 rows ixs i = (case map_of ixs (unat i) of Some c \<Rightarrow> c | None \<Rightarrow> if unat i < length rows then rows ! unat i else 0)"

definition normalmap :: "u8 \<Rightarrow> u8" where
  "normalmap = table256 ([0, 0x1B] @ codes ''1234567890-='' @ [8, 9] @ codes ''qwertyuiop[]'' @ [10, 0] @ codes ''asdfghjkl;''
     @ [39] @ codes ''`'' @ [0, 92] @ codes ''zxcvbnm,./'' @ [0] @ codes ''*'' @ [0] @ codes '' '' @ replicate 13 0
     @ codes ''789-456+1230.'') (keypad 10 47)"

definition shiftmap :: "u8 \<Rightarrow> u8" where
  "shiftmap = table256 ([0, 27] @ codes ''!@#$%^&*()_+'' @ [8, 9] @ codes ''QWERTYUIOP{}'' @ [10, 0] @ codes ''ASDFGHJKL:''
     @ [34] @ codes ''~'' @ [0] @ codes ''|ZXCVBNM<>?'' @ [0] @ codes ''*'' @ [0] @ codes '' '' @ replicate 13 0
     @ codes ''789-456+1230.'') (keypad 10 47)"

definition ctlmap :: "u8 \<Rightarrow> u8" where
  "ctlmap = table256 (replicate 16 0 @ ctl_codes ''QWERTYUIOP'' @ [0, 0, 13, 0] @ ctl_codes ''ASDFGHJKL'' @ [0, 0, 0, 0]
     @ [28] @ ctl_codes ''ZXCVBNM'' @ [0, 0, 239, 0, 0]) (keypad 13 239)"

definition shiftcode :: "u8 \<Rightarrow> u8" where
  "shiftcode = table256 [] [(0x1D, 2), (0x2A, 1), (0x36, 1), (0x38, 4), (0x9D, 2), (0xB8, 4)]"

definition togglecode :: "u8 \<Rightarrow> u8" where
  "togglecode = table256 [] [(0x3A, 8), (0x45, 16), (0x46, 32)]"

definition E0ESC :: uint where
  "E0ESC = 64"

text \<open>\<open>kbdgetc\<close> on the static variable \<open>shift\<close> and the byte in the controller, if there is one.\<close>

definition kbdgetc :: "uint \<Rightarrow> u8 option \<Rightarrow> uint \<times> int" where
  "kbdgetc shift st = (case st of None \<Rightarrow> (shift, - 1)
   | Some data \<Rightarrow>
     if data = 0xE0 then (shift OR E0ESC, 0)
     else if data AND 0x80 \<noteq> 0 then
       let data = (if shift AND E0ESC \<noteq> 0 then data else data AND 0x7F) in
       (shift AND NOT (ucast (shiftcode data) OR E0ESC), 0)
     else
       let esc = (shift AND E0ESC \<noteq> 0);
           data = (if esc then data OR 0x80 else data);
           shift = (if esc then shift AND NOT E0ESC else shift);
           shift = (shift OR ucast (shiftcode data)) XOR ucast (togglecode data);
           m = shift AND 3;
           c = (if m = 0 then normalmap data else if m = 1 then shiftmap data else ctlmap data);
           c = (if shift AND 8 \<noteq> 0 then
                  if 97 \<le> c \<and> c \<le> 122 then c - 32 else if 65 \<le> c \<and> c \<le> 90 then c + 32 else c
                else c)
       in (shift, int (unat c)))"

text \<open>The characters \<open>kbdgetc\<close> gives \<open>consoleintr\<close> for the bytes waiting in the controller.\<close>

fun kbd_chars :: "uint \<Rightarrow> u8 list \<Rightarrow> uint \<times> nat list" where
  "kbd_chars shift [] = (shift, [])"
| "kbd_chars shift (d # ds) = (let (shift, c) = kbdgetc shift (Some d); (shift, cs) = kbd_chars shift ds in (shift, nat c # cs))"

section \<open>Input\<close>

definition INPUT_BUF :: nat where
  "INPUT_BUF = 128"

definition put_input :: "uint \<Rightarrow> u8 \<Rightarrow> ('z cstate_scheme, unit) km" where
  "put_input i c = kmod (\<lambda>s. s\<lparr>input_buf := (input_buf s)(unat i mod INPUT_BUF := c)\<rparr>)"

text \<open>The loop of control-U: \<open>k\<close> is the number of bytes between the write and the edit index.\<close>

fun kill_line :: "nat \<Rightarrow> ('z cstate_scheme, unit) km" where
  "kill_line 0 = kret ()"
| "kill_line (Suc k) = kbind (kget (\<lambda>s. (input_e s, input_w s, input_buf s))) (\<lambda>(e, w, buf).
     if e \<noteq> w \<and> buf (unat (e - 1) mod INPUT_BUF) \<noteq> 10 then
       kthen (kmod (\<lambda>s. s\<lparr>input_e := input_e s - 1\<rparr>)) (kthen (consputc BACKSPACE) (kill_line k))
     else kret ())"

text \<open>One character of \<open>consoleintr\<close>; the result says whether a process listing was asked for.\<close>

definition consoleintr_char :: "nat \<Rightarrow> ('z cstate_scheme, bool) km" where
  "consoleintr_char c = (
     if c = 16 then kret True
     else if c = 21 then kbind (kget (\<lambda>s. unat (input_e s - input_w s))) (\<lambda>k. kdo2 [kill_line k] (kret False))
     else if c = 8 \<or> c = 127 then kbind (kget (\<lambda>s. (input_e s, input_w s))) (\<lambda>(e, w).
       if e \<noteq> w then kdo2 [kmod (\<lambda>s. s\<lparr>input_e := input_e s - 1\<rparr>), consputc BACKSPACE] (kret False) else kret False)
     else kbind (kget (\<lambda>s. (input_e s, input_r s))) (\<lambda>(e, r).
       if c \<noteq> 0 \<and> e - r < of_nat INPUT_BUF then
         let c = (if c = 13 then 10 else c) in kdo2 [
           put_input e (of_nat c),
           kmod (\<lambda>s. s\<lparr>input_e := input_e s + 1\<rparr>),
           consputc c,
           (if c = 10 \<or> c = 4 \<or> e + 1 = r + of_nat INPUT_BUF then
              kdo [kmod (\<lambda>s. s\<lparr>input_w := input_e s\<rparr>), wakeup InputChan] else kret ())] (kret False)
       else kret False))"

fun consoleintr_loop :: "nat list \<Rightarrow> bool \<Rightarrow> ('z cstate_scheme, bool) km" where
  "consoleintr_loop [] dump = kret dump"
| "consoleintr_loop (c # cs) dump = kbind (consoleintr_char c) (\<lambda>d. consoleintr_loop cs (dump \<or> d))"

definition consoleintr :: "nat list \<Rightarrow> ('z cstate_scheme, unit) km" where
  "consoleintr cs = kthen (acquire_lk ConsLock) (kbind (consoleintr_loop cs False) (\<lambda>dump.
     kdo [release_lk ConsLock, (if dump then procdump else kret ())]))"

definition kbdintr :: "uint \<Rightarrow> u8 list \<Rightarrow> ('z cstate_scheme, uint) km" where
  "kbdintr shift ds = (let (shift, cs) = kbd_chars shift ds in kdo2 [consoleintr cs] (kret shift))"

text \<open>\<open>uartgetc\<close>, given the byte the port has received, if any.\<close>

definition uartgetc :: "u8 option \<Rightarrow> ('z cstate_scheme, int) km" where
  "uartgetc rx = kbind (kget uart) (\<lambda>u. kret (if \<not> u then - 1 else case rx of None \<Rightarrow> - 1 | Some b \<Rightarrow> int (unat b)))"

definition uartintr :: "u8 list \<Rightarrow> ('z cstate_scheme, unit) km" where
  "uartintr bs = kbind (kget uart) (\<lambda>u. consoleintr (if u then map unat bs else []))"

definition consoleread_end :: "nat \<Rightarrow> nat \<Rightarrow> uint \<Rightarrow> u8 list \<Rightarrow> ('z cstate_scheme, int \<times> u8 list) km" where
  "consoleread_end ip n target dst = kdo2 [release_lk ConsLock, ilock ip] (kret (sint (target - of_nat n), dst))"

fun consoleread_loop :: "nat \<Rightarrow> nat \<Rightarrow> uint \<Rightarrow> u8 list \<Rightarrow> ('z cstate_scheme, int \<times> u8 list) km" where
  "consoleread_loop ip 0 target dst = consoleread_end ip 0 target dst"
| "consoleread_loop ip (Suc n) target dst = kbind (kget (\<lambda>s. (input_r s, input_w s, input_buf s))) (\<lambda>(r, w, buf).
     if r = w then kbind cur_killed (\<lambda>k.
       if k then kdo2 [release_lk ConsLock, ilock ip] (kret (- 1, dst))
       else kdo2 [sleep InputChan (Some ConsLock)] (kret (0, dst)))
     else let c = buf (unat r mod INPUT_BUF) in
       kthen (kmod (\<lambda>s. s\<lparr>input_r := r + 1\<rparr>))
         (if c = 4 then
            kthen (if of_nat (Suc n) < target then kmod (\<lambda>s. s\<lparr>input_r := input_r s - 1\<rparr>) else kret ())
              (consoleread_end ip (Suc n) target dst)
          else if c = 10 then consoleread_end ip n target (dst @ [c])
          else consoleread_loop ip n target (dst @ [c])))"

definition consoleread :: "nat \<Rightarrow> int \<Rightarrow> ('z cstate_scheme, int \<times> u8 list) km" where
  "consoleread ip n = kthen (iunlock ip) (kthen (acquire_lk ConsLock)
     (if n > 0 then consoleread_loop ip (nat n) (of_int n) [] else consoleread_end ip 0 0 []))"

definition consoleread_resume :: "nat \<Rightarrow> nat \<Rightarrow> uint \<Rightarrow> u8 list \<Rightarrow> ('z cstate_scheme, int \<times> u8 list) km" where
  "consoleread_resume ip n target dst = kthen (sleep_tail ConsLock) (consoleread_loop ip n target dst)"

definition consolewrite :: "nat \<Rightarrow> u8 list \<Rightarrow> int \<Rightarrow> ('z cstate_scheme, int) km" where
  "consolewrite ip buf n = kdo2 [
     iunlock ip,
     acquire_lk ConsLock,
     kfor [0..<nat n] (\<lambda>i. consputc (unat (buf ! i))),
     release_lk ConsLock,
     ilock ip] (kret n)"

definition CONSOLE :: nat where
  "CONSOLE = 1"

definition consoleinit :: "('z cstate_scheme, unit) km" where
  "consoleinit = kdo [
     kmod (\<lambda>s. s\<lparr>owner := (owner s)(ConsLock := None)\<rparr>),
     kmod (\<lambda>s. s\<lparr>devsw_write := (devsw_write s)(CONSOLE := Some Consolewrite)\<rparr>),
     kmod (\<lambda>s. s\<lparr>devsw_read := (devsw_read s)(CONSOLE := Some Consoleread)\<rparr>),
     kmod (\<lambda>s. s\<lparr>cons_locking := True\<rparr>),
     picenable IRQ_KBD,
     ioapicenable IRQ_KBD 0]"

section \<open>Properties\<close>

lemma cga_newline: "(pos :: nat) < 1920 \<Longrightarrow> pos < pos + (80 - pos mod 80) \<and> pos + (80 - pos mod 80) \<le> 1920"
proof -
  assume "pos < 1920"
  then have "pos div 80 < 24" by simp
  have m: "pos mod 80 < 80" by simp
  define q r where "q = pos div 80" and "r = pos mod 80"
  have "pos = 80 * q + r" "q < 24" "r < 80" using \<open>pos div 80 < 24\<close> m by (simp_all add: q_def r_def)
  then show ?thesis unfolding r_def [symmetric] by simp
qed

text \<open>Output changes the screen and the serial port only.\<close>

definition con_frame :: "'z cstate_scheme \<Rightarrow> 'z cstate_scheme \<Rightarrow> bool" where
  "con_frame s s' \<longleftrightarrow> (\<exists>C P S. s' = s\<lparr>crt := C, crt_pos := P, serial := S\<rparr>)"

definition con_ok :: "'z cstate_scheme \<Rightarrow> bool" where
  "con_ok s \<longleftrightarrow> \<not> panicked s \<and> crt_pos s < 24 * 80"

lemma con_frame_refl: "con_frame s s"
proof -
  have "s = s\<lparr>crt := crt s, crt_pos := crt_pos s, serial := serial s\<rparr>" by simp
  then show ?thesis unfolding con_frame_def by blast
qed

lemma con_frame_trans: "con_frame s t \<Longrightarrow> con_frame t u \<Longrightarrow> con_frame s u"
  unfolding con_frame_def by force

lemma con_frame_sel:
  assumes "con_frame s s'"
  shows "mem s' = mem s" "devices s' = devices s" "owner s' = owner s" "ncli s' = ncli s" "cpuid s' = cpuid s"
    "cons_locking s' = cons_locking s" "panicked s' = panicked s"
  using assms by (auto simp: con_frame_def)

lemma con_frame_step:
  assumes "con_frame s t"
  shows "con_frame s (t\<lparr>crt := C\<rparr>)" "con_frame s (t\<lparr>crt_pos := P\<rparr>)"
proof -
  obtain C' P' S where "t = s\<lparr>crt := C', crt_pos := P', serial := S\<rparr>" using assms unfolding con_frame_def by blast
  then have "t\<lparr>crt := C\<rparr> = s\<lparr>crt := C, crt_pos := P', serial := S\<rparr>" "t\<lparr>crt_pos := P\<rparr> = s\<lparr>crt := C', crt_pos := P, serial := S\<rparr>"
    by simp_all
  then show "con_frame s (t\<lparr>crt := C\<rparr>)" "con_frame s (t\<lparr>crt_pos := P\<rparr>)" unfolding con_frame_def by blast+
qed

lemma cgaputc_frame: "cgaputc c s = Ret () s' \<Longrightarrow> con_frame s s'"
  by (auto simp: cgaputc_def kinv put_crt_def con_frame_refl kpanic_def split: if_splits intro!: con_frame_step)

lemma cgaputc_run:
  assumes "crt_pos s < 24 * 80"
  shows "\<exists>s'. cgaputc c s = Ret () s' \<and> crt_pos s' < 24 * 80 \<and> (\<forall>i. 24 * 80 \<le> i \<longrightarrow> crt s' i = crt s i)"
proof -
  have p: "crt_pos s < 1920" using assms by simp
  consider "c = 10" | "c = BACKSPACE" | "c \<noteq> 10" "c \<noteq> BACKSPACE" by blast
  then show ?thesis
  proof cases
    case 1
    then show ?thesis using cga_newline [OF p]
      by (auto simp: cgaputc_def kmonad put_crt_def scroll_up_def)
  next
    case 2
    then show ?thesis using p by (auto simp: cgaputc_def kmonad put_crt_def scroll_up_def BACKSPACE_def)
  next
    case 3
    then show ?thesis using p by (auto simp: cgaputc_def kmonad put_crt_def scroll_up_def)
  qed
qed

lemma uartputc_run: "\<exists>s'. uartputc c s = Ret () s' \<and> con_frame s s' \<and> crt_pos s' = crt_pos s"
proof (cases "uart s")
  case True
  have "s\<lparr>serial := serial s @ [of_nat c]\<rparr> = s\<lparr>crt := crt s, crt_pos := crt_pos s, serial := serial s @ [of_nat c]\<rparr>" by simp
  then have "con_frame s (s\<lparr>serial := serial s @ [of_nat c]\<rparr>)" unfolding con_frame_def by blast
  with True show ?thesis by (simp add: uartputc_def kmonad)
qed (simp add: uartputc_def kmonad con_frame_refl)

lemma consputc_run:
  assumes "con_ok s"
  shows "\<exists>s'. consputc c s = Ret () s' \<and> con_ok s' \<and> con_frame s s'"
proof -
  obtain t where t: "(if c = BACKSPACE then kdo [uartputc 8, uartputc 32, uartputc 8] else uartputc c) s = Ret () t"
    "con_frame s t" "crt_pos t = crt_pos s"
  proof (cases "c = BACKSPACE")
    case True
    obtain s1 where s1: "uartputc 8 s = Ret () s1" "con_frame s s1" "crt_pos s1 = crt_pos s" using uartputc_run [of 8 s] by blast
    obtain s2 where s2: "uartputc 32 s1 = Ret () s2" "con_frame s1 s2" "crt_pos s2 = crt_pos s1" using uartputc_run [of 32 s1] by blast
    obtain s3 where s3: "uartputc 8 s2 = Ret () s3" "con_frame s2 s3" "crt_pos s3 = crt_pos s2" using uartputc_run [of 8 s2] by blast
    show thesis
      by (rule that [of s3]) (use True s1 s2 s3 in \<open>auto simp: kmonad intro: con_frame_trans\<close>)
  next
    case False
    then show thesis using uartputc_run [of c s] that by auto
  qed
  obtain s' where s': "cgaputc c t = Ret () s'" "crt_pos s' < 24 * 80" "con_frame t s'"
    using cgaputc_run [of t c] cgaputc_frame [of c t] t(3) assms by (auto simp: con_ok_def)
  have "consputc c s = Ret () s'" using assms t(1) s'(1)
    by (cases "c = BACKSPACE") (auto simp: consputc_def kmonad con_ok_def kthen_eq_Ret)
  then show ?thesis using s' t(2) con_frame_trans con_frame_sel(7) assms by (metis con_ok_def)
qed

lemma consputs_run:
  "con_ok s \<Longrightarrow> \<exists>s'. kfor cs (\<lambda>c. consputc (of_char c)) s = Ret () s' \<and> con_ok s' \<and> con_frame s s'"
proof (induction cs arbitrary: s)
  case (Cons c cs)
  obtain t where t: "consputc (of_char c) s = Ret () t" "con_ok t" "con_frame s t" using consputc_run [OF Cons.prems] by blast
  from Cons.IH [OF t(2)] t show ?case by (auto simp: kmonad intro: con_frame_trans)
qed (simp add: kmonad con_frame_refl)

text \<open>Code that writes to the console and returns. For a given format it follows by unfolding \<open>cprintf_loop\<close>.\<close>

definition con_runs :: "('z cstate_scheme, unit) km \<Rightarrow> bool" where
  "con_runs m \<longleftrightarrow> (\<forall>s. con_ok s \<longrightarrow> (\<exists>s'. m s = Ret () s' \<and> con_ok s' \<and> con_frame s s'))"

lemma con_runs_then:
  fixes m n :: "('z cstate_scheme, unit) km"
  assumes "con_runs m" "con_runs n"
  shows "con_runs (kthen m n)"
  unfolding con_runs_def
proof (intro allI impI)
  fix s :: "'z cstate_scheme"
  assume "con_ok s"
  with assms(1) obtain t where t: "m s = Ret () t" "con_ok t" "con_frame s t" unfolding con_runs_def by blast
  with assms(2) obtain u where "n t = Ret () u" "con_ok u" "con_frame t u" unfolding con_runs_def by blast
  with t show "\<exists>s'. kthen m n s = Ret () s' \<and> con_ok s' \<and> con_frame s s'" by (auto simp: kmonad intro: con_frame_trans)
qed

lemma con_runs_basic:
  "con_runs (kret ())" "con_runs (consputc c)" "con_runs (kfor cs (\<lambda>c. consputc (of_char c)))" "con_runs (printint w base sign)"
  using consputc_run consputs_run by (auto simp: con_runs_def kmonad con_frame_refl printint_def)

lemma cprintf_run:
  assumes "con_ok s" "\<not> cons_locking s" "con_runs (cprintf_loop fmt as :: ('z cstate_scheme, unit) km)"
  shows "\<exists>s'. cprintf fmt as (s :: 'z cstate_scheme) = Ret () s' \<and> con_ok s' \<and> con_frame s s'"
  using assms by (auto simp: con_runs_def cprintf_def kmonad)

text \<open>The cursor stays on the screen: from a position on the 24 rows that scroll, \<open>cgaputc\<close> of any character
  returns without its panic, leaves the cursor on these rows and does not write outside their 24 * 80 cells.\<close>

theorem cgaputc_stays_on_screen:
  assumes "crt_pos s < 24 * 80"
  shows "\<exists>s'. cgaputc c s = Ret () s' \<and> crt_pos s' < 24 * 80 \<and> (\<forall>i. 24 * 80 \<le> i \<longrightarrow> crt s' i = crt s i)"
  using cgaputc_run [OF assms] by blast

text \<open>A state for the witness, with the cursor in the last cell of the rows that scroll.\<close>

definition cons_demo :: cstate where
  "cons_demo = istate.extend inode_demo (cstate.fields False True (\<lambda>_. 0x0720) 1919 True [] (\<lambda>_. 0) 0 0 0 (\<lambda>_. None) (\<lambda>_. None))"

lemma cons_demo_pos: "crt_pos cons_demo = 1919"
  by (simp add: cons_demo_def istate.defs cstate.defs)

theorem cgaputc_stays_on_screen_witness:
  "crt_pos cons_demo = 1919 \<and> (\<exists>s'. cgaputc 65 cons_demo = Ret () s' \<and> crt_pos s' < 1920)"
  using cgaputc_stays_on_screen [of cons_demo 65] by (auto simp: cons_demo_pos)

end
