(* ===== verification/Fs.thy ===== *)
theory Fs
  imports Console
begin

text \<open>
  The contents of files, directories and path names: \<open>readi\<close>, \<open>writei\<close>, \<open>dirlookup\<close>, \<open>dirlink\<close>, \<open>skipelem\<close>,
  \<open>namex\<close> and their relatives from \<open>fs.c\<close>. What a read stores through its pointer is returned as a byte
  list next to the value; a write takes the bytes. Strings are byte lists without the terminating NUL.
\<close>

unbundle bit_operations_syntax

section \<open>File contents\<close>

definition NDEV :: int where
  "NDEV = 10"

definition dev_read :: "devfn \<Rightarrow> nat \<Rightarrow> int \<Rightarrow> ('z cstate_scheme, int \<times> u8 list) km" where
  "dev_read f ip n = (case f of Consoleread \<Rightarrow> consoleread ip n | Consolewrite \<Rightarrow> kfault ''devsw'')"

definition dev_write :: "devfn \<Rightarrow> nat \<Rightarrow> u8 list \<Rightarrow> int \<Rightarrow> ('z cstate_scheme, int) km" where
  "dev_write f ip src n = (case f of Consolewrite \<Rightarrow> consolewrite ip src n | Consoleread \<Rightarrow> kfault ''devsw'')"

text \<open>The number of bytes of one round: up to the end of the block.\<close>

definition chunk :: "uint \<Rightarrow> nat \<Rightarrow> nat" where
  "chunk off n = min n (BSIZE - unat off mod BSIZE)"

lemma chunk_pos: "0 < n \<Longrightarrow> 0 < chunk off n"
  by (simp add: chunk_def BSIZE_def)

function readi_loop :: "nat \<Rightarrow> uint \<Rightarrow> nat \<Rightarrow> ('z cstate_scheme, u8 list) km" where
  "readi_loop ip off n = (if n = 0 then kret [] else
     let m = chunk off n in
     kbind (bmap ip (off div of_nat BSIZE)) (\<lambda>a. kbind (the_inode ip i_dev) (\<lambda>dev. kbind (bread dev a) (\<lambda>bp.
     kbind (the_buf bp b_data) (\<lambda>d. kthen (brelse bp)
       (kbind (readi_loop ip (off + of_nat m) (n - m)) (\<lambda>r. kret (take m (drop (unat off mod BSIZE) d) @ r))))))))"
  by pat_completeness auto
termination by (relation "measure (\<lambda>(ip, off, n). n)") (auto intro: diff_less chunk_pos)

declare readi_loop.simps [simp del]

definition readi :: "nat \<Rightarrow> uint \<Rightarrow> uint \<Rightarrow> ('z cstate_scheme, int \<times> u8 list) km" where
  "readi ip off n = kbind (the_inode ip id) (\<lambda>x.
     if i_type x = T_DEV then
       if sint (i_major x) < 0 \<or> sint (i_major x) \<ge> NDEV then kret (- 1, [])
       else kbind (kget (\<lambda>s. devsw_read s (unat (i_major x)))) (\<lambda>f. case f of None \<Rightarrow> kret (- 1, []) | Some f \<Rightarrow> dev_read f ip (sint n))
     else if off > i_size x \<or> off + n < off then kret (- 1, [])
     else let n = (if off + n > i_size x then i_size x - off else n) in
       kbind (readi_loop ip off (unat n)) (\<lambda>bs. kret (sint n, bs)))"

definition put_at :: "nat \<Rightarrow> u8 list \<Rightarrow> u8 list \<Rightarrow> u8 list" where
  "put_at k bs d = take k d @ bs @ drop (k + length bs) d"

function writei_loop :: "nat \<Rightarrow> uint \<Rightarrow> u8 list \<Rightarrow> ('z cstate_scheme, unit) km" where
  "writei_loop ip off bs = (if bs = [] then kret () else
     let m = chunk off (length bs) in
     kbind (bmap ip (off div of_nat BSIZE)) (\<lambda>a. kbind (the_inode ip i_dev) (\<lambda>dev. kbind (bread dev a) (\<lambda>bp.
     kthen (kdo [upd_data bp (put_at (unat off mod BSIZE) (take m bs)), log_write bp, brelse bp])
       (writei_loop ip (off + of_nat m) (drop m bs))))))"
  by pat_completeness auto
termination
proof (relation "measure (\<lambda>(ip, off, bs). length bs)", goal_cases)
  case (2 ip off bs m a dev bp)
  then show ?case using chunk_pos [of "length bs" off] by (simp add: Let_def)
qed simp

declare writei_loop.simps [simp del]

definition writei :: "nat \<Rightarrow> u8 list \<Rightarrow> uint \<Rightarrow> uint \<Rightarrow> ('z cstate_scheme, int) km" where
  "writei ip src off n = kbind (the_inode ip id) (\<lambda>x.
     if i_type x = T_DEV then
       if sint (i_major x) < 0 \<or> sint (i_major x) \<ge> NDEV then kret (- 1)
       else kbind (kget (\<lambda>s. devsw_write s (unat (i_major x)))) (\<lambda>f. case f of None \<Rightarrow> kret (- 1) | Some f \<Rightarrow> dev_write f ip src (sint n))
     else if off > i_size x \<or> off + n < off then kret (- 1)
     else if off + n > of_nat (MAXFILE * BSIZE) then kret (- 1)
     else kdo2 [
       writei_loop ip off (take (unat n) src),
       kbind (the_inode ip i_size) (\<lambda>sz. if n > 0 \<and> off + n > sz then
         kdo [upd_inode ip (\<lambda>x. x\<lparr>i_size := off + n\<rparr>), iupdate ip] else kret ())] (kret (sint n)))"

section \<open>Directories\<close>

definition DIRSIZ :: nat where
  "DIRSIZ = 14"

definition chr0 :: "u8 list \<Rightarrow> u8" where
  "chr0 p = (case p of [] \<Rightarrow> 0 | c # _ \<Rightarrow> c)"

fun strncmpb :: "nat \<Rightarrow> u8 list \<Rightarrow> u8 list \<Rightarrow> int" where
  "strncmpb 0 p q = 0"
| "strncmpb (Suc n) p q = (if chr0 p = 0 \<or> chr0 p \<noteq> chr0 q then int (unat (chr0 p)) - int (unat (chr0 q))
     else strncmpb n (tl p) (tl q))"

definition namecmp :: "u8 list \<Rightarrow> u8 list \<Rightarrow> int" where
  "namecmp s t = strncmpb DIRSIZ s t"

definition de_inum :: "u8 list \<Rightarrow> u16" where
  "de_inum de = rd16 de 0"

definition de_name :: "u8 list \<Rightarrow> u8 list" where
  "de_name de = take DIRSIZ (drop 2 de)"

text \<open>The offsets of the entries of a directory of \<open>sz\<close> bytes.\<close>

definition de_offs :: "uint \<Rightarrow> uint list" where
  "de_offs sz = map (\<lambda>k. of_nat (16 * k)) [0..<(unat sz + 15) div 16]"

fun dirlookup_loop :: "nat \<Rightarrow> u8 list \<Rightarrow> uint list \<Rightarrow> ('z cstate_scheme, (nat \<times> uint) option) km" where
  "dirlookup_loop dp name [] = kret None"
| "dirlookup_loop dp name (off # offs) = kbind (readi dp off 16) (\<lambda>(r, de).
     if r \<noteq> 16 then kpanic ''dirlink read''
     else if de_inum de = 0 then dirlookup_loop dp name offs
     else if namecmp name (de_name de) = 0 then
       kbind (the_inode dp i_dev) (\<lambda>dev. kbind (iget dev (ucast (de_inum de))) (\<lambda>ip. kret (Some (ip, off))))
     else dirlookup_loop dp name offs)"

definition dirlookup :: "nat \<Rightarrow> u8 list \<Rightarrow> ('z cstate_scheme, (nat \<times> uint) option) km" where
  "dirlookup dp name = kbind (the_inode dp id) (\<lambda>x.
     if i_type x \<noteq> T_DIR then kpanic ''dirlookup not DIR'' else dirlookup_loop dp name (de_offs (i_size x)))"

text \<open>The search for a free entry: the offset of the first one, or the end of the directory.\<close>

fun dirlink_slot :: "nat \<Rightarrow> uint list \<Rightarrow> uint \<Rightarrow> ('z cstate_scheme, uint) km" where
  "dirlink_slot dp [] past = kret past"
| "dirlink_slot dp (off # offs) past = kbind (readi dp off 16) (\<lambda>(r, de).
     if r \<noteq> 16 then kpanic ''dirlink read''
     else if de_inum de = 0 then kret off
     else dirlink_slot dp offs past)"

text \<open>\<open>strncpy\<close> into the name field: at most \<open>DIRSIZ\<close> bytes, padded with NULs.\<close>

definition dirent :: "u16 \<Rightarrow> u8 list \<Rightarrow> u8 list" where
  "dirent inum name = [ucast inum, ucast (drop_bit 8 inum)] @ take DIRSIZ (name @ replicate DIRSIZ 0)"

definition dirlink :: "nat \<Rightarrow> u8 list \<Rightarrow> uint \<Rightarrow> ('z cstate_scheme, int) km" where
  "dirlink dp name inum = kbind (dirlookup dp name) (\<lambda>r. case r of
     Some (ip, _) \<Rightarrow> kdo2 [iput ip] (kret (- 1))
   | None \<Rightarrow> kbind (the_inode dp i_size) (\<lambda>sz.
       kbind (dirlink_slot dp (de_offs sz) (of_nat (16 * ((unat sz + 15) div 16)))) (\<lambda>off.
       kbind (writei dp (dirent (ucast inum) name) off 16) (\<lambda>w. if w \<noteq> 16 then kpanic ''dirlink'' else kret 0))))"

section \<open>Path names\<close>

definition skipelem :: "u8 list \<Rightarrow> (u8 list \<times> u8 list) option" where
  "skipelem path = (let path = dropWhile (\<lambda>c. c = 47) path in
     if path = [] then None
     else let s = takeWhile (\<lambda>c. c \<noteq> 47) path;
              path = dropWhile (\<lambda>c. c \<noteq> 47) path
       in Some (take DIRSIZ s, dropWhile (\<lambda>c. c = 47) path))"

lemma skipelem_shorter: "skipelem path = Some (name, rest) \<Longrightarrow> length rest < length path"
proof -
  assume a: "skipelem path = Some (name, rest)"
  let ?p = "dropWhile (\<lambda>c. c = 47) path"
  have ne: "?p \<noteq> []" and r: "rest = dropWhile (\<lambda>c. c = 47) (dropWhile (\<lambda>c. c \<noteq> 47) ?p)"
    using a by (auto simp: skipelem_def Let_def split: if_splits)
  have "hd ?p \<noteq> 47" using hd_dropWhile [OF ne] by simp
  then have "length (dropWhile (\<lambda>c. c \<noteq> 47) ?p) < length ?p"
    using ne by (cases ?p) (auto simp: less_Suc_eq_le length_dropWhile_le)
  moreover have "length rest \<le> length (dropWhile (\<lambda>c. c \<noteq> 47) ?p)" unfolding r by (rule length_dropWhile_le)
  moreover have "length ?p \<le> length path" by (rule length_dropWhile_le)
  ultimately show ?thesis by linarith
qed

text \<open>The loop of \<open>namex\<close>; the result is the inode with the last path element.\<close>

function namex_loop :: "nat \<Rightarrow> u8 list \<Rightarrow> bool \<Rightarrow> ('z cstate_scheme, (nat \<times> u8 list) option) km" where
  "namex_loop ip path parent = (case skipelem path of
     None \<Rightarrow> if parent then kdo2 [iput ip] (kret None) else kret (Some (ip, []))
   | Some (name, rest) \<Rightarrow> kthen (ilock ip) (kbind (the_inode ip i_type) (\<lambda>t.
       if t \<noteq> T_DIR then kdo2 [iunlockput ip] (kret None)
       else if parent \<and> rest = [] then kdo2 [iunlock ip] (kret (Some (ip, name)))
       else kbind (dirlookup ip name) (\<lambda>r. case r of
         None \<Rightarrow> kdo2 [iunlockput ip] (kret None)
       | Some (next, _) \<Rightarrow> kthen (iunlockput ip) (namex_loop next rest parent)))))"
  by pat_completeness auto
termination by (relation "measure (\<lambda>(ip, path, parent). length path)") (auto dest: skipelem_shorter)

declare namex_loop.simps [simp del]

definition namex :: "u8 list \<Rightarrow> bool \<Rightarrow> ('z cstate_scheme, (nat \<times> u8 list) option) km" where
  "namex path parent = kbind
     (if chr0 path = 47 then iget ROOTDEV ROOTINO
      else kbind curproc (\<lambda>p. kbind (the_proc p p_cwd) (\<lambda>cwd. case cwd of None \<Rightarrow> kfault ''cwd'' | Some ip \<Rightarrow> idup ip)))
     (\<lambda>ip. namex_loop ip path parent)"

definition namei :: "u8 list \<Rightarrow> ('z cstate_scheme, nat option) km" where
  "namei path = kbind (namex path False) (\<lambda>r. kret (map_option fst r))"

definition nameiparent :: "u8 list \<Rightarrow> ('z cstate_scheme, (nat \<times> u8 list) option) km" where
  "nameiparent path = namex path True"

section \<open>Properties\<close>

text \<open>The elements \<open>namex\<close> visits, one \<open>skipelem\<close> after the other, and the reference: the pieces between
  slashes.\<close>

function path_elems :: "u8 list \<Rightarrow> u8 list list" where
  "path_elems path = (case skipelem path of None \<Rightarrow> [] | Some (name, rest) \<Rightarrow> name # path_elems rest)"
  by pat_completeness auto
termination by (relation "measure length") (auto dest: skipelem_shorter)

declare path_elems.simps [simp del]

fun split_slash :: "u8 list \<Rightarrow> u8 list list" where
  "split_slash [] = [[]]"
| "split_slash (c # cs) = (if c = 47 then [] # split_slash cs else (c # hd (split_slash cs)) # tl (split_slash cs))"

lemma split_slash_ne: "split_slash p \<noteq> []"
  by (cases p) auto

lemma split_slash_drop: "filter (\<lambda>x. x \<noteq> []) (split_slash (dropWhile (\<lambda>c. c = 47) p)) = filter (\<lambda>x. x \<noteq> []) (split_slash p)"
  by (induction p) auto

lemma split_slash_elem:
  assumes "47 \<notin> set w" shows "split_slash w = [w]" "split_slash (w @ 47 # r) = w # split_slash r"
  using assms by (induction w) auto

lemma skipelem_parts:
  assumes "dropWhile (\<lambda>c. c = 47) path \<noteq> []"
  shows "\<exists>w. w \<noteq> [] \<and> 47 \<notin> set w \<and> (dropWhile (\<lambda>c. c = 47) path = w \<and> skipelem path = Some (take DIRSIZ w, [])
    \<or> (\<exists>r. dropWhile (\<lambda>c. c = 47) path = w @ 47 # r \<and> skipelem path = Some (take DIRSIZ w, dropWhile (\<lambda>c. c = 47) r)))"
proof -
  define p where "p = dropWhile (\<lambda>c. c = 47) path"
  define w where "w = takeWhile (\<lambda>c. c \<noteq> 47) p"
  define d where "d = dropWhile (\<lambda>c. c \<noteq> 47) p"
  have split: "p = w @ d" by (simp add: w_def d_def)
  have "p \<noteq> []" "hd p \<noteq> 47" using assms hd_dropWhile [OF assms] unfolding p_def by blast+
  then have w: "w \<noteq> []" by (cases p) (auto simp: w_def)
  have no: "47 \<notin> set w" unfolding w_def by (auto dest: set_takeWhileD)
  have sk: "skipelem path = Some (take DIRSIZ w, dropWhile (\<lambda>c. c = 47) d)"
    by (simp only: skipelem_def Let_def assms if_False p_def [symmetric] w_def d_def) (use \<open>p \<noteq> []\<close> in simp)
  show ?thesis
  proof (cases d)
    case Nil
    then show ?thesis using w no sk split by (intro exI [of _ w]) (simp add: p_def [symmetric])
  next
    case (Cons c r)
    have "d \<noteq> []" using Cons by simp
    then have "c = 47" using hd_dropWhile [of "\<lambda>c. c \<noteq> 47" p] Cons by (simp add: d_def)
    then have "p = w @ 47 # r" "skipelem path = Some (take DIRSIZ w, dropWhile (\<lambda>c. c = 47) r)" using split Cons sk by simp_all
    then show ?thesis using w no by (intro exI [of _ w]) (auto simp: p_def)
  qed
qed

text \<open>C11. Parsing of path names: the loop of \<open>namex\<close> sees exactly the non-empty pieces between slashes, in order, each cut
  to \<open>DIRSIZ\<close> bytes; leading, doubled and trailing slashes make no difference. \<open>skipelem\<close> shortens the path every time,
  so the loop ends.\<close>

theorem skipelem_splits_path: "path_elems path = map (take DIRSIZ) (filter (\<lambda>x. x \<noteq> []) (split_slash path))"
proof (induction path rule: path_elems.induct)
  case (1 path)
  let ?p = "dropWhile (\<lambda>c. c = 47) path"
  show ?case
  proof (cases "?p = []")
    case True
    have "filter (\<lambda>x. x \<noteq> []) (split_slash path) = []" using split_slash_drop [of path] unfolding True by simp
    moreover have "skipelem path = None" unfolding skipelem_def Let_def True by simp
    ultimately show ?thesis by (simp add: path_elems.simps [of path])
  next
    case False
    obtain w where w: "w \<noteq> []" "47 \<notin> set w" and cs: "?p = w \<and> skipelem path = Some (take DIRSIZ w, [])
      \<or> (\<exists>r. ?p = w @ 47 # r \<and> skipelem path = Some (take DIRSIZ w, dropWhile (\<lambda>c. c = 47) r))"
      using skipelem_parts [OF False] by blast
    have IH: "path_elems rest = map (take DIRSIZ) (filter (\<lambda>x. x \<noteq> []) (split_slash rest))"
      if "skipelem path = Some (name, rest)" for name rest using 1 that by blast
    show ?thesis using cs
    proof
      assume a: "?p = w \<and> skipelem path = Some (take DIRSIZ w, [])"
      then have "filter (\<lambda>x. x \<noteq> []) (split_slash path) = [w]"
        using split_slash_drop [of path] split_slash_elem(1) [OF w(2)] w(1) by simp
      with a IH [of "take DIRSIZ w" "[]"] show ?thesis by (simp add: path_elems.simps [of path])
    next
      assume "\<exists>r. ?p = w @ 47 # r \<and> skipelem path = Some (take DIRSIZ w, dropWhile (\<lambda>c. c = 47) r)"
      then obtain r where a: "?p = w @ 47 # r" "skipelem path = Some (take DIRSIZ w, dropWhile (\<lambda>c. c = 47) r)" by blast
      then have "filter (\<lambda>x. x \<noteq> []) (split_slash path) = w # filter (\<lambda>x. x \<noteq> []) (split_slash r)"
        using split_slash_drop [of path] split_slash_elem(2) [OF w(2), of r] w(1) by simp
      with a IH [OF a(2)] split_slash_drop [of r] show ?thesis by (simp add: path_elems.simps [of path])
    qed
  qed
qed

end
