(* ===== verification/File.thy ===== *)
theory File
  imports Fs
begin

text \<open>
  The table of open files (\<open>file.c\<close>, \<open>file.h\<close>) and \<open>pipealloc\<close>, which hands out a pair of its entries. A pointer to a
  \<open>struct file\<close> is its index in the table. Reads return the bytes stored through the pointer of the caller.
\<close>

datatype fdtype = FD_NONE | FD_PIPE | FD_INODE

record kfile =
  f_type :: fdtype
  f_ref :: int
  f_readable :: bool
  f_writable :: bool
  f_pipe :: uint
  f_ip :: nat
  f_off :: uint

record fstate = cstate +
  files :: "nat \<Rightarrow> kfile"

definition NFILE :: nat where
  "NFILE = 100"

definition upd_file :: "nat \<Rightarrow> (kfile \<Rightarrow> kfile) \<Rightarrow> ('z fstate_scheme, unit) km" where
  "upd_file f g = kmod (\<lambda>s. s\<lparr>files := (files s)(f := g (files s f))\<rparr>)"

definition the_file :: "nat \<Rightarrow> ('z fstate_scheme, kfile) km" where
  "the_file f = kget (\<lambda>s. files s f)"

definition fileinit :: "('z fstate_scheme, unit) km" where
  "fileinit = kmod (\<lambda>s. s\<lparr>owner := (owner s)(FtableLock := None)\<rparr>)"

definition filealloc :: "('z fstate_scheme, nat option) km" where
  "filealloc = kthen (acquire_lk FtableLock) (kbind (kget (\<lambda>s. find (\<lambda>f. f_ref (files s f) = 0) [0..<NFILE])) (\<lambda>r. case r of
     Some f \<Rightarrow> kdo2 [upd_file f (\<lambda>x. x\<lparr>f_ref := 1\<rparr>), release_lk FtableLock] (kret (Some f))
   | None \<Rightarrow> kdo2 [release_lk FtableLock] (kret None)))"

definition filedup :: "nat \<Rightarrow> ('z fstate_scheme, nat) km" where
  "filedup f = kthen (acquire_lk FtableLock) (kbind (the_file f) (\<lambda>x.
     if f_ref x < 1 then kpanic ''filedup''
     else kdo2 [upd_file f (\<lambda>x. x\<lparr>f_ref := f_ref x + 1\<rparr>), release_lk FtableLock] (kret f)))"

text \<open>The part of \<open>fileclose\<close> after the entry was cleared, on the copy \<open>ff\<close> of it.\<close>

definition fileclose_last :: "kfile \<Rightarrow> ('z fstate_scheme, unit) km" where
  "fileclose_last ff = (case f_type ff of
     FD_PIPE \<Rightarrow> pipeclose (f_pipe ff) (f_writable ff)
   | FD_INODE \<Rightarrow> kdo [begin_op, iput (f_ip ff), end_op]
   | FD_NONE \<Rightarrow> kret ())"

definition fileclose :: "nat \<Rightarrow> ('z fstate_scheme, unit) km" where
  "fileclose f = kthen (acquire_lk FtableLock) (kbind (the_file f) (\<lambda>x.
     if f_ref x < 1 then kpanic ''fileclose''
     else kthen (upd_file f (\<lambda>x. x\<lparr>f_ref := f_ref x - 1\<rparr>)) (
       if f_ref x - 1 > 0 then release_lk FtableLock
       else kbind (the_file f) (\<lambda>ff. kdo [
         upd_file f (\<lambda>x. x\<lparr>f_ref := 0\<rparr>),
         upd_file f (\<lambda>x. x\<lparr>f_type := FD_NONE\<rparr>),
         release_lk FtableLock,
         fileclose_last ff]))))"

definition filestat :: "nat \<Rightarrow> ('z fstate_scheme, stat option) km" where
  "filestat f = kbind (the_file f) (\<lambda>x. if f_type x = FD_INODE then
       kthen (ilock (f_ip x)) (kbind (stati (f_ip x)) (\<lambda>st. kdo2 [iunlock (f_ip x)] (kret (Some st))))
     else kret None)"

definition fileread :: "nat \<Rightarrow> int \<Rightarrow> ('z fstate_scheme, int \<times> u8 list) km" where
  "fileread f n = kbind (the_file f) (\<lambda>x. if \<not> f_readable x then kret (- 1, [])
     else case f_type x of
       FD_PIPE \<Rightarrow> piperead (f_pipe x) n
     | FD_INODE \<Rightarrow> kthen (ilock (f_ip x)) (kbind (readi (f_ip x) (f_off x) (of_int n)) (\<lambda>(r, bs). kdo2 [
         (if r > 0 then upd_file f (\<lambda>x. x\<lparr>f_off := f_off x + of_int r\<rparr>) else kret ()),
         iunlock (f_ip x)] (kret (r, bs))))
     | FD_NONE \<Rightarrow> kpanic ''fileread'')"

text \<open>\<open>filewrite\<close> to an inode: rounds of at most \<open>((LOGSIZE-1-1-2) / 2) * 512\<close> bytes, each a transaction of its own.\<close>

definition write_max :: nat where
  "write_max = ((LOGSIZE - 1 - 1 - 2) div 2) * 512"

lemma write_max_pos: "0 < write_max"
  by (simp add: write_max_def LOGSIZE_def)

function filewrite_loop :: "nat \<Rightarrow> u8 list \<Rightarrow> ('z fstate_scheme, bool) km" where
  "filewrite_loop f bs = (if bs = [] then kret True else
     let n1 = min (length bs) write_max in
     kbind (the_file f) (\<lambda>x. kthen begin_op (kthen (ilock (f_ip x)) (
     kbind (writei (f_ip x) (take n1 bs) (f_off x) (of_nat n1)) (\<lambda>r. kthen (kdo [
       (if r > 0 then upd_file f (\<lambda>x. x\<lparr>f_off := f_off x + of_int r\<rparr>) else kret ()),
       iunlock (f_ip x),
       end_op])
     (if r < 0 then kret False
      else if r \<noteq> int n1 then kpanic ''short filewrite''
      else filewrite_loop f (drop n1 bs)))))))"
  by pat_completeness auto
termination by (relation "measure (\<lambda>(f, bs). length bs)") (auto simp: write_max_pos)

declare filewrite_loop.simps [simp del]

definition filewrite :: "nat \<Rightarrow> u8 list \<Rightarrow> int \<Rightarrow> ('z fstate_scheme, int) km" where
  "filewrite f addr n = kbind (the_file f) (\<lambda>x. if \<not> f_writable x then kret (- 1)
     else case f_type x of
       FD_PIPE \<Rightarrow> pipewrite (f_pipe x) addr n
     | FD_INODE \<Rightarrow> if n < 0 then kret (- 1)
         else kbind (filewrite_loop f (take (nat n) addr)) (\<lambda>ok. kret (if ok then n else - 1))
     | FD_NONE \<Rightarrow> kpanic ''filewrite'')"

definition pipealloc_bad :: "nat option \<Rightarrow> nat option \<Rightarrow> ('z fstate_scheme, (nat \<times> nat) option) km" where
  "pipealloc_bad f0 f1 = kdo2 [
     (case f0 of Some f \<Rightarrow> fileclose f | None \<Rightarrow> kret ()),
     (case f1 of Some f \<Rightarrow> fileclose f | None \<Rightarrow> kret ())] (kret None)"

text \<open>\<open>pipealloc\<close>: the page of the pipe is never freed on the error path, where it has not been allocated.\<close>

definition pipealloc :: "('z fstate_scheme, (nat \<times> nat) option) km" where
  "pipealloc = kbind filealloc (\<lambda>r0. case r0 of None \<Rightarrow> pipealloc_bad None None
   | Some f0 \<Rightarrow> kbind filealloc (\<lambda>r1. case r1 of None \<Rightarrow> pipealloc_bad (Some f0) None
   | Some f1 \<Rightarrow> kbind kalloc (\<lambda>p. case p of None \<Rightarrow> pipealloc_bad (Some f0) (Some f1)
   | Some p \<Rightarrow> kdo2 [
       pipe_init p,
       upd_file f0 (\<lambda>x. x\<lparr>f_type := FD_PIPE, f_readable := True, f_writable := False, f_pipe := p\<rparr>),
       upd_file f1 (\<lambda>x. x\<lparr>f_type := FD_PIPE, f_readable := False, f_writable := True, f_pipe := p\<rparr>)]
     (kret (Some (f0, f1))))))"

end
