(* ===== verification/Vm.thy ===== *)
theory Vm
  imports Scheduler
begin

unbundle bit_operations_syntax

text \<open>
  The page tables of \<open>vm.c\<close>, kept in the byte memory of the kernel: a page directory and its tables
  are pages of the allocator, read and written a word at a time. \<open>lookup\<close> gives the entry that the
  hardware finds for a virtual address; the lemmas show what each routine does to it.

  The source of \<open>copyout\<close> and of \<open>inituvm\<close> is given by its bytes. \<open>loaduvm\<close>, which reads from an inode,
  is in the theory of \<open>exec\<close>.
\<close>

section \<open>Macros\<close>

definition PTE_P :: uint where "PTE_P = 0x001"
definition PTE_W :: uint where "PTE_W = 0x002"
definition PTE_U :: uint where "PTE_U = 0x004"

definition NPDENTRIES :: nat where "NPDENTRIES = 1024"
definition NPTENTRIES :: uint where "NPTENTRIES = 1024"

definition EXTMEM :: uint where "EXTMEM = 0x100000"
definition DEVSPACE :: uint where "DEVSPACE = 0xFE000000"
definition KERNLINK :: uint where "KERNLINK = KERNBASE + EXTMEM"

definition PDX :: "uint \<Rightarrow> uint" where
  "PDX va = drop_bit 22 va AND 0x3FF"

definition PTX :: "uint \<Rightarrow> uint" where
  "PTX va = drop_bit 12 va AND 0x3FF"

definition PTE_ADDR :: "uint \<Rightarrow> uint" where
  "PTE_ADDR pte = pte AND NOT 0xFFF"

definition PTE_FLAGS :: "uint \<Rightarrow> uint" where
  "PTE_FLAGS pte = pte AND 0xFFF"

definition has :: "uint \<Rightarrow> uint \<Rightarrow> bool" where
  "has e fl = (e AND fl \<noteq> 0)"

section \<open>Page tables\<close>

definition get32 :: "uint \<Rightarrow> ('z kmem_scheme, uint) km" where
  "get32 a = kget (\<lambda>s. load32 (mem s) a)"

definition put32 :: "uint \<Rightarrow> uint \<Rightarrow> ('z kmem_scheme, unit) km" where
  "put32 a w = kmod (\<lambda>s. s\<lparr>mem := store32 (mem s) a w\<rparr>)"

definition zero_page :: "uint \<Rightarrow> ('z kmem_scheme, unit) km" where
  "zero_page a = kmod (\<lambda>s. s\<lparr>mem := memset (mem s) a 0 PGSIZE\<rparr>)"

definition walkpgdir :: "uint \<Rightarrow> uint \<Rightarrow> bool \<Rightarrow> ('z kmem_scheme, uint option) km" where
  "walkpgdir pgdir va alloc = (let pde = pgdir + 4 * PDX va in
     kbind (get32 pde) (\<lambda>e.
       if has e PTE_P then kret (Some (p2v (PTE_ADDR e) + 4 * PTX va))
       else if \<not> alloc then kret None
       else kbind kalloc (\<lambda>r. case r of
         None \<Rightarrow> kret None
       | Some pgtab \<Rightarrow> kdo2 [
           zero_page pgtab,
           put32 pde (v2p pgtab OR PTE_P OR PTE_W OR PTE_U)]
           (kret (Some (pgtab + 4 * PTX va))))))"

text \<open>
  The loop of \<open>mappages\<close> steps through page addresses until it meets \<open>last\<close>, which is one of the
  \<open>2 ^ 20\<close> page addresses.
\<close>

fun mappages_loop :: "nat \<Rightarrow> uint \<Rightarrow> uint \<Rightarrow> uint \<Rightarrow> uint \<Rightarrow> uint \<Rightarrow> ('z kmem_scheme, int) km" where
  "mappages_loop 0 pgdir a last_page pa perm = khang ''mappages''"
| "mappages_loop (Suc n) pgdir a last_page pa perm = kbind (walkpgdir pgdir a True) (\<lambda>r. case r of
     None \<Rightarrow> kret (- 1)
   | Some pte \<Rightarrow> kbind (get32 pte) (\<lambda>e.
       if has e PTE_P then kpanic ''remap''
       else kthen (put32 pte (pa OR perm OR PTE_P))
         (if a = last_page then kret 0
          else mappages_loop n pgdir (a + PGSIZE) last_page (pa + PGSIZE) perm)))"

definition mappages :: "uint \<Rightarrow> uint \<Rightarrow> uint \<Rightarrow> uint \<Rightarrow> uint \<Rightarrow> ('z kmem_scheme, int) km" where
  "mappages pgdir va nbytes pa perm =
     mappages_loop (2 ^ 20) pgdir (PGROUNDDOWN va) (PGROUNDDOWN (va + nbytes - 1)) pa perm"

record kmap_entry =
  km_virt :: uint
  km_phys_start :: uint
  km_phys_end :: uint
  km_perm :: uint

definition kmap :: "uint \<Rightarrow> kmap_entry list" where
  "kmap dat = [
     \<lparr>km_virt = KERNBASE, km_phys_start = 0, km_phys_end = EXTMEM, km_perm = PTE_W\<rparr>,
     \<lparr>km_virt = KERNLINK, km_phys_start = v2p KERNLINK, km_phys_end = v2p dat, km_perm = 0\<rparr>,
     \<lparr>km_virt = dat, km_phys_start = v2p dat, km_phys_end = PHYSTOP, km_perm = PTE_W\<rparr>,
     \<lparr>km_virt = DEVSPACE, km_phys_start = DEVSPACE, km_phys_end = 0, km_perm = PTE_W\<rparr>]"

fun setupkvm_loop :: "kmap_entry list \<Rightarrow> uint \<Rightarrow> ('z kmem_scheme, uint option) km" where
  "setupkvm_loop [] pgdir = kret (Some pgdir)"
| "setupkvm_loop (k # ks) pgdir =
     kbind (mappages pgdir (km_virt k) (km_phys_end k - km_phys_start k) (km_phys_start k) (km_perm k)) (\<lambda>r.
       if r < 0 then kret None else setupkvm_loop ks pgdir)"

definition setupkvm :: "('z kmem_scheme, uint option) km" where
  "setupkvm = kbind kalloc (\<lambda>r. case r of
     None \<Rightarrow> kret None
   | Some pgdir \<Rightarrow> kthen (zero_page pgdir)
       (if p2v PHYSTOP > DEVSPACE then kpanic ''PHYSTOP too high''
        else kbind (kget kdata) (\<lambda>dat. setupkvm_loop (kmap dat) pgdir)))"

definition kvmalloc :: "('z ptable_scheme, unit) km" where
  "kvmalloc = kbind setupkvm (\<lambda>r. kdo [
     kmod (\<lambda>s. s\<lparr>kpgdir := (case r of None \<Rightarrow> 0 | Some d \<Rightarrow> d)\<rparr>),
     switchkvm])"

section \<open>User memory\<close>

fun put_bytes :: "bmem \<Rightarrow> uint \<Rightarrow> u8 list \<Rightarrow> bmem" where
  "put_bytes m a [] = m"
| "put_bytes m a (b # bs) = put_bytes (m(a := b)) (a + 1) bs"

definition inituvm :: "uint \<Rightarrow> u8 list \<Rightarrow> ('z kmem_scheme, unit) km" where
  "inituvm pgdir init =
     (if length init \<ge> unat PGSIZE then kpanic ''inituvm: more than a page''
      else kbind kalloc (\<lambda>r. kbind (kderef ''mem'' r) (\<lambda>m. kdo [
        zero_page m,
        kthen (mappages pgdir 0 PGSIZE (v2p m) (PTE_W OR PTE_U)) (kret ()),
        kmod (\<lambda>s. s\<lparr>mem := put_bytes (mem s) m init\<rparr>)])))"

text \<open>
  The loops over user addresses: at most \<open>2 ^ 19\<close> pages lie below \<open>KERNBASE\<close>, and the addresses the
  kernel passes are not above it.
\<close>

definition free_user_page :: "uint \<Rightarrow> uint \<Rightarrow> ('z kmem_scheme, unit) km" where
  "free_user_page pte e = (if has e PTE_P then
       if PTE_ADDR e = 0 then kpanic ''kfree''
       else kdo [kfree (p2v (PTE_ADDR e)), put32 pte 0]
     else kret ())"

fun deallocuvm_loop :: "nat \<Rightarrow> uint \<Rightarrow> uint \<Rightarrow> uint \<Rightarrow> ('z kmem_scheme, unit) km" where
  "deallocuvm_loop 0 pgdir a oldsz = khang ''deallocuvm''"
| "deallocuvm_loop (Suc n) pgdir a oldsz = (if a < oldsz then
       kbind (walkpgdir pgdir a False) (\<lambda>r. case r of
         None \<Rightarrow> deallocuvm_loop n pgdir (a + (NPTENTRIES - 1) * PGSIZE + PGSIZE) oldsz
       | Some pte \<Rightarrow> kbind (get32 pte) (\<lambda>e.
           kthen (free_user_page pte e) (deallocuvm_loop n pgdir (a + PGSIZE) oldsz)))
     else kret ())"

definition deallocuvm :: "uint \<Rightarrow> uint \<Rightarrow> uint \<Rightarrow> ('z kmem_scheme, uint) km" where
  "deallocuvm pgdir oldsz newsz =
     (if newsz \<ge> oldsz then kret oldsz
      else kthen (deallocuvm_loop (2 ^ 20) pgdir (PGROUNDUP newsz) oldsz) (kret newsz))"

fun allocuvm_loop :: "nat \<Rightarrow> uint \<Rightarrow> uint \<Rightarrow> uint \<Rightarrow> uint \<Rightarrow> ('z kmem_scheme, uint) km" where
  "allocuvm_loop 0 pgdir a oldsz newsz = khang ''allocuvm''"
| "allocuvm_loop (Suc n) pgdir a oldsz newsz = (if a < newsz then
       kbind kalloc (\<lambda>r. case r of
         None \<Rightarrow> kdo2 [kprint (''allocuvm out of memory'' @ nl), kthen (deallocuvm pgdir newsz oldsz) (kret ())] (kret 0)
       | Some m \<Rightarrow> kdo2 [zero_page m, kthen (mappages pgdir a PGSIZE (v2p m) (PTE_W OR PTE_U)) (kret ())]
           (allocuvm_loop n pgdir (a + PGSIZE) oldsz newsz))
     else kret newsz)"

definition allocuvm :: "uint \<Rightarrow> uint \<Rightarrow> uint \<Rightarrow> ('z kmem_scheme, uint) km" where
  "allocuvm pgdir oldsz newsz =
     (if newsz \<ge> KERNBASE then kret 0
      else if newsz < oldsz then kret oldsz
      else allocuvm_loop (2 ^ 20) pgdir (PGROUNDUP oldsz) oldsz newsz)"

definition free_table :: "uint \<Rightarrow> nat \<Rightarrow> ('z kmem_scheme, unit) km" where
  "free_table pgdir i = kbind (get32 (pgdir + 4 * of_nat i)) (\<lambda>e.
     if has e PTE_P then kfree (p2v (PTE_ADDR e)) else kret ())"

definition freevm :: "uint \<Rightarrow> ('z kmem_scheme, unit) km" where
  "freevm pgdir =
     (if pgdir = 0 then kpanic ''freevm: no pgdir''
      else kdo [
        kthen (deallocuvm pgdir KERNBASE 0) (kret ()),
        kfor [0..<NPDENTRIES] (free_table pgdir),
        kfree pgdir])"

definition clearpteu :: "uint \<Rightarrow> uint \<Rightarrow> ('z kmem_scheme, unit) km" where
  "clearpteu pgdir uva = kbind (walkpgdir pgdir uva False) (\<lambda>r. case r of
     None \<Rightarrow> kpanic ''clearpteu''
   | Some pte \<Rightarrow> kbind (get32 pte) (\<lambda>e. put32 pte (e AND NOT PTE_U)))"

fun copyuvm_loop :: "nat \<Rightarrow> uint \<Rightarrow> uint \<Rightarrow> uint \<Rightarrow> uint \<Rightarrow> ('z kmem_scheme, uint option) km" where
  "copyuvm_loop 0 pgdir d i sz = khang ''copyuvm''"
| "copyuvm_loop (Suc n) pgdir d i sz = (if i < sz then
       kbind (walkpgdir pgdir i False) (\<lambda>r. case r of
         None \<Rightarrow> kpanic ''copyuvm: pte should exist''
       | Some pte \<Rightarrow> kbind (get32 pte) (\<lambda>e.
           if \<not> has e PTE_P then kpanic ''copyuvm: page not present''
           else kbind kalloc (\<lambda>k. case k of
             None \<Rightarrow> kdo2 [freevm d] (kret None)
           | Some m \<Rightarrow> kthen (kmod (\<lambda>s. s\<lparr>mem := memmove (mem s) m (p2v (PTE_ADDR e)) PGSIZE\<rparr>))
               (kbind (mappages d i PGSIZE (v2p m) (PTE_FLAGS e)) (\<lambda>res.
                 if res < 0 then kdo2 [freevm d] (kret None)
                 else copyuvm_loop n pgdir d (i + PGSIZE) sz)))))
     else kret (Some d))"

definition copyuvm :: "uint \<Rightarrow> uint \<Rightarrow> ('z kmem_scheme, uint option) km" where
  "copyuvm pgdir sz = kbind setupkvm (\<lambda>r. case r of
     None \<Rightarrow> kret None
   | Some d \<Rightarrow> copyuvm_loop (2 ^ 20) pgdir d 0 sz)"

definition uva2ka :: "uint \<Rightarrow> uint \<Rightarrow> ('z kmem_scheme, uint option) km" where
  "uva2ka pgdir uva = kbind (walkpgdir pgdir uva False) (\<lambda>r. kbind (kderef ''pte'' r) (\<lambda>pte.
     kbind (get32 pte) (\<lambda>e.
       if \<not> has e PTE_P then kret None
       else if \<not> has e PTE_U then kret None
       else kret (Some (p2v (PTE_ADDR e))))))"

text \<open>The loop of \<open>copyout\<close> copies at least one byte in every round.\<close>

fun copyout_loop :: "nat \<Rightarrow> uint \<Rightarrow> uint \<Rightarrow> u8 list \<Rightarrow> ('z kmem_scheme, int) km" where
  "copyout_loop 0 pgdir va bs = (if bs = [] then kret 0 else khang ''copyout'')"
| "copyout_loop (Suc k) pgdir va bs = (if bs = [] then kret 0 else
     (let va0 = PGROUNDDOWN va in kbind (uva2ka pgdir va0) (\<lambda>r. case r of
       None \<Rightarrow> kret (- 1)
     | Some pa0 \<Rightarrow> (let n = min (unat (PGSIZE - (va - va0))) (length bs) in
         kthen (kmod (\<lambda>s. s\<lparr>mem := put_bytes (mem s) (pa0 + (va - va0)) (take n bs)\<rparr>))
           (copyout_loop k pgdir (va0 + PGSIZE) (drop n bs))))))"

definition copyout :: "uint \<Rightarrow> uint \<Rightarrow> u8 list \<Rightarrow> ('z kmem_scheme, int) km" where
  "copyout pgdir va bs = copyout_loop (length bs) pgdir va bs"

section \<open>Entries of a table\<close>

text \<open>Table entries are words at multiples of four inside one page.\<close>

lemma word4_apart:
  fixes a b :: uint
  assumes "unat a mod 4 = 0" "unat b mod 4 = 0" "a \<noteq> b" "i < 4"
  shows "\<not> b + of_nat i - a < 4"
proof -
  have lt: "unat a < 4294967296" "unat b < 4294967296" by simp_all
  have d: "unat (b - a) mod 4 = 0"
  proof (cases "a \<le> b")
    case True
    then show ?thesis using assms(1,2) by (simp add: unat_sub mod_eq_0_iff_dvd dvd_diff_nat)
  next
    case False
    then have "unat (b - a) = unat b + 4294967296 - unat a"
      by (simp add: unat_sub_if' word_le_nat_alt)
    moreover have "4 dvd unat b + 4294967296 - unat a"
      using assms(1,2) by (intro dvd_diff_nat dvd_add) (auto simp: mod_eq_0_iff_dvd)
    ultimately show ?thesis by (simp add: mod_eq_0_iff_dvd)
  qed
  moreover have "unat (b - a) \<noteq> 0" using assms(3) by (simp add: unat_eq_0)
  moreover have "unat (b - a) < 4294967296" by simp
  ultimately have "4 \<le> unat (b - a)" "unat (b - a) + i < 4294967296" using assms(4) by presburger+
  then have "unat (b - a + of_nat i) = unat (b - a) + i" using assms(4)
    by (subst unat_add_lem [THEN iffD1]) simp_all
  moreover have "b + of_nat i - a = b - a + of_nat i" by simp
  ultimately have "unat (b + of_nat i - a) = unat (b - a) + i" by metis
  then show ?thesis using \<open>4 \<le> unat (b - a)\<close> by (simp add: word_less_nat_alt)
qed

lemma load32_store32_other:
  "unat a mod 4 = 0 \<Longrightarrow> unat b mod 4 = 0 \<Longrightarrow> a \<noteq> b \<Longrightarrow> load32 (store32 m a w) b = load32 m b"
  by (intro load32_cong store32_outside word4_apart)

lemma PTE_ADDR_eq: "PTE_ADDR e = PGROUNDDOWN e"
  by (simp add: PTE_ADDR_def PGROUNDDOWN_def PGSIZE_def)

lemma mask_10: "(0x3FF :: uint) = mask 10"
  by (simp add: mask_eq_exp_minus_1)

lemma unat_index: "unat (drop_bit n (va :: uint) AND 0x3FF) = unat va div 2 ^ n mod 1024"
proof -
  have "drop_bit n va AND 0x3FF = take_bit 10 (drop_bit n va)"
    by (simp only: mask_10 take_bit_eq_mask)
  also have "\<dots> = drop_bit n va mod 1024" by (simp add: take_bit_eq_mod)
  finally show ?thesis by (simp only: unat_mod_distrib unat_drop_bit_eq) (simp add: drop_bit_eq_div)
qed

lemma unat_PTX: "unat (PTX va) = unat va div 4096 mod 1024"
  by (simp add: PTX_def unat_index)

lemma unat_PDX: "unat (PDX va) = unat va div 4194304"
proof -
  have "unat va div 4194304 < 1024" using unat_less32 [of va] by (simp add: less_mult_imp_div_less)
  then show ?thesis by (simp add: PDX_def unat_index)
qed

lemma index_less [simp]: "unat (PTX va) < 1024" "unat (PDX va) < 1024"
  using unat_less32 [of va] by (simp_all add: unat_PTX unat_PDX less_mult_imp_div_less)

text \<open>The two indexes identify the page.\<close>

lemma page_index: "PDX va = PDX vb \<and> PTX va = PTX vb \<longleftrightarrow> PGROUNDDOWN va = PGROUNDDOWN vb"
proof -
  have "unat va div 4194304 = unat va div 4096 div 1024" for va :: uint
    by (simp add: div_mult2_eq [symmetric])
  then have "unat va div 4096 = unat vb div 4096 \<longleftrightarrow>
      unat va div 4194304 = unat vb div 4194304 \<and> unat va div 4096 mod 1024 = unat vb div 4096 mod 1024"
    by (metis div_mult_mod_eq)
  moreover have "unat (PGROUNDDOWN va) = 4096 * (unat va div 4096)" for va
    by (simp add: unat_PGROUNDDOWN minus_mod_eq_mult_div)
  ultimately show ?thesis
    by (metis unat_PTX unat_PDX word_unat_eq_iff nat_mult_eq_cancel1 zero_less_numeral)
qed

lemma page_index_cong: "PGROUNDDOWN va = PGROUNDDOWN vb \<Longrightarrow> PDX va = PDX vb" "PGROUNDDOWN va = PGROUNDDOWN vb \<Longrightarrow> PTX va = PTX vb"
  using page_index by blast+

lemma entry_unat: "unat i < 1024 \<Longrightarrow> unat (4 * i :: uint) = 4 * unat i"
  by (subst unat_mult_lem [THEN iffD1]) simp_all

lemma entry_page:
  assumes "t mod PGSIZE = 0" "unat i < 1024" "k < 4"
  shows "PGROUNDDOWN (t + 4 * i + of_nat k) = t"
proof -
  have "unat (4 * i + of_nat k :: uint) = 4 * unat i + k"
    using assms(2,3) entry_unat [OF assms(2)] by (subst unat_add_lem [THEN iffD1]) simp_all
  then have "t + 4 * i + of_nat k - t < PGSIZE" using assms(2,3) by (simp add: word_less_nat_alt)
  then show ?thesis using in_page_iff [OF assms(1)] by blast
qed

lemma entry_aligned: "t mod PGSIZE = 0 \<Longrightarrow> unat i < 1024 \<Longrightarrow> unat (t + 4 * i :: uint) mod 4 = 0"
proof -
  assume t: "t mod PGSIZE = 0" and i: "unat i < 1024"
  then obtain q where q: "unat t = 4096 * q" by (auto simp: aligned_iff)
  then have "unat t + unat (4 * i) < 4294967296" using i unat_less32 [of t] by (simp add: entry_unat)
  then have "unat (t + 4 * i) = unat t + 4 * unat i" using entry_unat [OF i]
    by (subst unat_add_lem [THEN iffD1]) simp_all
  also have "\<dots> = 4 * (1024 * q + unat i)" using q by simp
  finally show ?thesis by simp
qed

lemma entry_inj:
  assumes "t mod PGSIZE = 0" "u mod PGSIZE = 0" "unat i < 1024" "unat j < 1024"
  shows "t + 4 * i = u + 4 * j \<longleftrightarrow> t = u \<and> (i :: uint) = j"
proof
  assume eq: "t + 4 * i = u + 4 * j"
  then have "t = u" using entry_page [OF assms(1,3), of 0] entry_page [OF assms(2,4), of 0] by simp
  moreover from this eq have "4 * i = 4 * j" by simp
  then have "unat i = unat j" using entry_unat [OF assms(3)] entry_unat [OF assms(4)] by simp
  ultimately show "t = u \<and> i = j" by (simp add: word_unat_eq_iff)
qed simp

section \<open>What the hardware sees\<close>

text \<open>The table a directory entry refers to, and the entry found for a virtual address (0: none).\<close>

definition table_of :: "bmem \<Rightarrow> uint \<Rightarrow> uint \<Rightarrow> uint option" where
  "table_of m pgdir i = (let e = load32 m (pgdir + 4 * i) in
     if has e PTE_P then Some (p2v (PTE_ADDR e)) else None)"

definition lookup :: "bmem \<Rightarrow> uint \<Rightarrow> uint \<Rightarrow> uint" where
  "lookup m pgdir va = (case table_of m pgdir (PDX va) of None \<Rightarrow> 0 | Some t \<Rightarrow> load32 m (t + 4 * PTX va))"

definition pt_pages :: "bmem \<Rightarrow> uint \<Rightarrow> uint set" where
  "pt_pages m pgdir = insert pgdir {t. \<exists>i. unat i < 1024 \<and> table_of m pgdir i = Some t}"

text \<open>The pages of a table tree are distinct and none of them is free.\<close>

definition pgdir_ok :: "bmem \<Rightarrow> uint \<Rightarrow> uint list \<Rightarrow> bool" where
  "pgdir_ok m pgdir fl \<longleftrightarrow> pgdir mod PGSIZE = 0 \<and> pt_pages m pgdir \<inter> set fl = {}
     \<and> (\<forall>i. unat i < 1024 \<longrightarrow> table_of m pgdir i \<noteq> Some pgdir)
     \<and> (\<forall>i j t. unat i < 1024 \<longrightarrow> unat j < 1024 \<longrightarrow> table_of m pgdir i = Some t \<longrightarrow> table_of m pgdir j = Some t
          \<longrightarrow> i = j)"

lemma p2v_v2p [simp]: "p2v (v2p a) = a" "v2p (p2v a) = a"
  by (simp_all add: p2v_def v2p_def)

lemma p2v_eq_v2p: "p2v a = v2p a"
  by (simp add: p2v_def v2p_def KERNBASE_def)

lemma p2v_aligned: "a mod PGSIZE = 0 \<Longrightarrow> p2v a mod PGSIZE = 0"
proof -
  assume "a mod PGSIZE = 0"
  then have "4096 dvd unat a" by (simp add: aligned_iff)
  moreover have "unat (p2v a) = (if unat a < 2147483648 then unat a + 2147483648 else unat a - 2147483648)"
    using unat_less32 [of a] by (simp add: p2v_def KERNBASE_def unat_word_ariths le_mod_geq less_imp_diff_less)
  ultimately have "4096 dvd unat (p2v a)" by (auto intro: dvd_diff_nat dvd_add)
  then show ?thesis by (simp add: aligned_iff)
qed

lemma table_aligned: "table_of m pgdir i = Some t \<Longrightarrow> t mod PGSIZE = 0"
  by (auto simp: table_of_def Let_def PTE_ADDR_eq p2v_aligned split: if_splits)

lemma PGROUNDDOWN_or:
  assumes "a mod PGSIZE = 0" "fl < PGSIZE"
  shows "PGROUNDDOWN (a OR fl) = a"
proof -
  have "take_bit 12 a = 0" using assms(1) by (simp add: PGSIZE_def take_bit_eq_mod)
  moreover have "take_bit 12 fl = fl"
    using assms(2) by (simp add: PGSIZE_def take_bit_eq_mod word_less_nat_alt word_unat_eq_iff unat_mod_distrib)
  moreover have "(a OR fl) AND NOT (mask 12) = a" if "take_bit 12 a = 0" "take_bit 12 fl = fl"
  proof (rule bit_word_eqI)
    fix n assume "n < LENGTH(32)"
    have "bit fl n \<Longrightarrow> n < 12" "bit a n \<Longrightarrow> \<not> n < 12"
      using that(1,2) by (metis bit_take_bit_iff) (metis that(1) bit_take_bit_iff bit_0_eq bot_apply bot_bool_def)
    then show "bit ((a OR fl) AND NOT (mask 12)) n = bit a n"
      using \<open>n < LENGTH(32)\<close> by (auto simp: bit_simps)
  qed
  ultimately show ?thesis unfolding PGROUNDDOWN_def page_mask by blast
qed

lemma has_or: "has (a OR PTE_P OR b) PTE_P" "has (a OR b OR PTE_P) PTE_P"
proof -
  have "bit ((a OR PTE_P OR b) AND PTE_P) 0" "bit ((a OR b OR PTE_P) AND PTE_P) 0" 
    by (auto simp: PTE_P_def bit_simps)
  then show "has (a OR PTE_P OR b) PTE_P" "has (a OR b OR PTE_P) PTE_P" by (auto simp: has_def)
qed

text \<open>A store in one entry of a table tree.\<close>

lemma load_entry_other:
  assumes "t mod PGSIZE = 0" "u mod PGSIZE = 0" "unat i < 1024" "unat j < 1024" "(t, i) \<noteq> (u, j)"
  shows "load32 (store32 m (t + 4 * i) w) (u + 4 * j) = load32 m (u + 4 * j)"
  using assms entry_inj [OF assms(1-4)] entry_aligned by (intro load32_store32_other) auto

lemma load_page_cong:
  assumes "t mod PGSIZE = 0" "unat i < 1024" "\<And>a. PGROUNDDOWN a = t \<Longrightarrow> m' a = m a"
  shows "load32 m' (t + 4 * i) = load32 m (t + 4 * i)"
  by (intro load32_cong assms(3) entry_page assms(1,2))

lemma kmem_rep_store:
  assumes "kmem_rep s fl" "\<And>a. PGROUNDDOWN a \<in> set fl \<Longrightarrow> m' a = mem s a"
  shows "kmem_rep (s\<lparr>mem := m'\<rparr>) fl"
proof -
  have "load32 m' v = load32 (mem s) v" if "v \<in> set fl" for v
    using load_page_cong [of v 0 m' "mem s"] assms that by (auto simp: kmem_rep_def page_ok_def)
  then have "chain (free_next m') (ptr (freelist s)) fl"
    using assms(1) by (subst chain_cong [where g = "free_next (mem s)"]) (auto simp: kmem_rep_def)
  with assms(1) show ?thesis by (simp add: kmem_rep_def)
qed

text \<open>A write to an entry of a table, and the allocation of a table.\<close>

lemma pgdir_okD:
  assumes "pgdir_ok m pgdir fl"
  shows "pgdir mod PGSIZE = 0" "pgdir \<notin> set fl" "unat i < 1024 \<Longrightarrow> table_of m pgdir i \<noteq> Some pgdir"
    "unat i < 1024 \<Longrightarrow> table_of m pgdir i = Some t \<Longrightarrow> t \<notin> set fl"
    "unat i < 1024 \<Longrightarrow> unat j < 1024 \<Longrightarrow> table_of m pgdir i = Some t \<Longrightarrow> table_of m pgdir j = Some t \<Longrightarrow> i = j"
  using assms by (auto simp: pgdir_ok_def pt_pages_def)

lemma store_entry_frame:
  assumes "t mod PGSIZE = 0" "unat i < 1024" "PGROUNDDOWN a \<noteq> t"
  shows "store32 m (t + 4 * i) w a = m a"
proof -
  have "\<not> a - (t + 4 * i) < 4"
  proof
    assume "a - (t + 4 * i) < 4"
    define k where "k = unat (a - (t + 4 * i))"
    have "k < 4" using \<open>a - (t + 4 * i) < 4\<close> by (simp add: k_def word_less_nat_alt)
    moreover have "a = t + 4 * i + of_nat k" by (simp add: k_def)
    ultimately have "PGROUNDDOWN a = t" using entry_page [OF assms(1,2), of k] by simp
    with assms(3) show False by simp
  qed
  then show ?thesis by (rule store32_outside)
qed

lemma put_entry:
  assumes ok: "pgdir_ok m pgdir fl" and t: "table_of m pgdir (PDX va) = Some t"
    and m'_def: "m' = store32 m (t + 4 * PTX va) w"
  shows "unat i < 1024 \<Longrightarrow> table_of m' pgdir i = table_of m pgdir i"
    "lookup m' pgdir vb = (if PGROUNDDOWN vb = PGROUNDDOWN va then w else lookup m pgdir vb)"
    "pgdir_ok m' pgdir fl" "pt_pages m' pgdir = pt_pages m pgdir"
    "PGROUNDDOWN a \<noteq> t \<Longrightarrow> m' a = m a"
proof -
  note ta = table_aligned [OF t] and da = pgdir_okD(1) [OF ok]
  have tn: "t \<noteq> pgdir" using pgdir_okD(3) [OF ok, of "PDX va"] t by auto
  show tab: "table_of m' pgdir i = table_of m pgdir i" if "unat i < 1024" for i
    unfolding m'_def table_of_def using load_entry_other [OF ta da] tn that by simp
  show "lookup m' pgdir vb = (if PGROUNDDOWN vb = PGROUNDDOWN va then w else lookup m pgdir vb)"
  proof (cases "table_of m pgdir (PDX vb)")
    case None
    with t have "PDX vb \<noteq> PDX va" by auto
    then have "PGROUNDDOWN vb \<noteq> PGROUNDDOWN va" using page_index_cong(1) by blast
    then show ?thesis using None tab by (simp add: lookup_def)
  next
    case (Some u)
    show ?thesis
    proof (cases "PGROUNDDOWN vb = PGROUNDDOWN va")
      case True
      then have "load32 m' (u + 4 * PTX vb) = w"
        using page_index_cong [OF True] t Some by (simp add: m'_def)
      with True Some show ?thesis by (simp add: lookup_def tab)
    next
      case False
      then have "(t, PTX va) \<noteq> (u, PTX vb)"
        using pgdir_okD(5) [OF ok _ _ t, of "PDX vb"] Some page_index [of va vb] by auto
      then have "load32 m' (u + 4 * PTX vb) = load32 m (u + 4 * PTX vb)"
        using load_entry_other [OF ta table_aligned [OF Some]] by (simp add: m'_def)
      with False Some show ?thesis by (simp add: lookup_def tab)
    qed
  qed
  show pt: "pt_pages m' pgdir = pt_pages m pgdir" using tab by (auto simp: pt_pages_def)
  show "pgdir_ok m' pgdir fl" using ok tab pt by (simp add: pgdir_ok_def)
  show "m' a = m a" if "PGROUNDDOWN a \<noteq> t" for a
    unfolding m'_def by (rule store_entry_frame [OF ta _ that]) simp
qed

lemma load32_zero:
  assumes "t mod PGSIZE = 0" "unat i < 1024"
  shows "load32 (memset m t 0 PGSIZE) (t + 4 * i) = 0"
proof -
  have "memset m t 0 PGSIZE (t + 4 * i + of_nat k) = 0" if "k < 4" for k
  proof -
    have "t + 4 * i + of_nat k - t < PGSIZE"
      using entry_page [OF assms that] in_page_iff [OF assms(1), of "t + 4 * i + of_nat k"] by blast
    then show ?thesis by (simp only: memset_apply if_True) simp
  qed
  then have "load32 (memset m t 0 PGSIZE) (t + 4 * i) = load32 (\<lambda>_. 0) (t + 4 * i)" by (intro load32_cong)
  then show ?thesis by (simp add: load32_def)
qed

lemma memset_other: "t mod PGSIZE = 0 \<Longrightarrow> PGROUNDDOWN a \<noteq> t \<Longrightarrow> memset m t v PGSIZE a = m a"
  by (simp add: memset_apply in_page_iff)

lemma new_table:
  assumes ok: "pgdir_ok m pgdir (t # fl)" and t: "t mod PGSIZE = 0" "t \<notin> set fl"
    and none: "table_of m pgdir (PDX va) = None"
    and m': "m' = store32 (memset m t 0 PGSIZE) (pgdir + 4 * PDX va) (v2p t OR PTE_P OR PTE_W OR PTE_U)"
  shows "unat i < 1024 \<Longrightarrow> table_of m' pgdir i = (if i = PDX va then Some t else table_of m pgdir i)"
    "lookup m' pgdir vb = lookup m pgdir vb" "pgdir_ok m' pgdir fl"
    "pt_pages m' pgdir = insert t (pt_pages m pgdir)"
    "PGROUNDDOWN a \<noteq> t \<Longrightarrow> PGROUNDDOWN a \<noteq> pgdir \<Longrightarrow> m' a = m a"
proof -
  note da = pgdir_okD(1) [OF ok]
  have tn: "t \<noteq> pgdir" using pgdir_okD(2) [OF ok] by auto
  have new: "PTE_ADDR (v2p t OR PTE_P OR PTE_W OR PTE_U) = v2p t"
    unfolding PTE_ADDR_eq using t(1) p2v_aligned [of t]
    by (intro PGROUNDDOWN_or) (simp_all add: PTE_P_def PTE_W_def PTE_U_def PGSIZE_def p2v_eq_v2p)
  have other: "load32 m' (u + 4 * i) = load32 m (u + 4 * i)"
    if "u mod PGSIZE = 0" "unat i < 1024" "u \<noteq> t" "(pgdir, PDX va) \<noteq> (u, i)" for u i
  proof -
    have "load32 m' (u + 4 * i) = load32 (memset m t 0 PGSIZE) (u + 4 * i)"
      unfolding m' by (rule load_entry_other [OF da that(1) _ that(2,4)]) simp
    also have "\<dots> = load32 m (u + 4 * i)"
      by (rule load_page_cong [OF that(1,2)]) (use t(1) that(3) memset_other in auto)
    finally show ?thesis .
  qed
  show tab: "table_of m' pgdir i = (if i = PDX va then Some t else table_of m pgdir i)" if "unat i < 1024" for i
  proof (cases "i = PDX va")
    case True
    then have "load32 m' (pgdir + 4 * i) = v2p t OR PTE_P OR PTE_W OR PTE_U" by (simp add: m')
    with True new has_or(1) show ?thesis by (simp add: table_of_def)
  next
    case False
    with other [OF da that tn [symmetric]] show ?thesis by (simp add: table_of_def)
  qed
  show "lookup m' pgdir vb = lookup m pgdir vb"
  proof (cases "PDX vb = PDX va")
    case True
    have "load32 m' (t + 4 * PTX vb) = load32 (memset m t 0 PGSIZE) (t + 4 * PTX vb)"
      unfolding m' by (rule load_entry_other [OF da t(1)]) (use tn in auto)
    with True none show ?thesis by (simp add: lookup_def tab load32_zero [OF t(1)])
  next
    case False
    have "load32 m' (u + 4 * PTX vb) = load32 m (u + 4 * PTX vb)" if "table_of m pgdir (PDX vb) = Some u" for u
      using that pgdir_okD(3,4) [OF ok, of "PDX vb"] by (intro other table_aligned [OF that]) auto
    with False show ?thesis by (simp add: lookup_def tab split: option.splits)
  qed
  show pt: "pt_pages m' pgdir = insert t (pt_pages m pgdir)"
  proof -
    have "{u. \<exists>i. unat i < 1024 \<and> table_of m' pgdir i = Some u}
        = insert t {u. \<exists>i. unat i < 1024 \<and> table_of m pgdir i = Some u}"
    proof (intro set_eqI iffI)
      fix u assume "u \<in> insert t {u. \<exists>i. unat i < 1024 \<and> table_of m pgdir i = Some u}"
      then consider "u = t" | i where "unat i < 1024" "table_of m pgdir i = Some u" by blast
      then show "u \<in> {u. \<exists>i. unat i < 1024 \<and> table_of m' pgdir i = Some u}"
      proof cases
        case 1
        then show ?thesis using tab [of "PDX va"] by (auto intro!: exI [of _ "PDX va"])
      next
        case (2 i)
        then have "i \<noteq> PDX va" using none by auto
        with 2 tab [of i] show ?thesis by auto
      qed
    qed (use tab in \<open>auto split: if_splits\<close>)
    then show ?thesis by (auto simp: pt_pages_def)
  qed
  show "pgdir_ok m' pgdir fl"
    unfolding pgdir_ok_def
  proof (intro conjI allI impI)
    show "pt_pages m' pgdir \<inter> set fl = {}" using ok t(2) by (auto simp: pt pgdir_ok_def)
    show "table_of m' pgdir i \<noteq> Some pgdir" if "unat i < 1024" for i
      using pgdir_okD(3) [OF ok that] tn by (simp add: tab [OF that])
    show "i = j" if "unat i < 1024" "unat j < 1024" "table_of m' pgdir i = Some u" "table_of m' pgdir j = Some u" for i j u
      using pgdir_okD(5) [OF ok that(1,2)] pgdir_okD(4) [OF ok that(1)] pgdir_okD(4) [OF ok that(2)] that(3,4)
      by (auto simp: tab [OF that(1)] tab [OF that(2)] split: if_splits)
  qed (rule da)
  show "m' a = m a" if "PGROUNDDOWN a \<noteq> t" "PGROUNDDOWN a \<noteq> pgdir" for a
    unfolding m' using store_entry_frame [OF da _ that(2), of "PDX va"] memset_other [OF t(1) that(1)] by simp
qed

text \<open>
  A run that only extends the tree of \<open>pgdir\<close> and takes the pages for it from the front of the free
  list: memory outside the tree is untouched.
\<close>

definition pt_run :: "uint \<Rightarrow> 'z kmem_scheme \<Rightarrow> uint list \<Rightarrow> 'z kmem_scheme \<Rightarrow> uint list \<Rightarrow> bool" where
  "pt_run pgdir s fl s' fl' \<longleftrightarrow> kmem_rep s' fl' \<and> pgdir_ok (mem s') pgdir fl'
     \<and> (\<exists>us. fl = us @ fl' \<and> pt_pages (mem s') pgdir = set us \<union> pt_pages (mem s) pgdir)
     \<and> (\<forall>a. PGROUNDDOWN a \<notin> pt_pages (mem s') pgdir \<longrightarrow> mem s' a = mem s a)
     \<and> (\<exists>m f. s' = s\<lparr>mem := m, freelist := f\<rparr>)"

lemma pt_run_refl: "kmem_rep s fl \<Longrightarrow> pgdir_ok (mem s) pgdir fl \<Longrightarrow> pt_run pgdir s fl s fl"
  unfolding pt_run_def by (auto intro!: exI [of _ "mem s"] exI [of _ "freelist s"])

lemma pt_run_trans:
  assumes "pt_run pgdir s fl t fl'" "pt_run pgdir t fl' u fl''"
  shows "pt_run pgdir s fl u fl''"
proof -
  obtain us where us: "fl = us @ fl'" "pt_pages (mem t) pgdir = set us \<union> pt_pages (mem s) pgdir"
    using assms(1) by (auto simp: pt_run_def)
  obtain vs where vs: "fl' = vs @ fl''" "pt_pages (mem u) pgdir = set vs \<union> pt_pages (mem t) pgdir"
    using assms(2) by (auto simp: pt_run_def)
  have "mem u a = mem s a" if "PGROUNDDOWN a \<notin> pt_pages (mem u) pgdir" for a
    using that assms vs(2) by (auto simp: pt_run_def)
  moreover have "\<exists>m f. u = s\<lparr>mem := m, freelist := f\<rparr>"
  proof -
    obtain m f m' f' where "t = s\<lparr>mem := m, freelist := f\<rparr>" "u = t\<lparr>mem := m', freelist := f'\<rparr>"
      using assms unfolding pt_run_def by blast
    then have "u = s\<lparr>mem := m', freelist := f'\<rparr>" by simp
    then show ?thesis by blast
  qed
  moreover have "fl = (us @ vs) @ fl''" "pt_pages (mem u) pgdir = set (us @ vs) \<union> pt_pages (mem s) pgdir"
    using us vs by auto
  ultimately show ?thesis using assms(2) unfolding pt_run_def by blast
qed

lemma put_entry_run:
  assumes rep: "kmem_rep s fl" and ok: "pgdir_ok (mem s) pgdir fl" and t: "table_of (mem s) pgdir (PDX va) = Some t"
    and s'_def: "s' = s\<lparr>mem := store32 (mem s) (t + 4 * PTX va) w\<rparr>"
  shows "put32 (t + 4 * PTX va) w s = Ret () s'" "pt_run pgdir s fl s' fl"
    "lookup (mem s') pgdir vb = (if PGROUNDDOWN vb = PGROUNDDOWN va then w else lookup (mem s) pgdir vb)"
    "unat i < 1024 \<Longrightarrow> table_of (mem s') pgdir i = table_of (mem s) pgdir i"
proof -
  show "put32 (t + 4 * PTX va) w s = Ret () s'" by (simp add: put32_def s'_def kmonad)
  have m: "mem s' = store32 (mem s) (t + 4 * PTX va) w" by (simp add: s'_def)
  note p = put_entry [OF ok t m]
  show "lookup (mem s') pgdir vb = (if PGROUNDDOWN vb = PGROUNDDOWN va then w else lookup (mem s) pgdir vb)"
    "unat i < 1024 \<Longrightarrow> table_of (mem s') pgdir i = table_of (mem s) pgdir i"
    by (rule p)+
  have tin: "t \<in> pt_pages (mem s) pgdir" using t index_less(2) [of va] by (auto simp: pt_pages_def simp del: index_less)
  have "t \<notin> set fl" using pgdir_okD(4) [OF ok _ t] by simp
  then have "kmem_rep (s\<lparr>mem := mem s'\<rparr>) fl"
    by (intro kmem_rep_store [OF rep]) (rule p(5), blast)
  then have "kmem_rep s' fl" by (simp add: s'_def)
  moreover have "\<exists>m f. s' = s\<lparr>mem := m, freelist := f\<rparr>"
    by (intro exI [of _ "mem s'"] exI [of _ "freelist s"]) (simp add: s'_def)
  ultimately show "pt_run pgdir s fl s' fl"
    unfolding pt_run_def using p(3,4) p(5) tin by (metis Un_empty_left append_Nil empty_set)
qed

lemma walkpgdir_find:
  "walkpgdir pgdir va False s = Ret (map_option (\<lambda>t. t + 4 * PTX va) (table_of (mem s) pgdir (PDX va))) s"
  by (simp add: walkpgdir_def table_of_def get32_def Let_def kmonad)

lemma walkpgdir_present:
  "table_of (mem s) pgdir (PDX va) = Some t \<Longrightarrow> walkpgdir pgdir va alloc s = Ret (Some (t + 4 * PTX va)) s"
  by (auto simp: walkpgdir_def table_of_def get32_def Let_def kmonad split: if_splits)

lemma walkpgdir_alloc:
  assumes rep: "kmem_rep s fl" and ok: "pgdir_ok (mem s) pgdir fl"
  obtains (found) t s' fl' where "walkpgdir pgdir va True s = Ret (Some (t + 4 * PTX va)) s'"
      "table_of (mem s') pgdir (PDX va) = Some t" "pt_run pgdir s fl s' fl'"
      "\<And>vb. lookup (mem s') pgdir vb = lookup (mem s) pgdir vb" "length fl \<le> Suc (length fl')"
      "\<And>i u. unat i < 1024 \<Longrightarrow> table_of (mem s) pgdir i = Some u \<Longrightarrow> table_of (mem s') pgdir i = Some u"
  | (full) "fl = []" "table_of (mem s) pgdir (PDX va) = None" "walkpgdir pgdir va True s = Ret None s"
proof (cases "table_of (mem s) pgdir (PDX va)")
  case (Some t)
  show ?thesis
    by (rule found [OF walkpgdir_present [OF Some] Some pt_run_refl [OF rep ok]]) simp_all
next
  case None
  then have absent: "\<not> has (load32 (mem s) (pgdir + 4 * PDX va)) PTE_P"
    by (auto simp: table_of_def Let_def split: if_splits)
  show ?thesis
  proof (cases fl)
    case Nil
    with rep have "kalloc s = Ret None s" using kalloc_run [of s] by (auto simp: kmem_rep_def ptr_eq)
    with absent have "walkpgdir pgdir va True s = Ret None s" by (simp add: walkpgdir_def get32_def Let_def kmonad)
    with Nil None show ?thesis by (rule full)
  next
    case (Cons t fl')
    let ?f = "load32 (mem s) t"
    define s' where "s' = s\<lparr>freelist := ?f, mem := store32 (memset (mem s) t 0 PGSIZE) (pgdir + 4 * PDX va) (v2p t OR PTE_P OR PTE_W OR PTE_U)\<rparr>"
    have m: "mem s' = store32 (memset (mem s) t 0 PGSIZE) (pgdir + 4 * PDX va) (v2p t OR PTE_P OR PTE_W OR PTE_U)"
      by (simp add: s'_def)
    note rep' = kalloc_rep [OF rep [unfolded Cons]]
    have t: "t mod PGSIZE = 0" "t \<notin> set fl'" using rep Cons by (auto simp: kmem_rep_def page_ok_def)
    note n = new_table [OF ok [unfolded Cons] t None m]
    have run: "walkpgdir pgdir va True s = Ret (Some (t + 4 * PTX va)) s'"
      using absent rep'(1) by (simp add: walkpgdir_def get32_def put32_def zero_page_def Let_def kmonad s'_def)
    have tab: "table_of (mem s') pgdir (PDX va) = Some t" by (simp add: n(1))
    have "pgdir \<notin> set fl'" using pgdir_okD(2) [OF ok] Cons by simp
    then have "kmem_rep (s\<lparr>freelist := ?f\<rparr>\<lparr>mem := mem s'\<rparr>) fl'"
      by (intro kmem_rep_store [OF rep'(2)]) (simp, rule n(5), use t(2) in blast, blast)
    then have rep2: "kmem_rep s' fl'" by (simp add: s'_def)
    have ext: "\<exists>m f. s' = s\<lparr>mem := m, freelist := f\<rparr>"
      by (intro exI [of _ "mem s'"] exI [of _ ?f]) (simp add: s'_def)
    have pages: "fl = [t] @ fl'" "pt_pages (mem s') pgdir = set [t] \<union> pt_pages (mem s) pgdir"
      using Cons n(4) by simp_all
    have frame: "mem s' a = mem s a" if "PGROUNDDOWN a \<notin> pt_pages (mem s') pgdir" for a
    proof -
      have "PGROUNDDOWN a \<noteq> t" using that unfolding n(4) by blast
      moreover have "PGROUNDDOWN a \<noteq> pgdir" using that by (auto simp: pt_pages_def)
      ultimately show ?thesis by (rule n(5))
    qed
    have "pt_run pgdir s fl s' fl'" unfolding pt_run_def using rep2 n(3) ext pages frame by blast
    moreover have "table_of (mem s') pgdir i = Some u" if "unat i < 1024" "table_of (mem s) pgdir i = Some u" for i u
      using n(1) [OF that(1)] that(2) None by auto
    ultimately show ?thesis using found [OF run tab _ n(2)] Cons by simp
  qed
qed

text \<open>The entries after \<open>k\<close> pages from \<open>a\<close> have been mapped to the pages from \<open>pa\<close>.\<close>

definition mapped :: "bmem \<Rightarrow> uint \<Rightarrow> uint \<Rightarrow> nat \<Rightarrow> uint \<Rightarrow> uint \<Rightarrow> uint \<Rightarrow> uint" where
  "mapped m pgdir a k pa perm va = (if unat (PGROUNDDOWN va - a) < 4096 * k
     then (pa + (PGROUNDDOWN va - a)) OR perm OR PTE_P else lookup m pgdir va)"

lemma aligned_diff:
  fixes a p :: uint
  assumes "a mod PGSIZE = 0" "p mod PGSIZE = 0"
  shows "4096 dvd unat (p - a)"
proof (cases "a \<le> p")
  case True
  then show ?thesis using assms by (simp add: unat_sub aligned_iff dvd_diff_nat)
next
  case False
  then have "unat (p - a) = unat p + 4294967296 - unat a" by (simp add: unat_sub_if' word_le_nat_alt)
  then show ?thesis using assms by (simp add: aligned_iff dvd_diff_nat)
qed

lemma next_page:
  fixes a p :: uint
  assumes "a mod PGSIZE = 0" "p mod PGSIZE = 0" "4096 * k < 4294967296"
  shows "unat (p - (a + PGSIZE)) < 4096 * k \<longleftrightarrow> p \<noteq> a \<and> unat (p - a) < 4096 * Suc k"
proof (cases "p = a")
  case True
  have "unat (- 4096 :: uint) = 4294963200" by (simp add: unat_word_ariths)
  then show ?thesis using True assms(3) by (simp add: PGSIZE_def)
next
  case False
  obtain q where q: "unat (p - a) = 4096 * q" using aligned_diff [OF assms(1,2)] by (auto elim: dvdE)
  have "unat (p - a) \<noteq> 0" using False by (simp add: unat_eq_0)
  with q have "q \<noteq> 0" by auto
  then have "unat (p - a - PGSIZE) = 4096 * q - 4096"
    by (subst unat_sub) (simp_all add: word_le_nat_alt q)
  moreover have "p - (a + PGSIZE) = p - a - PGSIZE" by simp
  ultimately show ?thesis using False q \<open>q \<noteq> 0\<close> by (simp only:) auto
qed

lemma aligned_add: "(a :: uint) mod PGSIZE = 0 \<Longrightarrow> b mod PGSIZE = 0 \<Longrightarrow> (a + b) mod PGSIZE = 0"
  unfolding aligned_iff by (simp add: unat_word_ariths dvd_mod)

lemma next_aligned: "(a :: uint) mod PGSIZE = 0 \<Longrightarrow> (a + PGSIZE) mod PGSIZE = 0"
  by (rule aligned_add) simp_all

lemma page_zero_offset:
  fixes a p :: uint
  assumes "a mod PGSIZE = 0" "p mod PGSIZE = 0"
  shows "unat (p - a) < 4096 \<longleftrightarrow> p = a"
proof -
  obtain q where "unat (p - a) = 4096 * q" using aligned_diff [OF assms] by (auto elim: dvdE)
  then show ?thesis by (auto simp: unat_eq_0)
qed

lemma mappages_step:
  assumes rep: "kmem_rep s fl" and ok: "pgdir_ok (mem s) pgdir fl" and a: "a mod PGSIZE = 0"
    and absent: "\<not> has (lookup (mem s) pgdir a) PTE_P"
  obtains (page) s' fl' where "mappages_loop (Suc n) pgdir a l pa perm s =
        (if a = l then Ret 0 s' else mappages_loop n pgdir (a + PGSIZE) l (pa + PGSIZE) perm s')"
      "pt_run pgdir s fl s' fl'" "\<And>vb. lookup (mem s') pgdir vb = mapped (mem s) pgdir a 1 pa perm vb"
      "length fl \<le> Suc (length fl')"
  | (full) "mappages_loop (Suc n) pgdir a l pa perm s = Ret (- 1) s" "fl = []"
      "table_of (mem s) pgdir (PDX a) = None"
  using rep ok
proof (cases rule: walkpgdir_alloc [where va = a])
  case (found t s1 fl1)
  have rep1: "kmem_rep s1 fl1" and ok1: "pgdir_ok (mem s1) pgdir fl1" using found(3) by (auto simp: pt_run_def)
  have "load32 (mem s1) (t + 4 * PTX a) = lookup (mem s1) pgdir a" using found(2) by (simp add: lookup_def)
  with found(4) absent have na: "\<not> has (load32 (mem s1) (t + 4 * PTX a)) PTE_P" by simp
  define s2 where s2: "s2 = s1\<lparr>mem := store32 (mem s1) (t + 4 * PTX a) (pa OR perm OR PTE_P)\<rparr>"
  note p = put_entry_run [OF rep1 ok1 found(2) s2]
  have "mappages_loop (Suc n) pgdir a l pa perm s =
      (if a = l then Ret 0 s2 else mappages_loop n pgdir (a + PGSIZE) l (pa + PGSIZE) perm s2)"
    using found(1) na p(1) by (simp add: kmonad get32_def)
  moreover have "lookup (mem s2) pgdir vb = mapped (mem s) pgdir a 1 pa perm vb" for vb
  proof -
    have "PGROUNDDOWN a = a" using a by (simp add: PGROUNDDOWN_eq)
    then show ?thesis using p(3) [of vb] found(4) page_zero_offset [OF a, of "PGROUNDDOWN vb"]
      by (simp add: mapped_def)
  qed
  ultimately show ?thesis using page pt_run_trans [OF found(3) p(2)] found(5) by blast
next
  case full
  with that(2) show ?thesis by (simp add: kmonad)
qed

lemma mapped_Suc:
  assumes "a mod PGSIZE = 0" "4096 * k < 4294967296" "\<And>vb. lookup m' pgdir vb = mapped m pgdir a 1 pa perm vb"
  shows "mapped m' pgdir (a + PGSIZE) k (pa + PGSIZE) perm vb = mapped m pgdir a (Suc k) pa perm vb"
proof (cases "PGROUNDDOWN vb = a")
  case True
  then show ?thesis using next_page [OF assms(1) _ assms(2), of a] assms(1,3) by (simp add: mapped_def)
next
  case False
  moreover have "\<not> unat (PGROUNDDOWN vb - a) < 4096" using False page_zero_offset [OF assms(1)] by simp
  ultimately show ?thesis using next_page [OF assms(1) _ assms(2), of "PGROUNDDOWN vb"] assms(3) [of vb]
    by (simp add: mapped_def)
qed

lemma mappages_loop_run:
  assumes "kmem_rep s fl" "pgdir_ok (mem s) pgdir fl" "a mod PGSIZE = 0" "4096 * k < 4294967296" "k < n"
    "\<And>vb. unat (PGROUNDDOWN vb - a) < 4096 * Suc k \<Longrightarrow> \<not> has (lookup (mem s) pgdir vb) PTE_P"
  shows "(\<exists>s' fl'. mappages_loop n pgdir a (a + of_nat (4096 * k)) pa perm s = Ret 0 s' \<and>
      pt_run pgdir s fl s' fl' \<and> (\<forall>vb. lookup (mem s') pgdir vb = mapped (mem s) pgdir a (Suc k) pa perm vb))
    \<or> (\<exists>s' j. mappages_loop n pgdir a (a + of_nat (4096 * k)) pa perm s = Ret (- 1) s' \<and>
      pt_run pgdir s fl s' [] \<and> j \<le> k \<and> (\<forall>vb. lookup (mem s') pgdir vb = mapped (mem s) pgdir a j pa perm vb))"
    (is "?P k n a pa s fl")
  using assms
proof (induction k arbitrary: n a pa s fl)
  case 0
  then obtain n' where n: "n = Suc n'" by (cases n) auto
  have "\<not> has (lookup (mem s) pgdir a) PTE_P" using 0(3) 0(6) [of a] by (simp add: PGROUNDDOWN_eq)
  with 0(1-3) show ?case
  proof (cases rule: mappages_step [where n = n' and l = a and pa = pa and perm = perm])
    case (page s' fl')
    then show ?thesis unfolding n by (intro disjI1 exI [of _ s'] exI [of _ fl']) simp
  next
    case full
    with 0(1,2) pt_run_refl show ?thesis unfolding n by (intro disjI2 exI [of _ s] exI [of _ 0]) (simp add: mapped_def)
  qed
next
  case (Suc k)
  then obtain n' where n: "n = Suc n'" by (cases n) auto
  let ?l = "a + of_nat (4096 * Suc k) :: uint"
  have l: "?l = (a + PGSIZE) + of_nat (4096 * k)" by (simp add: PGSIZE_def algebra_simps)
  have "unat (of_nat (4096 * Suc k) :: uint) = 4096 * Suc k" using Suc.prems(4) by (intro unat_of_nat32)
  then have ne: "a \<noteq> ?l" by (auto simp: unat_eq_0 [symmetric])
  have absent: "\<not> has (lookup (mem s) pgdir a) PTE_P" using Suc.prems(3) Suc.prems(6) [of a] by (simp add: PGROUNDDOWN_eq)
  from Suc.prems(1-3) absent show ?case
  proof (cases rule: mappages_step [where n = n' and l = ?l and pa = pa and perm = perm])
    case (page s1 fl1)
    have lt: "4096 * k < 4294967296" "4096 * Suc k < 4294967296" using Suc.prems(4) by simp_all
    have absent1: "\<not> has (lookup (mem s1) pgdir vb) PTE_P" if "unat (PGROUNDDOWN vb - (a + PGSIZE)) < 4096 * Suc k" for vb
    proof -
      have "PGROUNDDOWN vb \<noteq> a \<and> unat (PGROUNDDOWN vb - a) < 4096 * Suc (Suc k)"
        using that next_page [OF Suc.prems(3) _ lt(2), of "PGROUNDDOWN vb"] by simp
      then show ?thesis using page(3) [of vb] Suc.prems(6) [of vb] page_zero_offset [OF Suc.prems(3), of "PGROUNDDOWN vb"]
        by (simp add: mapped_def)
    qed
    have pre: "kmem_rep s1 fl1" "pgdir_ok (mem s1) pgdir fl1" "(a + PGSIZE) mod PGSIZE = 0" "k < n'"
      using page(2) Suc.prems(5) n next_aligned [OF Suc.prems(3)] by (simp_all add: pt_run_def)
    have "?P k n' (a + PGSIZE) (pa + PGSIZE) s1 fl1"
      by (rule Suc.IH [OF pre(1-3) lt(1) pre(4) absent1])
    then consider s' fl' where "mappages_loop n' pgdir (a + PGSIZE) ?l (pa + PGSIZE) perm s1 = Ret 0 s'"
        "pt_run pgdir s1 fl1 s' fl'"
        "\<forall>vb. lookup (mem s') pgdir vb = mapped (mem s1) pgdir (a + PGSIZE) (Suc k) (pa + PGSIZE) perm vb"
      | s' j where "mappages_loop n' pgdir (a + PGSIZE) ?l (pa + PGSIZE) perm s1 = Ret (- 1) s'"
        "pt_run pgdir s1 fl1 s' []" "j \<le> k"
        "\<forall>vb. lookup (mem s') pgdir vb = mapped (mem s1) pgdir (a + PGSIZE) j (pa + PGSIZE) perm vb"
      unfolding l by blast
    then show ?thesis
    proof cases
      case 1
      have "mapped (mem s1) pgdir (a + PGSIZE) (Suc k) (pa + PGSIZE) perm vb = mapped (mem s) pgdir a (Suc (Suc k)) pa perm vb" for vb
        by (rule mapped_Suc [OF Suc.prems(3) lt(2) page(3)])
      with 1 page(1) ne pt_run_trans [OF page(2) 1(2)] show ?thesis
        unfolding n by (intro disjI1 exI [of _ s'] exI [of _ fl']) simp
    next
      case 2
      have "mapped (mem s1) pgdir (a + PGSIZE) j (pa + PGSIZE) perm vb = mapped (mem s) pgdir a (Suc j) pa perm vb" for vb
        using 2(3) lt(1) by (intro mapped_Suc [OF Suc.prems(3) _ page(3)]) simp
      with 2 page(1) ne pt_run_trans [OF page(2) 2(2)] show ?thesis
        unfolding n by (intro disjI2 exI [of _ s'] exI [of _ "Suc j"]) simp
    qed
  next
    case full
    with Suc.prems(1,2) pt_run_refl show ?thesis unfolding n by (intro disjI2 exI [of _ s] exI [of _ 0]) (simp add: mapped_def)
  qed
qed

lemma page_range:
  fixes a l p :: uint
  assumes "a mod PGSIZE = 0" "l mod PGSIZE = 0" "p mod PGSIZE = 0" "a \<le> l"
  shows "unat (p - a) < 4096 * Suc (unat (l - a) div 4096) \<longleftrightarrow> a \<le> p \<and> p \<le> l"
proof -
  obtain q where q: "unat (l - a) = 4096 * q" using aligned_diff [OF assms(1,2)] by (auto elim: dvdE)
  obtain r where r: "unat (p - a) = 4096 * r" using aligned_diff [OF assms(1,3)] by (auto elim: dvdE)
  have "unat (p - a) < 4096 * Suc (unat (l - a) div 4096) \<longleftrightarrow> p - a \<le> l - a"
    unfolding word_le_nat_alt q r by auto
  also have "\<dots> \<longleftrightarrow> a \<le> p \<and> p \<le> l"
  proof (cases "a \<le> p")
    case True
    then show ?thesis using assms(4) by (simp add: word_le_nat_alt unat_sub) linarith
  next
    case False
    then have "unat (p - a) = unat p + 4294967296 - unat a" by (simp add: unat_sub_if' word_le_nat_alt)
    moreover have "unat (l - a) = unat l - unat a" using assms(4) by (simp add: unat_sub)
    ultimately show ?thesis using False unat_less32 [of l] unat_less32 [of a] assms(4)
      unfolding word_le_nat_alt by linarith
  qed
  finally show ?thesis .
qed

text \<open>What \<open>mappages\<close> does to the entries, on success and when the allocator has no page left for a table.\<close>

definition in_pages :: "uint \<Rightarrow> uint \<Rightarrow> uint \<Rightarrow> bool" where
  "in_pages va nbytes vb \<longleftrightarrow> PGROUNDDOWN va \<le> PGROUNDDOWN vb \<and> PGROUNDDOWN vb \<le> PGROUNDDOWN (va + nbytes - 1)"

lemma PGROUNDDOWN_mono: "a \<le> b \<Longrightarrow> PGROUNDDOWN a \<le> PGROUNDDOWN b"
proof -
  have "unat (PGROUNDDOWN a) = 4096 * (unat a div 4096)" for a
    by (simp add: unat_PGROUNDDOWN minus_mod_eq_mult_div)
  then show "a \<le> b \<Longrightarrow> PGROUNDDOWN a \<le> PGROUNDDOWN b" by (simp add: word_le_nat_alt div_le_mono)
qed

lemma mappages_run:
  assumes "kmem_rep s fl" "pgdir_ok (mem s) pgdir fl" "0 < nbytes" "unat va + unat nbytes \<le> 2 ^ 32"
    "\<And>vb. in_pages va nbytes vb \<Longrightarrow> \<not> has (lookup (mem s) pgdir vb) PTE_P"
  shows "\<exists>r s' fl'. mappages pgdir va nbytes pa perm s = Ret r s' \<and> pt_run pgdir s fl s' fl'
    \<and> (r = 0 \<and> (\<forall>vb. lookup (mem s') pgdir vb =
          (if in_pages va nbytes vb then (pa + (PGROUNDDOWN vb - PGROUNDDOWN va)) OR perm OR PTE_P
           else lookup (mem s) pgdir vb))
      \<or> r = - 1 \<and> fl' = [] \<and> (\<forall>vb. \<not> in_pages va nbytes vb \<longrightarrow> lookup (mem s') pgdir vb = lookup (mem s) pgdir vb)
        \<and> (\<exists>vb. in_pages va nbytes vb \<and> lookup (mem s') pgdir vb = lookup (mem s) pgdir vb))"
proof -
  let ?a = "PGROUNDDOWN va" and ?l = "PGROUNDDOWN (va + nbytes - 1)"
  define k where "k = unat (?l - ?a) div 4096"
  have "va \<le> va + nbytes - 1"
  proof -
    have "unat (nbytes - 1) = unat nbytes - 1" using assms(3) by (intro unat_minus_one) auto
    then have "unat va + unat (nbytes - 1) < 2 ^ 32" using assms(3,4) by (simp add: word_less_nat_alt)
    then have "unat (va + (nbytes - 1)) = unat va + unat (nbytes - 1)" by (simp add: unat_word_ariths)
    then show ?thesis by (simp add: word_le_nat_alt add_diff_eq)
  qed
  then have le: "?a \<le> ?l" by (rule PGROUNDDOWN_mono)
  obtain q where q: "unat (?l - ?a) = 4096 * q" using aligned_diff [of ?a ?l] by (auto elim: dvdE)
  have k: "4096 * k < 4294967296" "k < 2 ^ 20" using unat_less32 [of "?l - ?a"] by (simp_all add: k_def q)
  have "4096 * k = unat (?l - ?a)" using q by (simp add: k_def)
  then have "of_nat (4096 * k) = (of_nat (unat (?l - ?a)) :: uint)" by (rule arg_cong)
  also have "\<dots> = ?l - ?a" by simp
  finally have "?a + of_nat (4096 * k) = ?l" by (simp only:) simp
  moreover have range: "unat (PGROUNDDOWN vb - ?a) < 4096 * Suc k \<longleftrightarrow> in_pages va nbytes vb" for vb
    unfolding k_def in_pages_def by (rule page_range) (simp_all add: le)
  ultimately consider s' fl' where "mappages pgdir va nbytes pa perm s = Ret 0 s'" "pt_run pgdir s fl s' fl'"
      "\<forall>vb. lookup (mem s') pgdir vb = mapped (mem s) pgdir ?a (Suc k) pa perm vb"
    | s' j where "mappages pgdir va nbytes pa perm s = Ret (- 1) s'" "pt_run pgdir s fl s' []" "j \<le> k"
      "\<forall>vb. lookup (mem s') pgdir vb = mapped (mem s) pgdir ?a j pa perm vb"
    using mappages_loop_run [OF assms(1,2) _ k, of ?a pa perm] assms(5) unfolding mappages_def by auto
  then show ?thesis
  proof cases
    case 1
    then show ?thesis unfolding mapped_def range by (intro exI [of _ 0] exI [of _ s'] exI [of _ fl']) simp
  next
    case 2
    have "lookup (mem s') pgdir vb = lookup (mem s) pgdir vb" if "\<not> in_pages va nbytes vb" for vb
    proof -
      have "\<not> unat (PGROUNDDOWN vb - ?a) < 4096 * j" using that 2(3) range [of vb] by simp
      with 2(4) show ?thesis by (simp add: mapped_def)
    qed
    moreover have "in_pages va nbytes (?a + of_nat (4096 * j)) \<and>
        lookup (mem s') pgdir (?a + of_nat (4096 * j)) = lookup (mem s) pgdir (?a + of_nat (4096 * j))"
    proof -
      have u: "unat (of_nat (4096 * j) :: uint) = 4096 * j" using k(1) 2(3) by (intro unat_of_nat32) simp
      then have "(of_nat (4096 * j) :: uint) mod PGSIZE = 0" by (simp add: aligned_iff)
      then have "(?a + of_nat (4096 * j)) mod PGSIZE = 0" by (intro aligned_add) simp_all
      then have p: "PGROUNDDOWN (?a + of_nat (4096 * j)) - ?a = of_nat (4096 * j)" by (simp add: PGROUNDDOWN_eq)
      then have "unat (PGROUNDDOWN (?a + of_nat (4096 * j)) - ?a) < 4096 * Suc k"
        unfolding p u using 2(3) by simp
      moreover have "mapped (mem s) pgdir ?a j pa perm (?a + of_nat (4096 * j)) = lookup (mem s) pgdir (?a + of_nat (4096 * j))"
        unfolding mapped_def p u by simp
      ultimately show ?thesis using range 2(4) by simp
    qed
    ultimately show ?thesis using 2
      by (intro exI [of _ "- 1"] exI [of _ s'] exI [of _ "[]"]) auto
  qed
qed

section \<open>User address spaces\<close>

text \<open>
  \<open>uvm_ok\<close>: the page tables are well formed, and the pages behind the user addresses are pages of the
  allocator, each mapped once, none of them free and none part of the tables.
\<close>

definition upage :: "bmem \<Rightarrow> uint \<Rightarrow> uint \<Rightarrow> uint" where
  "upage m pgdir va = p2v (PTE_ADDR (lookup m pgdir va))"

definition umapped :: "bmem \<Rightarrow> uint \<Rightarrow> uint \<Rightarrow> bool" where
  "umapped m pgdir va \<longleftrightarrow> va < KERNBASE \<and> has (lookup m pgdir va) PTE_P"

definition uvm_ok :: "'z kmem_scheme \<Rightarrow> uint \<Rightarrow> uint list \<Rightarrow> bool" where
  "uvm_ok s pgdir fl \<longleftrightarrow> KERNBASE < kend s \<and> kmem_rep s fl \<and> pgdir_ok (mem s) pgdir fl
     \<and> (\<forall>t \<in> pt_pages (mem s) pgdir. page_ok s t)
     \<and> (\<forall>va. umapped (mem s) pgdir va \<longrightarrow> upage (mem s) pgdir va \<notin> set fl \<union> pt_pages (mem s) pgdir
          \<and> page_ok s (upage (mem s) pgdir va))
     \<and> (\<forall>va vb. umapped (mem s) pgdir va \<longrightarrow> umapped (mem s) pgdir vb
          \<longrightarrow> upage (mem s) pgdir va = upage (mem s) pgdir vb \<longrightarrow> PGROUNDDOWN va = PGROUNDDOWN vb)"

text \<open>The byte a user program finds at an address.\<close>

definition ubyte :: "bmem \<Rightarrow> uint \<Rightarrow> uint \<Rightarrow> u8" where
  "ubyte m pgdir va = m (upage m pgdir va + (va - PGROUNDDOWN va))"

lemma lookup_page: "PGROUNDDOWN va = PGROUNDDOWN vb \<Longrightarrow> lookup m pgdir va = lookup m pgdir vb"
  unfolding lookup_def by (simp only: page_index_cong [of va vb])

text \<open>Memory outside the tables does not matter to them.\<close>

lemma pt_frame:
  assumes d: "pgdir mod PGSIZE = 0" and same: "\<And>a. PGROUNDDOWN a \<in> pt_pages m pgdir \<Longrightarrow> m' a = m a"
  shows "unat i < 1024 \<Longrightarrow> table_of m' pgdir i = table_of m pgdir i" "lookup m' pgdir va = lookup m pgdir va"
    "pt_pages m' pgdir = pt_pages m pgdir" "pgdir_ok m' pgdir fl = pgdir_ok m pgdir fl"
proof -
  show tab: "table_of m' pgdir i = table_of m pgdir i" if "unat i < 1024" for i
  proof -
    have "load32 m' (pgdir + 4 * i) = load32 m (pgdir + 4 * i)"
      by (rule load_page_cong [OF d that]) (rule same, simp add: pt_pages_def)
    then show ?thesis by (simp add: table_of_def)
  qed
  show "lookup m' pgdir va = lookup m pgdir va"
  proof (cases "table_of m pgdir (PDX va)")
    case None
    then show ?thesis by (simp add: lookup_def tab)
  next
    case (Some t)
    then have "t \<in> pt_pages m pgdir" using index_less(2) [of va] unfolding pt_pages_def by blast
    then have "load32 m' (t + 4 * PTX va) = load32 m (t + 4 * PTX va)"
      using same by (intro load_page_cong [OF table_aligned [OF Some]]) simp_all
    with Some show ?thesis by (simp add: lookup_def tab)
  qed
  show pt: "pt_pages m' pgdir = pt_pages m pgdir" using tab by (auto simp: pt_pages_def)
  show "pgdir_ok m' pgdir fl = pgdir_ok m pgdir fl" using tab by (simp add: pgdir_ok_def pt)
qed

lemma PGROUNDDOWN_self: "a mod PGSIZE = 0 \<Longrightarrow> PGROUNDDOWN a = a"
  by (simp add: PGROUNDDOWN_eq)

lemma page_offset: "t mod PGSIZE = 0 \<Longrightarrow> PGROUNDDOWN (t + (va - PGROUNDDOWN va)) = t"
proof -
  assume t: "t mod PGSIZE = 0"
  have "t + (va - PGROUNDDOWN va) - t = va mod PGSIZE" by (simp add: PGROUNDDOWN_eq)
  also have "\<dots> < PGSIZE" by (simp add: word_less_nat_alt unat_mod_PGSIZE)
  finally show ?thesis using in_page_iff [OF t] by blast
qed

lemma user_page_iff: "a < KERNBASE \<longleftrightarrow> PGROUNDDOWN a < KERNBASE"
proof -
  have "unat (PGROUNDDOWN a) = 4096 * (unat a div 4096)" by (simp add: unat_PGROUNDDOWN minus_mod_eq_mult_div)
  moreover have "n < 2147483648 \<longleftrightarrow> 4096 * (n div 4096) < 2147483648" for n :: nat
    using div_less_iff_less_mult [of 4096 n 524288] by simp
  ultimately show ?thesis unfolding word_less_nat_alt by (simp add: KERNBASE_def)
qed

definition user_pte :: "uint \<Rightarrow> uint" where
  "user_pte m = v2p m OR (PTE_W OR PTE_U) OR PTE_P"

lemma user_pte: "m mod PGSIZE = 0 \<Longrightarrow> p2v (PTE_ADDR (user_pte m)) = m" "has (user_pte m) PTE_P"
  "has (user_pte m) PTE_W" "has (user_pte m) PTE_U"
proof -
  assume m: "m mod PGSIZE = 0"
  have "user_pte m = v2p m OR ((PTE_W OR PTE_U) OR PTE_P)" by (simp add: user_pte_def or.assoc)
  moreover have "v2p m mod PGSIZE = 0" using p2v_aligned [OF m] by (simp add: p2v_eq_v2p)
  moreover have "(PTE_W OR PTE_U) OR PTE_P < PGSIZE" by (simp add: PTE_P_def PTE_W_def PTE_U_def PGSIZE_def)
  ultimately have "PGROUNDDOWN (user_pte m) = v2p m" by (simp only: PGROUNDDOWN_or)
  then show "p2v (PTE_ADDR (user_pte m)) = m" by (simp add: PTE_ADDR_eq)
next
  have "bit (user_pte m AND PTE_P) 0" "bit (user_pte m AND PTE_W) 1" "bit (user_pte m AND PTE_U) 2"
    by (auto simp: user_pte_def PTE_P_def PTE_W_def PTE_U_def bit_simps)
  then show "has (user_pte m) PTE_P" "has (user_pte m) PTE_W" "has (user_pte m) PTE_U" by (auto simp: has_def)
qed

lemma map_user_page:
  assumes ok: "uvm_ok s pgdir (m # fl)" and a: "a mod PGSIZE = 0" "a < KERNBASE" and new: "\<not> has (lookup (mem s) pgdir a) PTE_P"
    and room: "fl \<noteq> [] \<or> table_of (mem s) pgdir (PDX a) \<noteq> None"
  obtains s1 s2 s3 fl' where "kalloc s = Ret (Some m) s1" "zero_page m s1 = Ret () s2"
    "mappages pgdir a PGSIZE (v2p m) (PTE_W OR PTE_U) s2 = Ret 0 s3" "uvm_ok s3 pgdir fl'"
    "\<exists>us. fl = us @ fl' \<and> length us \<le> 1"
    "\<And>va. lookup (mem s3) pgdir va = (if PGROUNDDOWN va = a then user_pte m else lookup (mem s) pgdir va)"
    "\<And>va. PGROUNDDOWN va \<notin> set (m # fl) \<union> pt_pages (mem s) pgdir \<Longrightarrow> mem s3 va = mem s va"
    "\<And>va. PGROUNDDOWN va = m \<Longrightarrow> mem s3 va = 0" "\<exists>mm f. s3 = s\<lparr>mem := mm, freelist := f\<rparr>"
    "pt_pages (mem s3) pgdir \<subseteq> set fl \<union> pt_pages (mem s) pgdir"
proof -
  have rep: "kmem_rep s (m # fl)" and pd: "pgdir_ok (mem s) pgdir (m # fl)" using ok by (auto simp: uvm_ok_def)
  define s1 where "s1 = s\<lparr>freelist := load32 (mem s) m\<rparr>"
  define s2 where "s2 = s1\<lparr>mem := memset (mem s1) m 0 PGSIZE\<rparr>"
  have k: "kalloc s = Ret (Some m) s1" "kmem_rep s1 fl" using kalloc_rep [OF rep] by (simp_all add: s1_def)
  have z: "zero_page m s1 = Ret () s2" by (simp add: zero_page_def s2_def kmonad)
  have m: "m mod PGSIZE = 0" "m \<notin> set fl" "page_ok s m" using rep by (auto simp: kmem_rep_def page_ok_def)
  have m_pt: "m \<notin> pt_pages (mem s) pgdir" using pd by (auto simp: pgdir_ok_def)
  have mem2: "mem s2 va = (if PGROUNDDOWN va = m then 0 else mem s va)" for va
    using in_page_iff [OF m(1)] by (simp add: s2_def s1_def memset_apply)
  have rep2: "kmem_rep s2 fl" unfolding s2_def
    by (rule kmem_rep_store [OF k(2)], rule memset_other [OF m(1)]) (use m(2) in blast)
  have d: "pgdir mod PGSIZE = 0" by (rule pgdir_okD(1) [OF pd])
  have "mem s2 a = mem s a" if "PGROUNDDOWN a \<in> pt_pages (mem s) pgdir" for a
    using that m_pt mem2 by auto
  note f = pt_frame [OF d this]
  have "pgdir_ok (mem s) pgdir fl" using pd by (auto simp: pgdir_ok_def)
  then have pd2: "pgdir_ok (mem s2) pgdir fl" by (simp add: f(4))
  have absent: "\<not> has (lookup (mem s2) pgdir a) PTE_P" using new by (simp add: f(2))
  have last: "PGROUNDDOWN (a + PGSIZE - 1) = a"
  proof -
    have "a + PGSIZE - 1 - a < PGSIZE" by (simp add: PGSIZE_def)
    then show ?thesis using in_page_iff [OF a(1)] by blast
  qed
  have run: "mappages pgdir a PGSIZE pa perm = mappages_loop (Suc (2 ^ 20 - 1)) pgdir a a pa perm" for pa perm
    by (simp add: mappages_def last PGROUNDDOWN_self [OF a(1)] del: mappages_loop.simps)
  obtain s3 fl' where s3: "mappages pgdir a PGSIZE (v2p m) (PTE_W OR PTE_U) s2 = Ret 0 s3" "pt_run pgdir s2 fl s3 fl'"
    "\<And>vb. lookup (mem s3) pgdir vb = mapped (mem s2) pgdir a 1 (v2p m) (PTE_W OR PTE_U) vb" "length fl \<le> Suc (length fl')"
    using rep2 pd2 a(1) absent
  proof (cases rule: mappages_step [where n = "2 ^ 20 - 1" and l = a and pa = "v2p m" and perm = "PTE_W OR PTE_U"])
    case (page s' fl')
    have "mappages pgdir a PGSIZE (v2p m) (PTE_W OR PTE_U) s2 = Ret 0 s'"
      unfolding run using page(1) by (simp only: if_True simp_thms)
    from that [OF this page(2-4)] show ?thesis .
  next
    case full
    then show ?thesis using room by (simp add: f(1))
  qed
  obtain us where us: "fl = us @ fl'" "pt_pages (mem s3) pgdir = set us \<union> pt_pages (mem s) pgdir"
    using s3(2) by (auto simp: pt_run_def f(3))
  have look: "lookup (mem s3) pgdir va = (if PGROUNDDOWN va = a then user_pte m else lookup (mem s) pgdir va)" for va
    using s3(3) [of va] page_zero_offset [OF a(1), of "PGROUNDDOWN va"]
    by (simp add: mapped_def user_pte_def f(2))
  have frame: "mem s3 va = mem s2 va" if "PGROUNDDOWN va \<notin> set fl \<union> pt_pages (mem s) pgdir" for va
    using s3(2) that us by (auto simp: pt_run_def)
  have ext: "\<exists>mm f. s3 = s\<lparr>mem := mm, freelist := f\<rparr>"
  proof -
    obtain mm f where "s3 = s2\<lparr>mem := mm, freelist := f\<rparr>" using s3(2) unfolding pt_run_def by blast
    then show ?thesis by (auto simp: s2_def s1_def)
  qed
  then have pok: "page_ok s3 = page_ok s" by auto
  have zero: "mem s3 va = 0" if "PGROUNDDOWN va = m" for va
    using that frame [of va] m(2) m_pt by (simp add: mem2)
  have other: "mem s3 va = mem s va" if "PGROUNDDOWN va \<notin> set (m # fl) \<union> pt_pages (mem s) pgdir" for va
    using that frame [of va] by (simp add: mem2)
  have mp: "umapped (mem s3) pgdir va \<longleftrightarrow> PGROUNDDOWN va = a \<or> umapped (mem s) pgdir va" for va
    using look [of va] user_pte(2) user_page_iff [of va] a(2) by (auto simp: umapped_def)
  have up: "upage (mem s3) pgdir va = (if PGROUNDDOWN va = a then m else upage (mem s) pgdir va)" for va
    using look [of va] user_pte(1) [OF m(1)] by (simp add: upage_def)
  have old: "upage (mem s) pgdir va \<notin> set (m # fl) \<union> pt_pages (mem s) pgdir" "page_ok s (upage (mem s) pgdir va)"
    if "umapped (mem s) pgdir va" for va using ok that unfolding uvm_ok_def by blast+
  have "uvm_ok s3 pgdir fl'"
    unfolding uvm_ok_def
  proof (intro conjI ballI allI impI)
    show "KERNBASE < kend s3" using ext ok by (auto simp: uvm_ok_def)
    show "kmem_rep s3 fl'" "pgdir_ok (mem s3) pgdir fl'" using s3(2) by (auto simp: pt_run_def)
    show "page_ok s3 t" if "t \<in> pt_pages (mem s3) pgdir" for t
      using that ok rep us unfolding pok uvm_ok_def kmem_rep_def by auto
    fix va assume u: "umapped (mem s3) pgdir va"
    show "upage (mem s3) pgdir va \<notin> set fl' \<union> pt_pages (mem s3) pgdir"
      using u old(1) [of va] us m(2) m_pt unfolding mp up by auto
    show "page_ok s3 (upage (mem s3) pgdir va)" using u old(2) [of va] m(3) unfolding mp up pok by auto
    fix vb assume v: "umapped (mem s3) pgdir vb" "upage (mem s3) pgdir va = upage (mem s3) pgdir vb"
    show "PGROUNDDOWN va = PGROUNDDOWN vb"
    proof (cases "PGROUNDDOWN va = a \<or> PGROUNDDOWN vb = a")
      case True
      then show ?thesis using u v old(1) [of va] old(1) [of vb] unfolding mp up by (auto split: if_splits)
    next
      case False
      then have "umapped (mem s) pgdir va" "umapped (mem s) pgdir vb" "upage (mem s) pgdir va = upage (mem s) pgdir vb"
        using u v unfolding mp up by auto
      then show ?thesis using ok unfolding uvm_ok_def by blast
    qed
  qed
  moreover have "\<exists>us. fl = us @ fl' \<and> length us \<le> 1" using us(1) s3(4) by auto
  moreover have "pt_pages (mem s3) pgdir \<subseteq> set fl \<union> pt_pages (mem s) pgdir" using us by auto
  ultimately show ?thesis using that [OF k(1) z s3(1) _ _ look other zero ext] by blast
qed

text \<open>What a growth of the address space does: fresh zeroed pages for the new addresses, nothing else.\<close>

definition grown :: "uint \<Rightarrow> uint \<Rightarrow> uint \<Rightarrow> 'z kmem_scheme \<Rightarrow> uint list \<Rightarrow> 'z kmem_scheme \<Rightarrow> bool" where
  "grown pgdir a newsz s fl s' \<longleftrightarrow>
     (\<forall>va. if a \<le> PGROUNDDOWN va \<and> PGROUNDDOWN va < newsz
       then (\<exists>m \<in> set fl. lookup (mem s') pgdir va = user_pte m) \<and> ubyte (mem s') pgdir va = 0
       else lookup (mem s') pgdir va = lookup (mem s) pgdir va)
     \<and> (\<forall>va. PGROUNDDOWN va \<notin> set fl \<union> pt_pages (mem s) pgdir \<longrightarrow> mem s' va = mem s va)"

lemma allocuvm_loop_run:
  assumes "uvm_ok s pgdir fl" "a mod PGSIZE = 0" "newsz < KERNBASE" "unat newsz \<le> unat a + 4096 * k" "unat a \<le> unat newsz + 4095"
    "k < n" "2 * k \<le> length fl"
    "\<And>va. a \<le> PGROUNDDOWN va \<Longrightarrow> PGROUNDDOWN va < newsz \<Longrightarrow> \<not> has (lookup (mem s) pgdir va) PTE_P"
  shows "\<exists>s' fl'. allocuvm_loop n pgdir a oldsz newsz s = Ret newsz s' \<and> uvm_ok s' pgdir fl' \<and> grown pgdir a newsz s fl s'
    \<and> set fl' \<subseteq> set fl"
  using assms
proof (induction k arbitrary: n a s fl)
  case 0
  then obtain n' where n: "n = Suc n'" by (cases n) auto
  have "\<not> a < newsz" using 0 by (simp add: word_less_nat_alt)
  moreover from this have "grown pgdir a newsz s fl s" by (auto simp: grown_def)
  ultimately show ?case using 0(1) unfolding n by (intro exI [of _ s] exI [of _ fl]) (simp add: kmonad)
next
  case (Suc k)
  then obtain n' where n: "n = Suc n'" by (cases n) auto
  show ?case
  proof (cases "a < newsz")
    case False
    moreover from this have "grown pgdir a newsz s fl s" by (auto simp: grown_def)
    ultimately show ?thesis using Suc.prems(1) unfolding n by (intro exI [of _ s] exI [of _ fl]) (simp add: kmonad)
  next
    case True
    obtain m fl1 where fl: "fl = m # fl1" "fl1 \<noteq> []"
      using Suc.prems(7) by (cases fl; cases "tl fl") auto
    have user: "a < KERNBASE" using True Suc.prems(3) by simp
    have absent: "\<not> has (lookup (mem s) pgdir a) PTE_P"
      using Suc.prems(8) [of a] True PGROUNDDOWN_self [OF Suc.prems(2)] by simp
    have room: "fl1 \<noteq> [] \<or> table_of (mem s) pgdir (PDX a) \<noteq> None" using fl(2) by simp
    from Suc.prems(1) [unfolded fl(1)] Suc.prems(2) user absent room
    obtain s1 s2 s3 fl2 where st: "kalloc s = Ret (Some m) s1" "zero_page m s1 = Ret () s2"
      "mappages pgdir a PGSIZE (v2p m) (PTE_W OR PTE_U) s2 = Ret 0 s3" "uvm_ok s3 pgdir fl2"
      "\<exists>us. fl1 = us @ fl2 \<and> length us \<le> 1"
      "\<And>va. lookup (mem s3) pgdir va = (if PGROUNDDOWN va = a then user_pte m else lookup (mem s) pgdir va)"
      "\<And>va. PGROUNDDOWN va \<notin> set (m # fl1) \<union> pt_pages (mem s) pgdir \<Longrightarrow> mem s3 va = mem s va"
      "\<And>va. PGROUNDDOWN va = m \<Longrightarrow> mem s3 va = 0"
      "\<exists>mm f. s3 = s\<lparr>mem := mm, freelist := f\<rparr>" "pt_pages (mem s3) pgdir \<subseteq> set fl1 \<union> pt_pages (mem s) pgdir"
      by (rule map_user_page) (rule that)
    obtain us where us: "fl1 = us @ fl2" "length us \<le> 1" using st(5) by blast
    have next_nat: "unat (a + PGSIZE) = unat a + 4096"
      using user by (simp add: word_less_nat_alt KERNBASE_def unat_word_ariths)
    have later: "a + PGSIZE \<le> PGROUNDDOWN va \<longleftrightarrow> a \<le> PGROUNDDOWN va \<and> PGROUNDDOWN va \<noteq> a" for va
    proof -
      obtain q where "unat (PGROUNDDOWN va - a) = 4096 * q"
        using aligned_diff [OF Suc.prems(2), of "PGROUNDDOWN va"] by (auto elim: dvdE)
      then have "unat (PGROUNDDOWN va) - unat a = 4096 * q" if "a \<le> PGROUNDDOWN va"
        using that by (simp add: unat_sub)
      then show ?thesis unfolding word_le_nat_alt next_nat word_unat_eq_iff by (cases "q = 0") auto
    qed
    have pre: "unat newsz \<le> unat (a + PGSIZE) + 4096 * k" "unat (a + PGSIZE) \<le> unat newsz + 4095" "k < n'" "2 * k \<le> length fl2"
      using Suc.prems(4,6,7) n fl us True by (simp_all add: next_nat word_less_nat_alt)
    have "\<not> has (lookup (mem s3) pgdir va) PTE_P" if "a + PGSIZE \<le> PGROUNDDOWN va" "PGROUNDDOWN va < newsz" for va
      using that Suc.prems(8) [of va] st(6) [of va] later [of va] by simp
    from Suc.IH [OF st(4) next_aligned [OF Suc.prems(2)] Suc.prems(3) pre this]
    obtain s' fl' where IH: "allocuvm_loop n' pgdir (a + PGSIZE) oldsz newsz s3 = Ret newsz s'" "uvm_ok s' pgdir fl'"
      "grown pgdir (a + PGSIZE) newsz s3 fl2 s'" "set fl' \<subseteq> set fl2" by blast
    have run: "allocuvm_loop n pgdir a oldsz newsz s = Ret newsz s'"
      unfolding n using True st(1-3) IH(1) by (simp add: kmonad)
    have mnot: "m \<notin> set fl2 \<union> pt_pages (mem s3) pgdir"
    proof -
      have m: "m mod PGSIZE = 0" using Suc.prems(1) fl(1) by (auto simp: uvm_ok_def kmem_rep_def page_ok_def)
      have l: "lookup (mem s3) pgdir a = user_pte m" using st(6) PGROUNDDOWN_self [OF Suc.prems(2)] by simp
      then have "umapped (mem s3) pgdir a" "upage (mem s3) pgdir a = m"
        using user user_pte(1) [OF m] user_pte(2) by (simp_all add: umapped_def upage_def)
      with st(4) show ?thesis unfolding uvm_ok_def by metis
    qed
    have frame: "mem s' va = mem s va" if "PGROUNDDOWN va \<notin> set fl \<union> pt_pages (mem s) pgdir" for va
    proof -
      have "PGROUNDDOWN va \<notin> set fl2 \<union> pt_pages (mem s3) pgdir" using that st(10) us(1) fl(1) by auto
      then have "mem s' va = mem s3 va" using IH(3) by (simp add: grown_def)
      also have "\<dots> = mem s va" using that fl(1) by (intro st(7)) simp
      finally show ?thesis .
    qed
    have "if a \<le> PGROUNDDOWN va \<and> PGROUNDDOWN va < newsz
       then (\<exists>m \<in> set fl. lookup (mem s') pgdir va = user_pte m) \<and> ubyte (mem s') pgdir va = 0
       else lookup (mem s') pgdir va = lookup (mem s) pgdir va" for va
    proof (cases "PGROUNDDOWN va = a")
      case True
      have m: "m mod PGSIZE = 0" using Suc.prems(1) fl(1) by (auto simp: uvm_ok_def kmem_rep_def page_ok_def)
      have "\<not> a + PGSIZE \<le> PGROUNDDOWN va" using later [of va] True by simp
      then have l: "lookup (mem s') pgdir va = user_pte m" using IH(3) st(6) [of va] True unfolding grown_def by metis
      let ?b = "m + (va - PGROUNDDOWN va)"
      have "PGROUNDDOWN ?b = m" by (rule page_offset [OF m])
      with mnot have "mem s' ?b = mem s3 ?b" using IH(3) unfolding grown_def by metis
      also have "\<dots> = 0" using \<open>PGROUNDDOWN ?b = m\<close> by (rule st(8))
      finally have "ubyte (mem s') pgdir va = 0" using l user_pte(1) [OF m] by (simp add: ubyte_def upage_def)
      with l fl(1) True \<open>a < newsz\<close> show ?thesis by auto
    next
      case False
      have "if a + PGSIZE \<le> PGROUNDDOWN va \<and> PGROUNDDOWN va < newsz
       then (\<exists>m \<in> set fl2. lookup (mem s') pgdir va = user_pte m) \<and> ubyte (mem s') pgdir va = 0
       else lookup (mem s') pgdir va = lookup (mem s3) pgdir va" using IH(3) unfolding grown_def by blast
      with False st(6) [of va] later [of va] us(1) fl(1) show ?thesis by (auto split: if_splits)
    qed
    with frame have "grown pgdir a newsz s fl s'" unfolding grown_def by blast
    moreover have "set fl' \<subseteq> set fl" using IH(4) us(1) fl by auto
    ultimately show ?thesis using run IH(2) by blast
  qed
qed

text \<open>Unmapping one user page gives it back to the allocator.\<close>

lemma unmap_user_page:
  assumes ok: "uvm_ok s pgdir fl" and a: "a mod PGSIZE = 0" "a < KERNBASE" and t: "table_of (mem s) pgdir (PDX a) = Some t"
  obtains s' fl' where "free_user_page (t + 4 * PTX a) (lookup (mem s) pgdir a) s = Ret () s'" "uvm_ok s' pgdir fl'"
    "set fl' = set fl \<union> {p. umapped (mem s) pgdir a \<and> p = upage (mem s) pgdir a}"
    "\<And>va. PGROUNDDOWN va \<noteq> a \<Longrightarrow> lookup (mem s') pgdir va = lookup (mem s) pgdir va"
    "\<not> umapped (mem s') pgdir a" "\<And>i. unat i < 1024 \<Longrightarrow> table_of (mem s') pgdir i = table_of (mem s) pgdir i"
    "page_ok s' = page_ok s"
proof (cases "umapped (mem s) pgdir a")
  case False
  then have no: "\<not> has (lookup (mem s) pgdir a) PTE_P" using a(2) by (simp add: umapped_def)
  show ?thesis
    by (rule that [of s fl]) (use no ok False in \<open>simp_all add: free_user_page_def kmonad\<close>)
next
  case True
  then have pr: "has (lookup (mem s) pgdir a) PTE_P" by (simp add: umapped_def)
  have rep: "kmem_rep s fl" and pd: "pgdir_ok (mem s) pgdir fl" using ok by (auto simp: uvm_ok_def)
  define p where "p = upage (mem s) pgdir a"
  have p: "p \<notin> set fl" "p \<notin> pt_pages (mem s) pgdir" "page_ok s p"
    using ok True unfolding uvm_ok_def p_def by blast+
  have nz: "PTE_ADDR (lookup (mem s) pgdir a) \<noteq> 0"
  proof
    assume "PTE_ADDR (lookup (mem s) pgdir a) = 0"
    then have "p = KERNBASE" by (simp add: p_def upage_def p2v_def)
    moreover have "KERNBASE < kend s" using ok by (simp add: uvm_ok_def)
    ultimately show False using p(3) by (auto simp: page_ok_def)
  qed
  define s1 where "s1 = s\<lparr>mem := freed_mem s p, freelist := p\<rparr>"
  have free: "kfree p s = Ret () s1" "kmem_rep s1 (p # fl)"
    using kfree_run [of s p] kfree_rep [OF rep p(3,1)] p(3) rep by (auto simp: s1_def kmem_rep_def)
  have d: "pgdir mod PGSIZE = 0" by (rule pgdir_okD(1) [OF pd])
  have pal: "p mod PGSIZE = 0" using p(3) by (simp add: page_ok_def)
  have out: "mem s1 b = mem s b" if "PGROUNDDOWN b \<noteq> p" for b
    using that in_page_iff [OF pal] by (simp add: s1_def freed_mem_outside)
  have "mem s1 b = mem s b" if "PGROUNDDOWN b \<in> pt_pages (mem s) pgdir" for b
    using that p(2) by (intro out) auto
  note f = pt_frame [where m = "mem s" and m' = "mem s1", OF d this]
  have "pgdir_ok (mem s) pgdir (p # fl)" using pd p(2) by (auto simp: pgdir_ok_def)
  then have pd1: "pgdir_ok (mem s1) pgdir (p # fl)" by (simp add: f(4))
  have t1: "table_of (mem s1) pgdir (PDX a) = Some t" using t by (simp add: f(1))
  define s2 where s2: "s2 = s1\<lparr>mem := store32 (mem s1) (t + 4 * PTX a) 0\<rparr>"
  note q = put_entry_run [OF free(2) pd1 t1 s2]
  have run: "free_user_page (t + 4 * PTX a) (lookup (mem s) pgdir a) s = Ret () s2"
    using pr nz free(1) q(1) by (simp add: free_user_page_def kmonad p_def upage_def)
  have look: "lookup (mem s2) pgdir va = (if PGROUNDDOWN va = a then 0 else lookup (mem s) pgdir va)" for va
    using q(3) [of va] PGROUNDDOWN_self [OF a(1)] by (simp add: f(2))
  have tab: "table_of (mem s2) pgdir i = table_of (mem s) pgdir i" if "unat i < 1024" for i
    using q(4) [OF that] that by (simp add: f(1))
  have pt: "pt_pages (mem s2) pgdir = pt_pages (mem s) pgdir" using tab by (auto simp: pt_pages_def)
  have pok: "page_ok s2 = page_ok s" by (simp add: s2 s1_def)
  have um: "umapped (mem s2) pgdir va \<longleftrightarrow> umapped (mem s) pgdir va \<and> PGROUNDDOWN va \<noteq> a" for va
    by (simp add: umapped_def look has_def)
  have up: "upage (mem s2) pgdir va = upage (mem s) pgdir va" if "PGROUNDDOWN va \<noteq> a" for va
    using that by (simp add: upage_def look)
  have "uvm_ok s2 pgdir (p # fl)"
    unfolding uvm_ok_def pt pok
  proof (intro conjI allI impI)
    show "KERNBASE < kend s2" using ok by (simp add: uvm_ok_def s2 s1_def)
    show "kmem_rep s2 (p # fl)" "pgdir_ok (mem s2) pgdir (p # fl)" using q(2) by (auto simp: pt_run_def)
    show "\<forall>t\<in>pt_pages (mem s) pgdir. page_ok s t" using ok by (simp add: uvm_ok_def)
    fix va assume u: "umapped (mem s2) pgdir va"
    have "upage (mem s) pgdir va \<noteq> p"
      using u True ok PGROUNDDOWN_self [OF a(1)] unfolding um p_def uvm_ok_def by metis
    then show "upage (mem s2) pgdir va \<notin> set (p # fl) \<union> pt_pages (mem s) pgdir" "page_ok s (upage (mem s2) pgdir va)"
      using u ok up [of va] unfolding um uvm_ok_def by auto
    fix vb assume "umapped (mem s2) pgdir vb" "upage (mem s2) pgdir va = upage (mem s2) pgdir vb"
    then show "PGROUNDDOWN va = PGROUNDDOWN vb" using u ok up [of va] up [of vb] unfolding um uvm_ok_def by metis
  qed
  then show ?thesis
    by (rule that [OF run]) (use True look tab pok um PGROUNDDOWN_self [OF a(1)] in \<open>simp_all add: p_def\<close>)
qed

text \<open>What shrinking does: the pages of the range are unmapped and free, the other mappings stay.\<close>

definition in_range :: "uint \<Rightarrow> uint \<Rightarrow> uint \<Rightarrow> bool" where
  "in_range a b va \<longleftrightarrow> a \<le> PGROUNDDOWN va \<and> PGROUNDDOWN va < b"

definition shrunk :: "uint \<Rightarrow> uint \<Rightarrow> uint \<Rightarrow> 'z kmem_scheme \<Rightarrow> uint list \<Rightarrow> 'z kmem_scheme \<Rightarrow> uint list \<Rightarrow> bool" where
  "shrunk pgdir a b s fl s' fl' \<longleftrightarrow> uvm_ok s' pgdir fl'
     \<and> set fl' = set fl \<union> {upage (mem s) pgdir va | va. umapped (mem s) pgdir va \<and> in_range a b va}
     \<and> (\<forall>va. umapped (mem s') pgdir va \<longleftrightarrow> umapped (mem s) pgdir va \<and> \<not> in_range a b va)
     \<and> (\<forall>va. umapped (mem s') pgdir va \<longrightarrow> lookup (mem s') pgdir va = lookup (mem s) pgdir va)
     \<and> (\<forall>i. unat i < 1024 \<longrightarrow> table_of (mem s') pgdir i = table_of (mem s) pgdir i) \<and> page_ok s' = page_ok s"

lemma shrunk_none:
  "uvm_ok s pgdir fl \<Longrightarrow> (\<And>va. umapped (mem s) pgdir va \<Longrightarrow> \<not> in_range a b va) \<Longrightarrow> shrunk pgdir a b s fl s fl"
  by (auto simp: shrunk_def)

lemma shrunk_trans:
  assumes "shrunk pgdir a b s fl t fl'" "shrunk pgdir b c t fl' u fl''"
    and rng: "\<And>va. in_range a c va \<longleftrightarrow> in_range a b va \<or> in_range b c va"
  shows "shrunk pgdir a c s fl u fl''"
proof -
  have t: "umapped (mem t) pgdir va \<longleftrightarrow> umapped (mem s) pgdir va \<and> \<not> in_range a b va" for va
    using assms(1) by (simp add: shrunk_def)
  have up: "upage (mem t) pgdir va = upage (mem s) pgdir va" if "umapped (mem t) pgdir va" for va
    using assms(1) that by (simp add: shrunk_def upage_def)
  have disj: "in_range b c va \<Longrightarrow> \<not> in_range a b va" for va by (auto simp: in_range_def)
  have "{upage (mem t) pgdir va | va. umapped (mem t) pgdir va \<and> in_range b c va}
      = {upage (mem s) pgdir va | va. umapped (mem s) pgdir va \<and> in_range b c va}"
    using up t disj by (metis (no_types, lifting))
  then have fl: "set fl'' = set fl \<union> {upage (mem s) pgdir va | va. umapped (mem s) pgdir va \<and> in_range a c va}"
    using assms(1,2) unfolding shrunk_def rng by auto
  have "umapped (mem u) pgdir va \<longleftrightarrow> umapped (mem s) pgdir va \<and> \<not> in_range a c va" for va
    using assms(2) t [of va] unfolding shrunk_def rng by blast
  moreover have "lookup (mem u) pgdir va = lookup (mem s) pgdir va" if "umapped (mem u) pgdir va" for va
    using assms(1,2) that unfolding shrunk_def by metis
  moreover have "table_of (mem u) pgdir i = table_of (mem s) pgdir i" if "unat i < 1024" for i
    using assms(1,2) that unfolding shrunk_def by metis
  moreover have "uvm_ok u pgdir fl''" "page_ok u = page_ok s" using assms(1,2) unfolding shrunk_def by simp_all
  ultimately show ?thesis using fl unfolding shrunk_def by blast
qed

lemma in_range_page:
  assumes "a mod PGSIZE = 0" "a < KERNBASE"
  shows "in_range a (a + PGSIZE) va \<longleftrightarrow> PGROUNDDOWN va = a"
    "a < c \<Longrightarrow> in_range a c va \<longleftrightarrow> in_range a (a + PGSIZE) va \<or> in_range (a + PGSIZE) c va"
proof -
  have next_nat: "unat (a + PGSIZE) = unat a + 4096"
    using assms(2) by (simp add: word_less_nat_alt KERNBASE_def unat_word_ariths)
  obtain q where "unat (PGROUNDDOWN va - a) = 4096 * q"
    using aligned_diff [OF assms(1), of "PGROUNDDOWN va"] by (auto elim: dvdE)
  then have q: "unat (PGROUNDDOWN va) - unat a = 4096 * q" if "a \<le> PGROUNDDOWN va"
    using that by (simp add: unat_sub)
  show 1: "in_range a (a + PGSIZE) va \<longleftrightarrow> PGROUNDDOWN va = a"
    unfolding in_range_def using q next_nat unfolding word_le_nat_alt word_less_nat_alt word_unat_eq_iff by (cases "q = 0") auto
  show "in_range a c va \<longleftrightarrow> in_range a (a + PGSIZE) va \<or> in_range (a + PGSIZE) c va" if "a < c"
    unfolding 1 using q next_nat that
    unfolding in_range_def word_le_nat_alt word_less_nat_alt word_unat_eq_iff by (cases "q = 0") auto
qed

lemma umapped_page: "PGROUNDDOWN va = PGROUNDDOWN vb \<Longrightarrow> umapped m pgdir va = umapped m pgdir vb"
  "PGROUNDDOWN va = PGROUNDDOWN vb \<Longrightarrow> upage m pgdir va = upage m pgdir vb"
  using user_page_iff [of va] user_page_iff [of vb] lookup_page [of va vb m pgdir]
  by (auto simp: umapped_def upage_def)

lemma shrunk_page:
  assumes ok: "uvm_ok s pgdir fl" and a: "a mod PGSIZE = 0" "a < KERNBASE" and t: "table_of (mem s) pgdir (PDX a) = Some t"
  obtains s' fl' where "free_user_page (t + 4 * PTX a) (lookup (mem s) pgdir a) s = Ret () s'"
    "shrunk pgdir a (a + PGSIZE) s fl s' fl'"
  using ok a t
proof (rule unmap_user_page)
  fix s' fl'
  assume s': "free_user_page (t + 4 * PTX a) (lookup (mem s) pgdir a) s = Ret () s'" "uvm_ok s' pgdir fl'"
    "set fl' = set fl \<union> {p. umapped (mem s) pgdir a \<and> p = upage (mem s) pgdir a}"
    "\<And>va. PGROUNDDOWN va \<noteq> a \<Longrightarrow> lookup (mem s') pgdir va = lookup (mem s) pgdir va"
    "\<not> umapped (mem s') pgdir a" "\<And>i. unat i < 1024 \<Longrightarrow> table_of (mem s') pgdir i = table_of (mem s) pgdir i"
    "page_ok s' = page_ok s"
  note same = umapped_page [where vb = a, unfolded PGROUNDDOWN_self [OF a(1)]]
  have um: "umapped (mem s') pgdir va \<longleftrightarrow> umapped (mem s) pgdir va \<and> PGROUNDDOWN va \<noteq> a" for va
  proof (cases "PGROUNDDOWN va = a")
    case True
    with same(1) [of va "mem s'" pgdir] s'(5) show ?thesis by simp
  next
    case False
    with s'(4) [of va] show ?thesis by (simp add: umapped_def)
  qed
  have "{upage (mem s) pgdir va | va. umapped (mem s) pgdir va \<and> PGROUNDDOWN va = a}
      = {p. umapped (mem s) pgdir a \<and> p = upage (mem s) pgdir a}"
    using same [of _ "mem s" pgdir] PGROUNDDOWN_self [OF a(1)] by blast
  then have "shrunk pgdir a (a + PGSIZE) s fl s' fl'"
    unfolding shrunk_def in_range_page(1) [OF a] using s'(2,3,4,6,7) um by auto
  with s'(1) show thesis by (rule that)
qed

lemma no_table_unmapped:
  assumes "table_of m pgdir (PDX a) = None" "4194304 dvd unat a" "in_range a (a + 4194304) va" "unat a + 4194304 < 4294967296"
  shows "\<not> umapped m pgdir va"
proof -
  have "unat (a + 4194304) = unat a + 4194304" using assms(4) by (simp add: unat_word_ariths)
  then have r: "unat a \<le> unat (PGROUNDDOWN va)" "unat (PGROUNDDOWN va) < unat a + 4194304"
    using assms(3) by (simp_all add: in_range_def word_le_nat_alt word_less_nat_alt)
  obtain q where q: "unat a = 4194304 * q" using assms(2) by (auto elim: dvdE)
  have "unat (PGROUNDDOWN va) div 4194304 = q" using r q by (intro div_nat_eqI) simp_all
  then have "PDX (PGROUNDDOWN va) = PDX a" using q by (simp add: word_unat_eq_iff unat_PDX)
  moreover have "PDX (PGROUNDDOWN va) = PDX va" by (rule page_index_cong) (simp add: PGROUNDDOWN_self)
  ultimately have "lookup m pgdir va = 0" using assms(1) by (simp add: lookup_def)
  then show ?thesis by (simp add: umapped_def has_def)
qed

lemma shrunk_gap:
  assumes "\<And>va. umapped (mem s) pgdir va \<Longrightarrow> in_range a b va = in_range c b va" "shrunk pgdir c b s fl s' fl'"
  shows "shrunk pgdir a b s fl s' fl'"
proof -
  have "{upage (mem s) pgdir va | va. umapped (mem s) pgdir va \<and> in_range a b va}
      = {upage (mem s) pgdir va | va. umapped (mem s) pgdir va \<and> in_range c b va}" using assms(1) by blast
  moreover have "umapped (mem s) pgdir va \<and> \<not> in_range a b va \<longleftrightarrow> umapped (mem s) pgdir va \<and> \<not> in_range c b va" for va
    using assms(1) by blast
  ultimately show ?thesis using assms(2) unfolding shrunk_def by simp
qed

lemma deallocuvm_loop_run:
  assumes "uvm_ok s pgdir fl" "a mod PGSIZE = 0" "b \<le> KERNBASE" "unat a \<le> 0x80400000" "unat b \<le> unat a + 4096 * k" "k < n"
    "4194304 dvd unat a \<or> table_of (mem s) pgdir (PDX a) \<noteq> None"
  shows "\<exists>s' fl'. deallocuvm_loop n pgdir a b s = Ret () s' \<and> shrunk pgdir a b s fl s' fl'"
  using assms
proof (induction k arbitrary: n a s fl)
  case 0
  then obtain n' where n: "n = Suc n'" by (cases n) auto
  have "\<not> a < b" using 0 by (simp add: word_less_nat_alt)
  moreover from this have "shrunk pgdir a b s fl s fl" using 0(1) by (intro shrunk_none) (auto simp: in_range_def)
  ultimately show ?case unfolding n by (intro exI [of _ s] exI [of _ fl]) (simp add: kmonad)
next
  case (Suc k)
  then obtain n' where n: "n = Suc n'" by (cases n) auto
  show ?case
  proof (cases "a < b")
    case False
    moreover from this have "shrunk pgdir a b s fl s fl" using Suc.prems(1) by (intro shrunk_none) (auto simp: in_range_def)
    ultimately show ?thesis unfolding n by (intro exI [of _ s] exI [of _ fl]) (simp add: kmonad)
  next
    case True
    have user: "a < KERNBASE" using True Suc.prems(3) by simp
    then have an: "unat a < 2147483648" by (simp add: word_less_nat_alt KERNBASE_def)
    show ?thesis
    proof (cases "table_of (mem s) pgdir (PDX a)")
      case None
      let ?c = "a + (NPTENTRIES - 1) * PGSIZE + PGSIZE"
      have c: "?c = a + 4194304" "unat ?c = unat a + 4194304"
        using an by (simp_all add: NPTENTRIES_def PGSIZE_def unat_word_ariths)
      have dv: "4194304 dvd unat a" using None Suc.prems(7) by simp
      have "?c mod PGSIZE = 0" using Suc.prems(2) by (simp add: aligned_iff c(2))
      then obtain s' fl' where IH: "deallocuvm_loop n' pgdir ?c b s = Ret () s'" "shrunk pgdir ?c b s fl s' fl'"
        using Suc.IH [OF Suc.prems(1) _ Suc.prems(3) _ _ _ disjI1, of ?c n'] Suc.prems(5,6) n dv an by (auto simp: c(2))
      have "in_range a b va = in_range ?c b va" if "umapped (mem s) pgdir va" for va
      proof -
        have "\<not> in_range a ?c va" using no_table_unmapped [OF None dv] that an unfolding c(1) by auto
        then show ?thesis using c(2) unfolding in_range_def word_le_nat_alt word_less_nat_alt by linarith
      qed
      then have "shrunk pgdir a b s fl s' fl'" using IH(2) by (rule shrunk_gap)
      then show ?thesis unfolding n using True None IH(1)
        by (intro exI [of _ s'] exI [of _ fl']) (simp add: kmonad walkpgdir_find)
    next
      case (Some t)
      from Suc.prems(1,2) user Some obtain s1 fl1 where s1: "free_user_page (t + 4 * PTX a) (lookup (mem s) pgdir a) s = Ret () s1"
        "shrunk pgdir a (a + PGSIZE) s fl s1 fl1" by (rule shrunk_page)
      have nn: "unat (a + PGSIZE) = unat a + 4096" using an by (simp add: unat_word_ariths)
      have tab: "4194304 dvd unat (a + PGSIZE) \<or> table_of (mem s1) pgdir (PDX (a + PGSIZE)) \<noteq> None"
      proof (rule disjCI)
        assume "\<not> table_of (mem s1) pgdir (PDX (a + PGSIZE)) \<noteq> None"
        then have "PDX (a + PGSIZE) \<noteq> PDX a" using s1(2) Some by (auto simp: shrunk_def)
        then have "(unat a + 4096) div 4194304 \<noteq> unat a div 4194304" by (simp add: word_unat_eq_iff unat_PDX nn)
        moreover obtain p where p: "unat a = 4096 * p" using Suc.prems(2) by (auto simp: aligned_iff)
        moreover have "(4096 * p + 4096) div 4194304 = Suc p div 1024" "4096 * p div 4194304 = p div 1024"
          using div_mult_mult1 [of "4096 :: nat" "Suc p" 1024] div_mult_mult1 [of "4096 :: nat" p 1024] by simp_all
        ultimately have "1024 dvd Suc p" by (simp add: div_Suc dvd_eq_mod_eq_0 split: if_splits)
        then have "4096 * 1024 dvd 4096 * Suc p" by (rule mult_dvd_mono [OF dvd_refl])
        moreover have "unat (a + PGSIZE) = 4096 * Suc p" by (simp add: nn p)
        moreover have "(4194304 :: nat) = 4096 * 1024" by simp
        ultimately show "4194304 dvd unat (a + PGSIZE)" by (simp only:)
      qed
      have pre: "uvm_ok s1 pgdir fl1" "unat (a + PGSIZE) \<le> 0x80400000" "unat b \<le> unat (a + PGSIZE) + 4096 * k" "k < n'"
        using s1(2) Suc.prems(5,6) n an by (simp_all add: shrunk_def nn)
      obtain s' fl' where IH: "deallocuvm_loop n' pgdir (a + PGSIZE) b s1 = Ret () s'" "shrunk pgdir (a + PGSIZE) b s1 fl1 s' fl'"
        using Suc.IH [OF pre(1) next_aligned [OF Suc.prems(2)] Suc.prems(3) pre(2-4) tab] by blast
      have "shrunk pgdir a b s fl s' fl'"
        by (rule shrunk_trans [OF s1(2) IH(2) in_range_page(2) [OF Suc.prems(2) user True]])
      moreover have "load32 (mem s) (t + 4 * PTX a) = lookup (mem s) pgdir a" using Some by (simp add: lookup_def)
      ultimately show ?thesis unfolding n using True Some IH(1) s1(1)
        by (intro exI [of _ s'] exI [of _ fl']) (simp add: kmonad walkpgdir_find get32_def)
    qed
  qed
qed

lemma deallocuvm_run:
  assumes "uvm_ok s pgdir fl" "newsz < oldsz" "oldsz \<le> KERNBASE"
    "4194304 dvd unat (PGROUNDUP newsz) \<or> table_of (mem s) pgdir (PDX (PGROUNDUP newsz)) \<noteq> None"
  shows "\<exists>s' fl'. deallocuvm pgdir oldsz newsz s = Ret newsz s' \<and> shrunk pgdir (PGROUNDUP newsz) oldsz s fl s' fl'"
proof -
  have b: "unat newsz < unat oldsz" "unat oldsz \<le> 2147483648"
    using assms(2,3) by (simp_all add: word_less_nat_alt word_le_nat_alt KERNBASE_def)
  then have "unat (newsz + PGSIZE - 1) = unat newsz + 4095"
    by (simp add: PGSIZE_def add_diff_eq [symmetric] unat_word_ariths)
  then have up: "unat (PGROUNDUP newsz) \<le> unat newsz + 4095" by (simp add: PGROUNDUP_eq unat_PGROUNDDOWN)
  have pre: "unat (PGROUNDUP newsz) \<le> 0x80400000" "unat oldsz \<le> unat (PGROUNDUP newsz) + 4096 * 524288"
    using b up by simp_all
  have "\<exists>s' fl'. deallocuvm_loop (2 ^ 20) pgdir (PGROUNDUP newsz) oldsz s = Ret () s'
      \<and> shrunk pgdir (PGROUNDUP newsz) oldsz s fl s' fl'"
    by (rule deallocuvm_loop_run [OF assms(1) _ assms(3) pre _ assms(4)]) simp_all
  with assms(2) show ?thesis by (auto simp: deallocuvm_def kmonad)
qed

text \<open>Freeing the tables, entry by entry, and the directory.\<close>

lemma free_tables_run:
  assumes "kmem_rep s fl" "pgdir mod PGSIZE = 0" "pgdir \<notin> set fl" "distinct js" "\<forall>j \<in> set js. j < 1024"
    "\<forall>j \<in> set js. \<forall>t. table_of (mem s) pgdir (of_nat j) = Some t \<longrightarrow> page_ok s t \<and> t \<notin> set fl \<and> t \<noteq> pgdir"
    "\<forall>i \<in> set js. \<forall>j \<in> set js. \<forall>t. table_of (mem s) pgdir (of_nat i) = Some t \<longrightarrow>
       table_of (mem s) pgdir (of_nat j) = Some t \<longrightarrow> i = j"
  shows "\<exists>s' fl'. kfor js (free_table pgdir) s = Ret () s' \<and> kmem_rep s' fl' \<and> page_ok s' = page_ok s
    \<and> set fl' = set fl \<union> {t. \<exists>j \<in> set js. table_of (mem s) pgdir (of_nat j) = Some t}"
  using assms
proof (induction js arbitrary: s fl)
  case Nil
  then show ?case by (intro exI [of _ s] exI [of _ fl]) (simp add: kmonad)
next
  case (Cons j js)
  show ?case
  proof (cases "table_of (mem s) pgdir (of_nat j)")
    case None
    then have "free_table pgdir j s = Ret () s"
      by (auto simp: free_table_def get32_def table_of_def Let_def kmonad split: if_splits)
    with Cons.IH [of s fl] Cons.prems None show ?thesis by (auto simp: kmonad)
  next
    case (Some t)
    define s1 where "s1 = s\<lparr>mem := freed_mem s t, freelist := t\<rparr>"
    have t: "page_ok s t" "t \<notin> set fl" "t \<noteq> pgdir" using Cons.prems(6) Some by auto
    have free: "kfree t s = Ret () s1" "kmem_rep s1 (t # fl)"
      using kfree_run [of s t] kfree_rep [OF Cons.prems(1) t(1,2)] t(1) Cons.prems(1) by (auto simp: s1_def kmem_rep_def)
    have run: "free_table pgdir j s = Ret () s1"
      using Some free(1) by (auto simp: free_table_def get32_def table_of_def Let_def kmonad split: if_splits)
    have tal: "t mod PGSIZE = 0" using t(1) by (simp add: page_ok_def)
    have tab: "table_of (mem s1) pgdir (of_nat i) = table_of (mem s) pgdir (of_nat i)" if "i < 1024" for i
    proof -
      have "load32 (mem s1) (pgdir + 4 * of_nat i) = load32 (mem s) (pgdir + 4 * of_nat i)"
        using that t(3) in_page_iff [OF tal]
        by (intro load_page_cong [OF Cons.prems(2)]) (auto simp: s1_def freed_mem_outside)
      then show ?thesis by (simp add: table_of_def)
    qed
    have pok: "page_ok s1 = page_ok s" by (simp add: s1_def)
    have other: "u \<noteq> t" if "i \<in> set js" "table_of (mem s) pgdir (of_nat i) = Some u" for i u
      using that Cons.prems(4,7) Some by auto
    have "\<exists>s' fl'. kfor js (free_table pgdir) s1 = Ret () s' \<and> kmem_rep s' fl' \<and> page_ok s' = page_ok s1
        \<and> set fl' = set (t # fl) \<union> {u. \<exists>i \<in> set js. table_of (mem s1) pgdir (of_nat i) = Some u}"
      by (rule Cons.IH [OF free(2) Cons.prems(2)]) (use Cons.prems t(3) other tab pok in auto)
    then obtain s' fl' where IH: "kfor js (free_table pgdir) s1 = Ret () s'" "kmem_rep s' fl'" "page_ok s' = page_ok s1"
      "set fl' = set (t # fl) \<union> {u. \<exists>i \<in> set js. table_of (mem s1) pgdir (of_nat i) = Some u}" by blast
    have "set fl' = set fl \<union> {u. \<exists>i \<in> set (j # js). table_of (mem s) pgdir (of_nat i) = Some u}"
      using IH(4) Cons.prems(5) Some tab by auto
    with IH run pok show ?thesis by (intro exI [of _ s'] exI [of _ fl']) (simp add: kmonad)
  qed
qed

lemma pt_pages_alt: "pt_pages m pgdir = insert pgdir {t. \<exists>j \<in> {0..<1024}. table_of m pgdir (of_nat j) = Some t}"
proof -
  have "(\<exists>i. unat i < 1024 \<and> table_of m pgdir i = Some t) \<longleftrightarrow> (\<exists>j \<in> {0..<1024}. table_of m pgdir (of_nat j) = Some t)" for t
  proof
    assume "\<exists>i. unat i < 1024 \<and> table_of m pgdir i = Some t"
    then obtain i where "unat i < 1024" "table_of m pgdir i = Some t" by blast
    then show "\<exists>j \<in> {0..<1024}. table_of m pgdir (of_nat j) = Some t" by (intro bexI [of _ "unat i"]) simp_all
  next
    assume "\<exists>j \<in> {0..<1024}. table_of m pgdir (of_nat j) = Some t"
    then obtain j :: nat where "j < 1024" "table_of m pgdir (of_nat j) = Some t" by auto
    then show "\<exists>i. unat i < 1024 \<and> table_of m pgdir i = Some t" by (intro exI [of _ "of_nat j"]) simp
  qed
  then show ?thesis by (simp add: pt_pages_def)
qed

lemma freevm_run:
  assumes ok: "uvm_ok s pgdir fl"
  shows "\<exists>s' fl'. freevm pgdir s = Ret () s' \<and> kmem_rep s' fl'
    \<and> set fl' = set fl \<union> {upage (mem s) pgdir va | va. umapped (mem s) pgdir va} \<union> pt_pages (mem s) pgdir"
proof -
  have pok: "page_ok s pgdir" using ok by (auto simp: uvm_ok_def pt_pages_def)
  have nz: "pgdir \<noteq> 0" using page_ok_nonzero [OF pok] ok by (auto simp: uvm_ok_def kmem_rep_def)
  have z: "PGROUNDUP 0 = 0" by (simp add: PGROUNDUP_def PGSIZE_def)
  obtain s1 fl1 where s1: "deallocuvm pgdir KERNBASE 0 s = Ret 0 s1" "shrunk pgdir 0 KERNBASE s fl s1 fl1"
    using deallocuvm_run [OF ok, of 0 KERNBASE] by (auto simp: z KERNBASE_def)
  have ok1: "uvm_ok s1 pgdir fl1" and pok1: "page_ok s1 = page_ok s" using s1(2) by (auto simp: shrunk_def)
  have pd1: "pgdir_ok (mem s1) pgdir fl1" using ok1 by (simp add: uvm_ok_def)
  have all: "in_range 0 KERNBASE va" if "umapped (mem s) pgdir va" for va
    using that user_page_iff [of va] by (auto simp: in_range_def umapped_def)
  have fl1: "set fl1 = set fl \<union> {upage (mem s) pgdir va | va. umapped (mem s) pgdir va}"
    using s1(2) all unfolding shrunk_def by blast
  have tab: "table_of (mem s1) pgdir i = table_of (mem s) pgdir i" if "unat i < 1024" for i
    using s1(2) that by (simp add: shrunk_def)
  have tp: "page_ok s1 t \<and> t \<notin> set fl1 \<and> t \<noteq> pgdir" if "j < 1024" "table_of (mem s1) pgdir (of_nat j) = Some t" for j t
  proof -
    have "t \<in> pt_pages (mem s1) pgdir" using that by (auto simp: pt_pages_alt)
    with ok1 pgdir_okD(3,4) [OF pd1, of "of_nat j"] that show ?thesis by (auto simp: uvm_ok_def)
  qed
  have inj: "i = j" if "i < 1024" "j < 1024" "table_of (mem s1) pgdir (of_nat i) = Some t"
    "table_of (mem s1) pgdir (of_nat j) = Some t" for i j t
  proof -
    have "(of_nat i :: uint) = of_nat j" using pgdir_okD(5) [OF pd1 _ _ that(3,4)] that(1,2) by simp
    then have "unat (of_nat i :: uint) = unat (of_nat j :: uint)" by simp
    with that(1,2) show ?thesis by simp
  qed
  have "\<exists>s' fl'. kfor [0..<1024] (free_table pgdir) s1 = Ret () s' \<and> kmem_rep s' fl' \<and> page_ok s' = page_ok s1
    \<and> set fl' = set fl1 \<union> {t. \<exists>j \<in> set [0..<1024]. table_of (mem s1) pgdir (of_nat j) = Some t}"
    by (rule free_tables_run) (use ok1 pgdir_okD(1,2) [OF pd1] tp inj in \<open>auto simp: uvm_ok_def\<close>)
  then obtain s2 fl2 where s2: "kfor [0..<1024] (free_table pgdir) s1 = Ret () s2" "kmem_rep s2 fl2" "page_ok s2 = page_ok s1"
    "set fl2 = set fl1 \<union> {t. \<exists>j \<in> {0..<1024}. table_of (mem s1) pgdir (of_nat j) = Some t}" by auto
  have "pgdir \<notin> set fl2" using s2(4) pgdir_okD(2) [OF pd1] tp [where t = pgdir] by auto
  then have k: "kfree pgdir s2 = Ret () (s2\<lparr>mem := freed_mem s2 pgdir, freelist := pgdir\<rparr>)"
    "kmem_rep (s2\<lparr>mem := freed_mem s2 pgdir, freelist := pgdir\<rparr>) (pgdir # fl2)"
    using kfree_run [of s2 pgdir] kfree_rep [OF s2(2), of pgdir] pok pok1 s2(2,3) by (auto simp: kmem_rep_def)
  have "set (pgdir # fl2) = set fl1 \<union> pt_pages (mem s) pgdir"
    using s2(4) tab by (auto simp: pt_pages_alt)
  then show ?thesis using nz s1(1) s2(1) k fl1
    by (intro exI [of _ "s2\<lparr>mem := freed_mem s2 pgdir, freelist := pgdir\<rparr>"] exI [of _ "pgdir # fl2"])
      (simp add: freevm_def kmonad NPDENTRIES_def del: upt.simps)
qed

section \<open>Properties\<close>

text \<open>A state for the witnesses: an empty page directory and two free pages.\<close>

definition vm_demo :: kmem where
  "vm_demo = kmem_demo\<lparr>freelist := 0x80300000, mem := store32 (\<lambda>_. 0) 0x80300000 0x80301000\<rparr>"

lemma vm_demo_page:
  assumes "p mod PGSIZE = 0" "p \<noteq> 0x80300000" "unat i < 1024"
  shows "load32 (mem vm_demo) (p + 4 * i) = 0"
proof -
  have "load32 (mem vm_demo) (p + 4 * i) = load32 (\<lambda>_. 0) (p + 4 * i)"
    using assms(2) store_entry_frame [of "0x80300000" 0]
    by (intro load_page_cong [OF assms(1,3)]) (simp add: vm_demo_def PGSIZE_def)
  then show ?thesis by (simp add: load32_def)
qed

lemma vm_demo_ok: "uvm_ok vm_demo 0x80303000 [0x80300000, 0x80301000]"
proof -
  have tab: "table_of (mem vm_demo) 0x80303000 i = None" if "unat i < 1024" for i
    using vm_demo_page [of "0x80303000" i] that by (simp add: table_of_def PGSIZE_def has_def)
  then have look: "lookup (mem vm_demo) 0x80303000 va = 0" for va by (simp add: lookup_def)
  have pt: "pt_pages (mem vm_demo) 0x80303000 = {0x80303000}" using tab by (auto simp: pt_pages_def)
  have "load32 (mem vm_demo) 0x80301000 = 0" using vm_demo_page [of "0x80301000" 0] by (simp add: PGSIZE_def)
  moreover have "load32 (mem vm_demo) 0x80300000 = 0x80301000" by (simp add: vm_demo_def)
  ultimately have "kmem_rep vm_demo [0x80300000, 0x80301000]"
    by (simp add: kmem_rep_def ptr_def) (simp add: vm_demo_def kmem_demo_def page_ok_def lock_free_def PGSIZE_def v2p_def KERNBASE_def PHYSTOP_def)
  moreover have "pgdir_ok (mem vm_demo) 0x80303000 [0x80300000, 0x80301000]"
    using tab by (simp add: pgdir_ok_def pt PGSIZE_def)
  moreover have "page_ok vm_demo 0x80303000" "KERNBASE < kend vm_demo"
    by (simp_all add: vm_demo_def kmem_demo_def page_ok_def PGSIZE_def v2p_def KERNBASE_def PHYSTOP_def)
  ultimately show ?thesis by (simp add: uvm_ok_def pt umapped_def look has_def)
qed

text \<open>C4. \<open>mappages\<close> on a range with no mapping: when it returns 0 the entry of every page of the range
  is the physical page at the same distance from \<open>pa\<close>, with the permission and present bits, and the
  entries of all other addresses are as before; when it returns -1 the allocator is exhausted, no
  entry outside the range has changed, and some page of the range is not mapped. In both cases the
  tables stay well formed and memory outside them is untouched.\<close>

theorem mappages_maps_range:
  assumes "kmem_rep s fl" "pgdir_ok (mem s) pgdir fl" "0 < nbytes" "unat va + unat nbytes \<le> 2 ^ 32"
    "\<And>vb. in_pages va nbytes vb \<Longrightarrow> \<not> has (lookup (mem s) pgdir vb) PTE_P"
  shows "\<exists>r s' fl'. mappages pgdir va nbytes pa perm s = Ret r s' \<and> pt_run pgdir s fl s' fl'
    \<and> (r = 0 \<and> (\<forall>vb. lookup (mem s') pgdir vb =
          (if in_pages va nbytes vb then (pa + (PGROUNDDOWN vb - PGROUNDDOWN va)) OR perm OR PTE_P
           else lookup (mem s) pgdir vb))
      \<or> r = - 1 \<and> fl' = [] \<and> (\<forall>vb. \<not> in_pages va nbytes vb \<longrightarrow> lookup (mem s') pgdir vb = lookup (mem s) pgdir vb)
        \<and> (\<exists>vb. in_pages va nbytes vb \<and> lookup (mem s') pgdir vb = lookup (mem s) pgdir vb))"
  using assms by (rule mappages_run)

theorem mappages_maps_range_witness:
  "\<exists>r s' fl'. mappages 0x80303000 0x5000 0x2000 0x300000 PTE_W vm_demo = Ret r s'
    \<and> pt_run 0x80303000 vm_demo [0x80300000, 0x80301000] s' fl'"
proof -
  have look: "\<not> has (lookup (mem vm_demo) 0x80303000 va) PTE_P" for va
    using vm_demo_page [of "0x80303000" "PDX va"] by (simp add: lookup_def table_of_def PGSIZE_def has_def)
  have "kmem_rep vm_demo [0x80300000, 0x80301000]" "pgdir_ok (mem vm_demo) 0x80303000 [0x80300000, 0x80301000]"
    using vm_demo_ok by (simp_all add: uvm_ok_def)
  from mappages_maps_range [OF this, of "0x2000" "0x5000" "0x300000" PTE_W] look show ?thesis by auto
qed

text \<open>C25. \<open>allocuvm\<close> with enough free memory for the pages and their tables: it returns the new size;
  every new address has a fresh page of its own, writable, accessible to the user and zeroed; the old
  mappings and the memory of all other pages are unchanged, and the address space is well formed.\<close>

theorem allocuvm_grows:
  assumes "uvm_ok s pgdir fl" "oldsz \<le> newsz" "newsz < KERNBASE"
    "unat newsz \<le> unat (PGROUNDUP oldsz) + 4096 * k" "2 * k \<le> length fl"
    "\<And>va. PGROUNDUP oldsz \<le> PGROUNDDOWN va \<Longrightarrow> PGROUNDDOWN va < newsz \<Longrightarrow> \<not> has (lookup (mem s) pgdir va) PTE_P"
  shows "\<exists>s' fl'. allocuvm pgdir oldsz newsz s = Ret newsz s' \<and> uvm_ok s' pgdir fl' \<and> set fl' \<subseteq> set fl
    \<and> grown pgdir (PGROUNDUP oldsz) newsz s fl s'"
proof -
  have b: "unat oldsz \<le> unat newsz" "unat newsz < 2147483648"
    using assms(2,3) by (simp_all add: word_less_nat_alt word_le_nat_alt KERNBASE_def)
  then have "unat (oldsz + PGSIZE - 1) = unat oldsz + 4095"
    by (simp add: PGSIZE_def add_diff_eq [symmetric] unat_word_ariths)
  then have "unat (PGROUNDUP oldsz) \<le> unat newsz + 4095" using b by (simp add: PGROUNDUP_eq unat_PGROUNDDOWN)
  moreover have "unat newsz \<le> unat (PGROUNDUP oldsz) + 4096 * min k 524288" using assms(4) b by (simp add: min_def)
  ultimately have "\<exists>s' fl'. allocuvm_loop (2 ^ 20) pgdir (PGROUNDUP oldsz) oldsz newsz s = Ret newsz s' \<and> uvm_ok s' pgdir fl'
      \<and> grown pgdir (PGROUNDUP oldsz) newsz s fl s' \<and> set fl' \<subseteq> set fl"
    using assms(5) by (intro allocuvm_loop_run [where k = "min k 524288"] assms(1,3,6)) auto
  moreover have "allocuvm pgdir oldsz newsz s = allocuvm_loop (2 ^ 20) pgdir (PGROUNDUP oldsz) oldsz newsz s"
  proof -
    have "\<not> KERNBASE \<le> newsz" "\<not> newsz < oldsz" using assms(2,3) by auto
    then show ?thesis by (simp only: allocuvm_def if_False)
  qed
  ultimately show ?thesis by metis
qed

theorem allocuvm_grows_witness:
  "\<exists>s' fl'. allocuvm 0x80303000 0 4096 vm_demo = Ret 4096 s' \<and> uvm_ok s' 0x80303000 fl' \<and> ubyte (mem s') 0x80303000 17 = 0"
proof -
  have look: "\<not> has (lookup (mem vm_demo) 0x80303000 va) PTE_P" for va
    using vm_demo_page [of "0x80303000" "PDX va"] by (simp add: lookup_def table_of_def PGSIZE_def has_def)
  obtain s' fl' where "allocuvm 0x80303000 0 4096 vm_demo = Ret 4096 s'" "uvm_ok s' 0x80303000 fl'"
    "grown 0x80303000 (PGROUNDUP 0) 4096 vm_demo [0x80300000, 0x80301000] s'"
    using allocuvm_grows [OF vm_demo_ok, of 0 4096 1] look by (auto simp: KERNBASE_def)
  moreover have "PGROUNDDOWN 17 = 0" "PGROUNDUP 0 = 0" by (simp_all add: PGROUNDDOWN_def PGROUNDUP_def PGSIZE_def)
  ultimately show ?thesis by (auto simp: grown_def)
qed

text \<open>C26. \<open>allocuvm\<close> does not look at what \<open>mappages\<close> returns. With a single free page and no table for
  the address, the page is taken and zeroed, the table cannot be allocated, and \<open>allocuvm\<close> reports
  success: the new address is not mapped, and the page is lost to the allocator.\<close>

theorem allocuvm_reports_unmapped:
  assumes "kmem_rep s [m]" "pgdir_ok (mem s) pgdir [m]" "a mod PGSIZE = 0" "a + PGSIZE < KERNBASE" "a < KERNBASE"
    "table_of (mem s) pgdir (PDX a) = None"
  shows "\<exists>s'. allocuvm pgdir a (a + PGSIZE) s = Ret (a + PGSIZE) s' \<and> lookup (mem s') pgdir a = 0
    \<and> kmem_rep s' [] \<and> m \<notin> pt_pages (mem s') pgdir"
proof -
  define s1 where "s1 = s\<lparr>freelist := load32 (mem s) m, mem := memset (mem s) m 0 PGSIZE\<rparr>"
  have k: "kalloc s = Ret (Some m) (s\<lparr>freelist := load32 (mem s) m\<rparr>)" "kmem_rep (s\<lparr>freelist := load32 (mem s) m\<rparr>) []"
    using kalloc_rep [OF assms(1)] by simp_all
  have m: "m mod PGSIZE = 0" using assms(1) by (auto simp: kmem_rep_def page_ok_def)
  have rep1: "kmem_rep s1 []" using k(2) kmem_rep_store [OF k(2), of "mem s1"] by (simp add: s1_def)
  have "mem s1 b = mem s b" if "PGROUNDDOWN b \<in> pt_pages (mem s) pgdir" for b
    using that assms(2) memset_other [OF m, of b] by (auto simp: s1_def pgdir_ok_def)
  note f = pt_frame [where m = "mem s" and m' = "mem s1", OF pgdir_okD(1) [OF assms(2)] this]
  have tab: "table_of (mem s1) pgdir (PDX a) = None" using assms(6) by (simp add: f(1))
  have "walkpgdir pgdir a True s1 = Ret None s1"
  proof -
    have "kalloc s1 = Ret None s1" using kalloc_run [of s1] rep1 by (auto simp: kmem_rep_def ptr_eq)
    moreover have "\<not> has (load32 (mem s1) (pgdir + 4 * PDX a)) PTE_P"
      using tab by (auto simp: table_of_def Let_def split: if_splits)
    ultimately show ?thesis by (simp add: walkpgdir_def get32_def Let_def kmonad)
  qed
  then have "mappages_loop (Suc n) pgdir a l pa perm s1 = Ret (- 1) s1" for n l pa perm by (simp add: kmonad)
  from this [of "2 ^ 20 - 1"] have map: "mappages pgdir a nb pa perm s1 = Ret (- 1) s1" for nb pa perm
    by (simp add: mappages_def PGROUNDDOWN_self [OF assms(3)] del: mappages_loop.simps)
  have "unat (a + PGSIZE) = unat a + 4096"
    using assms(5) by (simp add: word_less_nat_alt KERNBASE_def unat_word_ariths)
  then have lt: "a < a + PGSIZE" by (simp add: word_less_nat_alt)
  have up: "PGROUNDUP a = a"
  proof -
    have "a + PGSIZE - 1 - a < PGSIZE" by (simp add: PGSIZE_def)
    then show ?thesis unfolding PGROUNDUP_eq using in_page_iff [OF assms(3)] by blast
  qed
  have "allocuvm_loop (Suc (Suc n)) pgdir a a (a + PGSIZE) s = Ret (a + PGSIZE) s1" for n
    using lt k(1) map by (simp add: kmonad zero_page_def s1_def)
  from this [of "2 ^ 20 - 2"] have loop: "allocuvm_loop (2 ^ 20) pgdir a a (a + PGSIZE) s = Ret (a + PGSIZE) s1"
    by (simp del: allocuvm_loop.simps)
  have "allocuvm pgdir a (a + PGSIZE) s = Ret (a + PGSIZE) s1"
  proof -
    have "\<not> KERNBASE \<le> a + PGSIZE" "\<not> a + PGSIZE < a" using assms(4) lt by auto
    then show ?thesis using loop by (simp only: allocuvm_def up if_False)
  qed
  moreover have "lookup (mem s1) pgdir a = 0" using tab by (simp add: lookup_def)
  moreover have "m \<notin> pt_pages (mem s1) pgdir" using assms(2) f(3) by (auto simp: pgdir_ok_def)
  ultimately show ?thesis using rep1 by blast
qed

definition one_page_demo :: kmem where
  "one_page_demo = kmem_demo\<lparr>freelist := 0x80300000\<rparr>"

theorem allocuvm_reports_unmapped_witness:
  "\<exists>s'. allocuvm 0x80303000 0x4000 0x5000 one_page_demo = Ret 0x5000 s' \<and> lookup (mem s') 0x80303000 0x4000 = 0
    \<and> kmem_rep s' []"
proof -
  have "table_of (mem one_page_demo) 0x80303000 i = None" for i
    by (simp add: table_of_def one_page_demo_def kmem_demo_def load32_def has_def)
  moreover from this have "pgdir_ok (mem one_page_demo) 0x80303000 [0x80300000]"
    by (auto simp: pgdir_ok_def pt_pages_def PGSIZE_def)
  moreover have "kmem_rep one_page_demo [0x80300000]"
    by (simp add: kmem_rep_def one_page_demo_def kmem_demo_def load32_def ptr_def page_ok_def lock_free_def PGSIZE_def v2p_def
      KERNBASE_def PHYSTOP_def)
  ultimately show ?thesis
    using allocuvm_reports_unmapped [of one_page_demo "0x80300000" "0x80303000" "0x4000"]
    by (auto simp: PGSIZE_def KERNBASE_def)
qed

text \<open>C27. \<open>freevm\<close> gives back every page of an address space exactly once: afterwards the free list, which
  has no duplicates, holds the pages it held before, the pages behind the user addresses, the page
  tables and the directory, and nothing else.\<close>

theorem freevm_frees_each_page_once:
  assumes "uvm_ok s pgdir fl"
  shows "\<exists>s' fl'. freevm pgdir s = Ret () s' \<and> kmem_rep s' fl' \<and> distinct fl'
    \<and> set fl' = set fl \<union> {upage (mem s) pgdir va | va. umapped (mem s) pgdir va} \<union> pt_pages (mem s) pgdir"
  using freevm_run [OF assms] by (auto simp: kmem_rep_def)

theorem freevm_frees_each_page_once_witness:
  "\<exists>s' fl'. freevm 0x80303000 vm_demo = Ret () s' \<and> kmem_rep s' fl'
    \<and> {0x80300000, 0x80301000, 0x80303000} \<subseteq> set fl'"
  using freevm_frees_each_page_once [OF vm_demo_ok] by (auto simp: pt_pages_def)

end
