(* ===== verification/Process.thy ===== *)
theory Process
  imports File Vm
begin

text \<open>
  The life cycle of processes: \<open>userinit\<close>, \<open>growproc\<close>, \<open>fork\<close>, \<open>exit\<close> and \<open>wait\<close> of \<open>proc.c\<close>, with \<open>getProcInfo\<close>, and
  \<open>exec\<close> (\<open>exec.c\<close>, \<open>elf.h\<close>, \<open>loaduvm\<close> of \<open>vm.c\<close>). They join the process table with the memory of processes
  and the file layers. The steps on the table alone (\<open>init_lists\<close>, \<open>allocproc\<close>, \<open>fork_undo\<close>, \<open>fork_ready\<close>, \<open>exit_table\<close>, \<open>reap_slot\<close>)
  are those of the scheduler theories.
\<close>

unbundle bit_operations_syntax

section \<open>The first process\<close>

definition bytes_of :: "string \<Rightarrow> u8 list" where
  "bytes_of cs = map (\<lambda>c. of_nat (of_char c)) cs"

text \<open>\<open>safestrcpy\<close> into the sixteen bytes of a process name; the terminating NUL is left out.\<close>

definition proc_name :: "u8 list \<Rightarrow> u8 list" where
  "proc_name bs = take 15 bs"

definition user_tf :: trapframe where
  "user_tf = zero_tf\<lparr>tf_cs := 35, tf_ds := 43, tf_es := 43, tf_ss := 43, tf_eflags := 0x200, tf_esp := PGSIZE, tf_eip := 0\<rparr>"

definition userinit :: "u8 list \<Rightarrow> ('z cstate_scheme, unit) km" where
  "userinit initcode = kdo [
     init_lists,
     kbind allocproc (\<lambda>r. kbind (kderef ''p'' r) (\<lambda>p. kdo [
       upd_proc p (\<lambda>x. x\<lparr>p_uid := 0, p_gid := 1, p_priority := 1\<rparr>),
       kmod (\<lambda>s. s\<lparr>initproc := Some p\<rparr>),
       kbind setupkvm (\<lambda>d. case d of None \<Rightarrow> kpanic ''userinit: out of memory?''
         | Some d \<Rightarrow> kdo [upd_proc p (\<lambda>x. x\<lparr>p_pgdir := d\<rparr>), inituvm d initcode]),
       upd_proc p (\<lambda>x. x\<lparr>p_sz := PGSIZE\<rparr>),
       upd_proc p (\<lambda>x. x\<lparr>p_tf := user_tf\<rparr>),
       upd_proc p (\<lambda>x. x\<lparr>p_name := proc_name (bytes_of ''initcode'')\<rparr>),
       kbind (namei [47]) (\<lambda>ip. upd_proc p (\<lambda>x. x\<lparr>p_cwd := ip\<rparr>)),
       set_state p RUNNABLE,
       acquire_lk PtableLock,
       kthen (AddReadyList p) (kret ()),
       release_lk PtableLock]))]"

section \<open>fork, exit and wait\<close>

definition growproc :: "int \<Rightarrow> ('z ptable_scheme, int) km" where
  "growproc n = kbind curproc (\<lambda>me. kbind (the_proc me id) (\<lambda>x.
     let done = (\<lambda>sz. kdo2 [upd_proc me (\<lambda>x. x\<lparr>p_sz := sz\<rparr>), switchuvm me] (kret 0)) in
     if n > 0 then kbind (allocuvm (p_pgdir x) (p_sz x) (p_sz x + of_int n)) (\<lambda>sz. if sz = 0 then kret (- 1) else done sz)
     else if n < 0 then kbind (deallocuvm (p_pgdir x) (p_sz x) (p_sz x + of_int n)) (\<lambda>sz. if sz = 0 then kret (- 1) else done sz)
     else done (p_sz x)))"

definition fork_files :: "nat \<Rightarrow> nat \<Rightarrow> nat \<Rightarrow> ('z fstate_scheme, unit) km" where
  "fork_files me np i = kbind (the_proc me (\<lambda>x. p_ofile x i)) (\<lambda>f. case f of None \<Rightarrow> kret ()
   | Some f \<Rightarrow> kbind (filedup f) (\<lambda>f. upd_proc np (\<lambda>x. x\<lparr>p_ofile := (p_ofile x)(i := Some f)\<rparr>)))"

text \<open>The copying of the parent into the child \<open>np\<close>, with the page directory \<open>d\<close> of the copied memory.\<close>

definition fork_copy :: "nat \<Rightarrow> nat \<Rightarrow> ('z fstate_scheme, unit) km" where
  "fork_copy me np = kbind (the_proc me id) (\<lambda>x. kdo [
     upd_proc np (\<lambda>y. y\<lparr>p_sz := p_sz x\<rparr>),
     upd_proc np (\<lambda>y. y\<lparr>p_parent := Some me\<rparr>),
     upd_proc np (\<lambda>y. y\<lparr>p_tf := p_tf x\<rparr>),
     upd_proc np (\<lambda>y. y\<lparr>p_uid := p_uid x, p_gid := p_gid x, p_priority := 1\<rparr>),
     upd_proc np (\<lambda>y. y\<lparr>p_tf := (p_tf y)\<lparr>tf_eax := 0\<rparr>\<rparr>),
     kfor [0..<NOFILE] (fork_files me np),
     (case p_cwd x of None \<Rightarrow> kfault ''cwd'' | Some ip \<Rightarrow> kbind (idup ip) (\<lambda>ip. upd_proc np (\<lambda>y. y\<lparr>p_cwd := Some ip\<rparr>))),
     upd_proc np (\<lambda>y. y\<lparr>p_name := p_name x\<rparr>)])"

definition fork :: "('z fstate_scheme, int) km" where
  "fork = kbind allocproc (\<lambda>r. case r of None \<Rightarrow> kret (- 1)
   | Some np \<Rightarrow> kbind curproc (\<lambda>me. kbind (the_proc me id) (\<lambda>x. kbind (copyuvm (p_pgdir x) (p_sz x)) (\<lambda>d. case d of
       None \<Rightarrow> kbind (the_proc np p_kstack) (\<lambda>k. kdo2 [
         upd_proc np (\<lambda>y. y\<lparr>p_pgdir := 0\<rparr>),
         kfree k,
         upd_proc np (\<lambda>y. y\<lparr>p_kstack := 0\<rparr>),
         fork_undo np] (kret (- 1)))
     | Some d \<Rightarrow> kthen (upd_proc np (\<lambda>y. y\<lparr>p_pgdir := d\<rparr>)) (kthen (fork_copy me np)
         (kbind (the_proc np p_pid) (\<lambda>pid. kdo2 [fork_ready np] (kret pid))))))))"

definition exit_file :: "nat \<Rightarrow> nat \<Rightarrow> ('z fstate_scheme, unit) km" where
  "exit_file me fd = kbind (the_proc me (\<lambda>x. p_ofile x fd)) (\<lambda>f. case f of None \<Rightarrow> kret ()
   | Some f \<Rightarrow> kdo [fileclose f, upd_proc me (\<lambda>x. x\<lparr>p_ofile := (p_ofile x)(fd := None)\<rparr>)])"

definition exit :: "('z fstate_scheme, unit) km" where
  "exit = kbind curproc (\<lambda>me. kbind (kget initproc) (\<lambda>ini.
     if ini = Some me then kpanic ''init exiting''
     else kdo [
       kfor [0..<NOFILE] (exit_file me),
       begin_op,
       kbind (the_proc me p_cwd) (\<lambda>cwd. case cwd of None \<Rightarrow> kfault ''cwd'' | Some ip \<Rightarrow> iput ip),
       end_op,
       upd_proc me (\<lambda>x. x\<lparr>p_cwd := None\<rparr>),
       exit_table]))"

text \<open>The scan of \<open>wait\<close>: the first zombie child, and whether there is a child at all.\<close>

fun wait_scan :: "(nat \<Rightarrow> proc) \<Rightarrow> nat \<Rightarrow> nat list \<Rightarrow> bool \<Rightarrow> nat option \<times> bool" where
  "wait_scan ps me [] kids = (None, kids)"
| "wait_scan ps me (p # ps') kids = (if p_parent (ps p) \<noteq> Some me then wait_scan ps me ps' kids
     else if p_state (ps p) = ZOMBIE then (Some p, True)
     else wait_scan ps me ps' True)"

definition wait_loop :: "('z ptable_scheme, int) km" where
  "wait_loop = kbind curproc (\<lambda>me. kbind (kget (\<lambda>s. wait_scan (procs s) me [0..<NPROC] False)) (\<lambda>(r, havekids). case r of
     Some p \<Rightarrow> kbind (the_proc p id) (\<lambda>x. kdo2 [
       kfree (p_kstack x),
       upd_proc p (\<lambda>x. x\<lparr>p_kstack := 0\<rparr>),
       freevm (p_pgdir x),
       reap_slot p,
       release_lk PtableLock] (kret (p_pid x)))
   | None \<Rightarrow> kbind cur_killed (\<lambda>k.
       if \<not> havekids \<or> k then kdo2 [release_lk PtableLock] (kret (- 1))
       else kdo2 [sleep (ProcChan me) (Some PtableLock)] (kret 0))))"

definition wait :: "('z ptable_scheme, int) km" where
  "wait = kthen (acquire_lk PtableLock) wait_loop"

definition wait_resume :: "('z ptable_scheme, int) km" where
  "wait_resume = kthen (sleep_tail PtableLock) wait_loop"

section \<open>The process listing for users\<close>

record uproc =
  u_pid :: int
  u_uid :: int
  u_gid :: int
  u_ppid :: int
  u_priority :: int
  u_state :: string
  u_size :: uint
  u_name :: "u8 list"

fun uproc_state :: "procstate \<Rightarrow> string" where
  "uproc_state UNUSED = ''UNUSED ''"
| "uproc_state EMBRYO = ''EMBRYO ''"
| "uproc_state SLEEPING = ''SLEEP  ''"
| "uproc_state RUNNABLE = ''READY  ''"
| "uproc_state RUNNING = ''RUNNING''"
| "uproc_state ZOMBIE = ''ZOMBIE ''"

text \<open>The entries \<open>getProcInfo\<close> stores, in order; it goes on whatever the size of the table of the caller.\<close>

fun proc_entries :: "nat list \<Rightarrow> ('z ptable_scheme, uproc list) km" where
  "proc_entries [] = kret []"
| "proc_entries (p # ps) = kbind (the_proc p id) (\<lambda>x. if p_state x = UNUSED then proc_entries ps
     else kbind (kderef ''parent'' (p_parent x)) (\<lambda>q. kbind (the_proc q p_pid) (\<lambda>ppid.
       kbind (proc_entries ps) (\<lambda>us. kret (\<lparr>u_pid = p_pid x, u_uid = p_uid x, u_gid = p_gid x, u_ppid = ppid,
         u_priority = p_priority x, u_state = uproc_state (p_state x), u_size = p_sz x,
         u_name = takeWhile (\<lambda>b. b \<noteq> 0) (p_name x)\<rparr> # us)))))"

definition getProcInfo :: "int \<Rightarrow> ('z ptable_scheme, int \<times> uproc list) km" where
  "getProcInfo max_n = kbind (proc_entries [0..<NPROC]) (\<lambda>us.
     kret (if int (length us) > max_n then - 1 else int (length us), us))"

section \<open>exec\<close>

text \<open>\<open>loaduvm\<close>: the page offsets \<open>i\<close> are given as a list; the bytes go to the physical pages of the table.\<close>

fun loaduvm_loop :: "uint \<Rightarrow> uint \<Rightarrow> nat \<Rightarrow> uint \<Rightarrow> uint \<Rightarrow> nat list \<Rightarrow> ('z cstate_scheme, int) km" where
  "loaduvm_loop pgdir addr ip offset sz [] = kret 0"
| "loaduvm_loop pgdir addr ip offset sz (i # is) = kbind (walkpgdir pgdir (addr + of_nat i) False) (\<lambda>r. case r of
     None \<Rightarrow> kpanic ''loaduvm: address should exist''
   | Some pte \<Rightarrow> kbind (get32 pte) (\<lambda>e.
       let pa = PTE_ADDR e; n = (if sz - of_nat i < PGSIZE then sz - of_nat i else PGSIZE) in
       kbind (readi ip (offset + of_nat i) n) (\<lambda>(r, bs).
         kthen (kmod (\<lambda>s. s\<lparr>mem := put_bytes (mem s) (p2v pa) bs\<rparr>))
           (if of_int r \<noteq> n then kret (- 1) else loaduvm_loop pgdir addr ip offset sz is))))"

definition loaduvm :: "uint \<Rightarrow> uint \<Rightarrow> nat \<Rightarrow> uint \<Rightarrow> uint \<Rightarrow> ('z cstate_scheme, int) km" where
  "loaduvm pgdir addr ip offset sz = (if addr mod PGSIZE \<noteq> 0 then kpanic ''loaduvm: addr must be page aligned''
     else loaduvm_loop pgdir addr ip offset sz (map (\<lambda>k. 4096 * k) [0..<(unat sz + 4095) div 4096]))"

definition ELF_MAGIC :: uint where
  "ELF_MAGIC = 0x464C457F"

definition MAXARG :: nat where
  "MAXARG = 32"

record elfhdr =
  e_magic :: uint
  e_entry :: uint
  e_phoff :: uint
  e_phnum :: u16

definition elf_of :: "u8 list \<Rightarrow> elfhdr" where
  "elf_of d = \<lparr>e_magic = rd32 d 0, e_entry = rd32 d 24, e_phoff = rd32 d 28, e_phnum = rd16 d 44\<rparr>"

record proghdr =
  ph_type :: uint
  ph_off :: uint
  ph_vaddr :: uint
  ph_filesz :: uint
  ph_memsz :: uint

definition ph_of :: "u8 list \<Rightarrow> proghdr" where
  "ph_of d = \<lparr>ph_type = rd32 d 0, ph_off = rd32 d 4, ph_vaddr = rd32 d 8, ph_filesz = rd32 d 16, ph_memsz = rd32 d 20\<rparr>"

text \<open>The loop over the program headers; \<open>None\<close> is the jump to \<open>bad\<close>.\<close>

fun exec_load :: "nat \<Rightarrow> uint \<Rightarrow> nat \<Rightarrow> uint \<Rightarrow> uint \<Rightarrow> ('z cstate_scheme, uint option) km" where
  "exec_load ip pgdir 0 off sz = kret (Some sz)"
| "exec_load ip pgdir (Suc k) off sz = kbind (readi ip off 32) (\<lambda>(r, d).
     if r \<noteq> 32 then kret None
     else let ph = ph_of d in
     if ph_type ph \<noteq> 1 then exec_load ip pgdir k (off + 32) sz
     else if ph_memsz ph < ph_filesz ph then kret None
     else kbind (allocuvm pgdir sz (ph_vaddr ph + ph_memsz ph)) (\<lambda>sz.
       if sz = 0 then kret None
       else kbind (loaduvm pgdir (ph_vaddr ph) ip (ph_off ph) (ph_filesz ph)) (\<lambda>r.
         if r < 0 then kret None else exec_load ip pgdir k (off + 32) sz)))"

text \<open>The argument strings, pushed in order; the result is the stack pointer and the pointers to the strings.\<close>

fun exec_args :: "uint \<Rightarrow> u8 list list \<Rightarrow> nat \<Rightarrow> uint \<Rightarrow> ('z kmem_scheme, (uint \<times> uint list) option) km" where
  "exec_args pgdir [] argc sp = kret (Some (sp, []))"
| "exec_args pgdir (a # as) argc sp = (if argc \<ge> MAXARG then kret None
     else let sp = (sp - of_nat (length a + 1)) AND NOT 3 in
     kbind (copyout pgdir sp (a @ [0])) (\<lambda>r. if r < 0 then kret None
     else kbind (exec_args pgdir as (Suc argc) sp) (\<lambda>r. kret (map_option (\<lambda>(sp', us). (sp', sp # us)) r))))"

definition word_bytes :: "uint \<Rightarrow> u8 list" where
  "word_bytes w = [ucast w, ucast (drop_bit 8 w), ucast (drop_bit 16 w), ucast (drop_bit 24 w)]"

definition last_elem :: "u8 list \<Rightarrow> u8 list" where
  "last_elem path = rev (takeWhile (\<lambda>c. c \<noteq> 47) (rev path))"

text \<open>The label \<open>bad\<close>, with the page directory made so far and the inode when it is still locked.\<close>

definition exec_bad :: "uint option \<Rightarrow> nat option \<Rightarrow> ('z cstate_scheme, int) km" where
  "exec_bad pgdir ip = kdo2 [
     (case pgdir of None \<Rightarrow> kret () | Some d \<Rightarrow> freevm d),
     (case ip of None \<Rightarrow> kret () | Some ip \<Rightarrow> kdo [iunlockput ip, end_op])] (kret (- 1))"

text \<open>From the allocation of the stack on.\<close>

definition exec_stack :: "u8 list \<Rightarrow> u8 list list \<Rightarrow> uint \<Rightarrow> elfhdr \<Rightarrow> uint \<Rightarrow> ('z cstate_scheme, int) km" where
  "exec_stack path argv pgdir elf sz = (let sz = PGROUNDUP sz in kbind (allocuvm pgdir sz (sz + 2 * PGSIZE)) (\<lambda>sz.
     if sz = 0 then exec_bad (Some pgdir) None
     else kthen (clearpteu pgdir (sz - 2 * PGSIZE)) (kbind (exec_args pgdir argv 0 sz) (\<lambda>r. case r of
       None \<Rightarrow> exec_bad (Some pgdir) None
     | Some (sp, us) \<Rightarrow>
         let argc = length us;
             ustack = [0xffffffff, of_nat argc, sp - of_nat ((argc + 1) * 4)] @ us @ [0];
             sp = sp - of_nat ((3 + argc + 1) * 4) in
         kbind (copyout pgdir sp (concat (map word_bytes ustack))) (\<lambda>r. if r < 0 then exec_bad (Some pgdir) None
         else kbind curproc (\<lambda>me. kbind (the_proc me p_pgdir) (\<lambda>oldpgdir. kdo2 [
           upd_proc me (\<lambda>x. x\<lparr>p_name := proc_name (last_elem path)\<rparr>),
           upd_proc me (\<lambda>x. x\<lparr>p_pgdir := pgdir\<rparr>),
           upd_proc me (\<lambda>x. x\<lparr>p_sz := sz\<rparr>),
           upd_proc me (\<lambda>x. x\<lparr>p_tf := (p_tf x)\<lparr>tf_eip := e_entry elf, tf_esp := sp\<rparr>\<rparr>),
           switchuvm me,
           freevm oldpgdir] (kret 0))))))))"

text \<open>
  \<open>exec\<close>. The comparison with \<open>sizeof(elf)\<close> is unsigned, so that the result -1 of \<open>readi\<close> passes it and the
  header is used although it was not read; the model stops there.
\<close>

definition exec :: "u8 list \<Rightarrow> u8 list list \<Rightarrow> ('z cstate_scheme, int) km" where
  "exec path argv = kthen begin_op (kbind (namei path) (\<lambda>r. case r of
     None \<Rightarrow> kdo2 [end_op] (kret (- 1))
   | Some ip \<Rightarrow> kthen (ilock ip) (kbind (readi ip 0 52) (\<lambda>(r, d).
       if r < 0 then kfault ''elf''
       else if r < 52 then exec_bad None (Some ip)
       else let elf = elf_of d in
       if e_magic elf \<noteq> ELF_MAGIC then exec_bad None (Some ip)
       else kbind setupkvm (\<lambda>p. case p of
         None \<Rightarrow> exec_bad None (Some ip)
       | Some pgdir \<Rightarrow> kbind (exec_load ip pgdir (unat (e_phnum elf)) (e_phoff elf) 0) (\<lambda>r. case r of
           None \<Rightarrow> exec_bad (Some pgdir) (Some ip)
         | Some sz \<Rightarrow> kthen (kdo [iunlockput ip, end_op]) (exec_stack path argv pgdir elf sz)))))))"

end
