(* ===== verification/Ide.thy ===== *)
theory Ide
  imports Bio Devices
begin

unbundle bit_operations_syntax

text \<open>
  The driver of the IDE disks, \<open>ide.c\<close>. Buffers wait in a queue through \<open>qnext\<close>; the first one is the
  request the controller works on, and the interrupt at its end starts the next. The controller is as its
  interface describes it: a block goes to or comes from the sector and the drive that the last bytes written to
  its address ports name. Drive 1 is the disk of the file system.

  The theorem shows that the driver does what the memory disk of \<open>memide.c\<close> does at once, in the order of the
  requests; so what the theories above the buffer cache show for the memory disk holds for this driver as well.
\<close>

section \<open>The controller\<close>

definition SECTOR_SIZE :: nat where
  "SECTOR_SIZE = 512"

definition IDE_BSY :: u8 where
  "IDE_BSY = 0x80"

definition IDE_DRDY :: u8 where
  "IDE_DRDY = 0x40"

definition IDE_DF :: u8 where
  "IDE_DF = 0x20"

definition IDE_ERR :: u8 where
  "IDE_ERR = 0x01"

definition IDE_CMD_READ :: u8 where
  "IDE_CMD_READ = 0x20"

definition IDE_CMD_WRITE :: u8 where
  "IDE_CMD_WRITE = 0x30"

definition FSSIZE :: uint where
  "FSSIZE = 1000"

text \<open>The last byte written to a port.\<close>

definition port_reg :: "hardware \<Rightarrow> u16 \<Rightarrow> u8" where
  "port_reg h p = (case map_of (ports h) p of None \<Rightarrow> 0 | Some b \<Rightarrow> b)"

definition ide_sector :: "hardware \<Rightarrow> uint" where
  "ide_sector h = ucast (port_reg h 0x1f3) OR push_bit 8 (ucast (port_reg h 0x1f4))
     OR push_bit 16 (ucast (port_reg h 0x1f5)) OR push_bit 24 (ucast (port_reg h 0x1f6 AND 0x0f))"

definition ide_drive1 :: "hardware \<Rightarrow> bool" where
  "ide_drive1 h \<longleftrightarrow> port_reg h 0x1f6 AND 0x10 \<noteq> 0"

text \<open>\<open>outsl\<close> and \<open>insl\<close> on the data port move the block of the current command.\<close>

definition outsl :: "block \<Rightarrow> ('z bstate_scheme, unit) km" where
  "outsl d = kbind (kget devices) (\<lambda>h.
     if port_reg h 0x1f7 \<noteq> IDE_CMD_WRITE then kfault ''outsl''
     else if ide_drive1 h then kmod (\<lambda>s. s\<lparr>dwrites := (ide_sector h, d) # dwrites s\<rparr>)
     else kmod (\<lambda>s. s\<lparr>boot_disk := (boot_disk s)(ide_sector h := d)\<rparr>))"

definition insl :: "('z bstate_scheme, block) km" where
  "insl = kbind (kget devices) (\<lambda>h.
     if port_reg h 0x1f7 \<noteq> IDE_CMD_READ then kfault ''insl''
     else kget (\<lambda>s. (if ide_drive1 h then disk s else boot_disk s) (ide_sector h)))"

section \<open>The driver\<close>

text \<open>The wait for the controller: as many rounds as there are readings of its status.\<close>

definition ide_busy :: "u8 \<Rightarrow> bool" where
  "ide_busy r \<longleftrightarrow> r AND (IDE_BSY OR IDE_DRDY) \<noteq> IDE_DRDY"

fun idewait_loop :: "u8 list \<Rightarrow> ('z kcore_scheme, u8) km" where
  "idewait_loop [] = khang ''idewait''"
| "idewait_loop (_ # rs) = kbind (inb 0x1f7) (\<lambda>r. if ide_busy r then idewait_loop rs else kret r)"

definition idewait :: "bool \<Rightarrow> ('z kcore_scheme, int) km" where
  "idewait checkerr = kbind (the_hw (\<lambda>h. portin h 0x1f7)) (\<lambda>rs. kbind (idewait_loop rs) (\<lambda>r.
     kret (if checkerr \<and> r AND (IDE_DF OR IDE_ERR) \<noteq> 0 then - 1 else 0)))"

fun ide_probe :: "nat \<Rightarrow> ('z bstate_scheme, unit) km" where
  "ide_probe 0 = kret ()"
| "ide_probe (Suc n) = kbind (inb 0x1f7) (\<lambda>r. if r \<noteq> 0 then kmod (\<lambda>s. s\<lparr>havedisk1 := True\<rparr>) else ide_probe n)"

definition ideinit :: "('z bstate_scheme, unit) km" where
  "ideinit = kdo [
     kmod (\<lambda>s. s\<lparr>owner := (owner s)(IdeLock := None)\<rparr>),
     picenable IRQ_IDE,
     kbind (the_hw ncpu) (\<lambda>n. ioapicenable IRQ_IDE (of_nat n - 1)),
     kbind (idewait False) (\<lambda>_. kret ()),
     outb 0x1f6 (0xe0 OR push_bit 4 1),
     ide_probe 1000,
     outb 0x1f6 (0xe0 OR push_bit 4 0)]"

definition idestart :: "nat option \<Rightarrow> ('z bstate_scheme, unit) km" where
  "idestart bp = (case bp of None \<Rightarrow> kpanic ''idestart'' | Some b \<Rightarrow> kbind (the_buf b id) (\<lambda>x.
     if b_blockno x \<ge> FSSIZE then kpanic ''incorrect blockno''
     else let sector_per_block = BSIZE div SECTOR_SIZE; sector = b_blockno x * of_nat sector_per_block in
     if sector_per_block > 7 then kpanic ''idestart''
     else kdo [
       kbind (idewait False) (\<lambda>_. kret ()),
       outb 0x3f6 0,
       outb 0x1f2 (of_nat sector_per_block),
       outb 0x1f3 (ucast (sector AND 0xff)),
       outb 0x1f4 (ucast (drop_bit 8 sector AND 0xff)),
       outb 0x1f5 (ucast (drop_bit 16 sector AND 0xff)),
       outb 0x1f6 (0xe0 OR push_bit 4 (ucast (b_dev x AND 1)) OR ucast (drop_bit 24 sector AND 0x0f)),
       (if b_dirty x then kdo [outb 0x1f7 IDE_CMD_WRITE, outsl (b_data x)]
        else outb 0x1f7 IDE_CMD_READ)]))"

definition ideintr :: "('z bstate_scheme, unit) km" where
  "ideintr = kthen (acquire_lk IdeLock) (kbind (kget idequeue) (\<lambda>q. case q of
     None \<Rightarrow> release_lk IdeLock
   | Some b \<Rightarrow> kdo [
       kbind (the_buf b b_qnext) (\<lambda>n. kmod (\<lambda>s. s\<lparr>idequeue := n\<rparr>)),
       kbind (the_buf b b_dirty) (\<lambda>d. if d then kret () else kbind (idewait True) (\<lambda>r.
         if r \<ge> 0 then kbind insl (\<lambda>data. upd_buf b (\<lambda>x. x\<lparr>b_data := data\<rparr>)) else kret ())),
       upd_buf b (\<lambda>x. x\<lparr>b_valid := True\<rparr>),
       upd_buf b (\<lambda>x. x\<lparr>b_dirty := False\<rparr>),
       wakeup (BufChan b),
       kbind (kget idequeue) (\<lambda>q. if q \<noteq> None then idestart q else kret ()),
       release_lk IdeLock]))"

text \<open>The walk to the end of the queue; a queue of the \<open>NBUF\<close> buffers without a cycle is not longer than that.\<close>

fun queue_end :: "nat \<Rightarrow> (nat \<Rightarrow> nat option) \<Rightarrow> nat \<Rightarrow> stop + nat" where
  "queue_end 0 nx b = Inl (Hang ''iderw'')"
| "queue_end (Suc n) nx b = (case nx b of None \<Rightarrow> Inr b | Some c \<Rightarrow> queue_end n nx c)"

definition ide_append :: "nat \<Rightarrow> ('z bstate_scheme, unit) km" where
  "ide_append b = kthen (upd_buf b (\<lambda>x. x\<lparr>b_qnext := None\<rparr>)) (kbind (kget idequeue) (\<lambda>q. case q of
     None \<Rightarrow> kmod (\<lambda>s. s\<lparr>idequeue := Some b\<rparr>)
   | Some h \<Rightarrow> kbind (kget (\<lambda>s. queue_end NBUF (\<lambda>c. b_qnext (bufs s c)) h)) (\<lambda>r. case r of
       Inl e \<Rightarrow> (\<lambda>s. Stop e)
     | Inr l \<Rightarrow> upd_buf l (\<lambda>x. x\<lparr>b_qnext := Some b\<rparr>))))"

definition ide_wait :: "nat \<Rightarrow> ('z bstate_scheme, unit) km" where
  "ide_wait b = kbind (the_buf b id) (\<lambda>x.
     if \<not> (b_valid x \<and> \<not> b_dirty x) then sleep (BufChan b) (Some IdeLock) else release_lk IdeLock)"

definition ide_rw :: "nat \<Rightarrow> ('z bstate_scheme, unit) km" where
  "ide_rw b = kbind (the_buf b id) (\<lambda>x. kbind (kget havedisk1) (\<lambda>have1.
     if \<not> b_busy x then kpanic ''iderw: buf not busy''
     else if b_valid x \<and> \<not> b_dirty x then kpanic ''iderw: nothing to do''
     else if b_dev x \<noteq> 0 \<and> \<not> have1 then kpanic ''iderw: ide disk 1 not present''
     else kdo [
       acquire_lk IdeLock,
       ide_append b,
       kbind (kget idequeue) (\<lambda>q. if q = Some b then idestart (Some b) else kret ()),
       ide_wait b]))"

text \<open>After the wakeup.\<close>

definition ide_rw_resume :: "nat \<Rightarrow> ('z bstate_scheme, unit) km" where
  "ide_rw_resume b = kthen (sleep_tail IdeLock) (ide_wait b)"

section \<open>Runs of the routines\<close>

lemma idewait_loop_run:
  "portin (devices s) 0x1f7 = rs \<Longrightarrow> dropWhile ide_busy rs = r # rest \<Longrightarrow>
    idewait_loop rs s = Ret r (s\<lparr>devices := (devices s)\<lparr>portin := (portin (devices s))(0x1f7 := rest)\<rparr>\<rparr>)"
proof (induction rs arbitrary: s)
  case (Cons a rs)
  let ?t = "s\<lparr>devices := (devices s)\<lparr>portin := (portin (devices s))(0x1f7 := rs)\<rparr>\<rparr>"
  have i: "inb 0x1f7 s = Ret a ?t" using Cons.prems(1) by (simp add: inb_def the_hw_def upd_hw_def kmonad)
  show ?case
  proof (cases "ide_busy a")
    case True
    then show ?thesis using i Cons.IH [of ?t] Cons.prems(2) by (simp add: kmonad fun_upd_def cong: if_cong)
  next
    case False
    then show ?thesis using i Cons.prems(2) by (auto simp: kmonad fun_upd_def)
  qed
qed simp

lemma idewait_run:
  assumes "dropWhile ide_busy (portin (devices s) 0x1f7) = r # rest"
  shows "idewait c s = Ret (if c \<and> r AND (IDE_DF OR IDE_ERR) \<noteq> 0 then - 1 else 0)
    (s\<lparr>devices := (devices s)\<lparr>portin := (portin (devices s))(0x1f7 := rest)\<rparr>\<rparr>)"
  using idewait_loop_run [OF refl assms] by (simp add: idewait_def the_hw_def kmonad)

lemma below16:
  assumes "(n :: uint) < 2 ^ 16"
  shows "take_bit 16 n = n"
proof -
  have "unat n < 2 ^ 16" using assms by (simp add: word_less_nat_alt)
  then have "unat (take_bit 16 n) = unat n" by (simp add: unsigned_take_bit_eq take_bit_nat_eq_self)
  then show ?thesis by (rule word_unat_eq_iff [THEN iffD2])
qed

text \<open>The bytes that name a sector put together again.\<close>

lemma sector_bytes:
  assumes "(n :: uint) < 2 ^ 16"
  shows "ucast (ucast (n AND 0xff) :: u8) OR push_bit 8 (ucast (ucast (drop_bit 8 n AND 0xff) :: u8)) = n"
proof -
  have m: "(0xff :: uint) = mask 8" by (simp add: mask_eq_exp_minus_1)
  have n: "n = take_bit 16 n" using below16 [OF assms] by simp
  have "bit n i \<Longrightarrow> i < 16" for i using n by (metis bit_take_bit_iff)
  then show ?thesis unfolding m
    by (intro bit_word_eqI) (auto simp: bit_simps; metis le_add_diff_inverse2 less_diff_conv2 numeral_Bit0 not_less)
qed

lemma high_bytes:
  assumes "(n :: uint) < 2 ^ 16"
  shows "drop_bit 16 n = 0" "drop_bit 24 n = 0"
proof -
  have n: "n = take_bit 16 n" using below16 [OF assms] by simp
  have "bit n i \<Longrightarrow> i < 16" for i using n by (metis bit_take_bit_iff)
  then show "drop_bit 16 n = 0" "drop_bit 24 n = 0"
    by (auto intro!: bit_word_eqI simp: bit_simps) fastforce+
qed
text \<open>What \<open>idestart\<close> leaves behind: the controller is set up for the request, and a dirty block is on the disk.\<close>

definition ide_cmd :: "hardware \<Rightarrow> buf \<Rightarrow> bool" where
  "ide_cmd h x \<longleftrightarrow> ide_sector h = b_blockno x \<and> ide_drive1 h
     \<and> port_reg h 0x1f7 = (if b_dirty x then IDE_CMD_WRITE else IDE_CMD_READ)"

definition put_dirty :: "buf \<Rightarrow> (uint \<times> block) list \<Rightarrow> (uint \<times> block) list" where
  "put_dirty x ws = (if b_dirty x then (b_blockno x, b_data x) # ws else ws)"

lemma ide_start_cmd:
  assumes h: "ports h = (0x1f7, if b_dirty x then IDE_CMD_WRITE else IDE_CMD_READ)
      # (0x1f6, 0xe0 OR push_bit 4 (ucast (b_dev x AND 1)) OR ucast (drop_bit 24 (b_blockno x) AND 0x0f))
      # (0x1f5, ucast (drop_bit 16 (b_blockno x) AND 0xff)) # (0x1f4, ucast (drop_bit 8 (b_blockno x) AND 0xff))
      # (0x1f3, ucast (b_blockno x AND 0xff)) # ps"
    and x: "b_blockno x < FSSIZE" "b_dev x = 1"
  shows "ide_cmd h x"
proof -
  have n: "b_blockno x < 2 ^ 16" using x(1) unfolding FSSIZE_def by (rule order.strict_trans) simp
  have "port_reg h 0x1f3 = ucast (b_blockno x AND 0xff)" "port_reg h 0x1f4 = ucast (drop_bit 8 (b_blockno x) AND 0xff)"
    "port_reg h 0x1f5 = 0" "port_reg h 0x1f6 = 0xf0"
    "port_reg h 0x1f7 = (if b_dirty x then IDE_CMD_WRITE else IDE_CMD_READ)"
    using high_bytes [OF n] x(2) by (simp_all add: port_reg_def h)
  with sector_bytes [OF n] show ?thesis by (simp add: ide_cmd_def ide_sector_def ide_drive1_def)
qed

lemma idestart_run:
  assumes x: "bufs s b = x" "b_blockno x < FSSIZE" "b_dev x = 1"
    and r: "dropWhile ide_busy (portin (devices s) 0x1f7) = r # rest"
  shows "\<exists>h. idestart (Some b) s = Ret () (s\<lparr>devices := h, dwrites := put_dirty x (dwrites s)\<rparr>)
    \<and> ide_cmd h x \<and> portin h 0x1f7 = rest"
proof -
  define c where "c = (if b_dirty x then IDE_CMD_WRITE else IDE_CMD_READ)"
  define h where "h = (devices s)\<lparr>portin := (portin (devices s))(0x1f7 := rest), ports := (0x1f7, c)
      # (0x1f6, 0xe0 OR push_bit 4 (ucast (b_dev x AND 1)) OR ucast (drop_bit 24 (b_blockno x) AND 0x0f))
      # (0x1f5, ucast (drop_bit 16 (b_blockno x) AND 0xff)) # (0x1f4, ucast (drop_bit 8 (b_blockno x) AND 0xff))
      # (0x1f3, ucast (b_blockno x AND 0xff)) # (0x1f2, 1) # (0x3f6, 0) # ports (devices s)\<rparr>"
  have cmd: "ide_cmd h x" by (rule ide_start_cmd [OF _ x(2,3)]) (simp add: h_def c_def)
  have out: "outsl d t = Ret () (t\<lparr>dwrites := (b_blockno x, d) # dwrites t\<rparr>)" if "devices t = h" "b_dirty x" for d and t :: "'a bstate_scheme"
    using cmd that by (simp add: outsl_def kmonad ide_cmd_def)
  have "idestart (Some b) s = Ret () (s\<lparr>devices := h, dwrites := put_dirty x (dwrites s)\<rparr>)"
    using x(1,2) idewait_run [OF r, of False] out [of "s\<lparr>devices := h\<rparr>" "b_data x"]
    by (simp add: idestart_def the_buf_def kmonad outb_def upd_hw_def BSIZE_def SECTOR_SIZE_def put_dirty_def h_def c_def not_le Let_def)
  then show ?thesis using cmd by (auto simp: h_def)
qed
section \<open>The queue\<close>

definition ide_request :: "buf \<Rightarrow> bool" where
  "ide_request x \<longleftrightarrow> b_busy x \<and> \<not> (b_valid x \<and> \<not> b_dirty x) \<and> b_dev x = 1 \<and> b_blockno x < FSSIZE"

text \<open>The buffers \<open>q\<close> wait, the controller works on the first of them, and what it has to write is written.\<close>

definition ide_ok :: "'z bstate_scheme \<Rightarrow> nat list \<Rightarrow> bool" where
  "ide_ok s q \<longleftrightarrow> chain (\<lambda>c. b_qnext (bufs s c)) (idequeue s) q \<and> distinct q
     \<and> (\<forall>b \<in> set q. b < NBUF \<and> ide_request (bufs s b))
     \<and> (q \<noteq> [] \<longrightarrow> ide_cmd (devices s) (bufs s (hd q))
          \<and> (b_dirty (bufs s (hd q)) \<longrightarrow> disk s (b_blockno (bufs s (hd q))) = b_data (bufs s (hd q))))"

text \<open>The controller becomes ready, without an error, at least \<open>n\<close> times.\<close>

fun ide_answers :: "nat \<Rightarrow> u8 list \<Rightarrow> bool" where
  "ide_answers 0 rs \<longleftrightarrow> True"
| "ide_answers (Suc n) rs \<longleftrightarrow> (case dropWhile ide_busy rs of [] \<Rightarrow> False
     | r # rest \<Rightarrow> r AND (IDE_DF OR IDE_ERR) = 0 \<and> ide_answers n rest)"

lemma ide_answers_Suc:
  assumes "ide_answers (Suc n) rs"
  obtains r rest where "dropWhile ide_busy rs = r # rest" "r AND (IDE_DF OR IDE_ERR) = 0" "ide_answers n rest"
  using assms by (auto split: list.splits)

lemma queue_end_last: "chain nx (Some h) q \<Longrightarrow> length q \<le> n \<Longrightarrow> queue_end n nx h = Inr (last q)"
proof (induction n arbitrary: h q)
  case (Suc n)
  then obtain q' where q: "q = h # q'" "chain nx (nx h) q'" by (auto simp: chain_Some)
  show ?case
  proof (cases "nx h")
    case (Some c)
    with q have "chain nx (Some c) q'" "q' \<noteq> []" by auto
    with Suc.IH [of c q'] Suc.prems(2) q(1) Some show ?thesis by simp
  qed (use q in simp)
qed (auto simp: chain_Some)

lemma queue_length: "distinct q \<Longrightarrow> \<forall>b \<in> set q. b < NBUF \<Longrightarrow> length q \<le> NBUF"
  using card_mono [of "{..<NBUF}" "set q"] by (auto simp: distinct_card)

text \<open>Buffers that differ in the links of the queue only.\<close>

definition relinked :: "(nat \<Rightarrow> buf) \<Rightarrow> (nat \<Rightarrow> buf) \<Rightarrow> bool" where
  "relinked B B' \<longleftrightarrow> (\<forall>c. B' c = (B c)\<lparr>b_qnext := b_qnext (B' c)\<rparr>)"

lemma ide_append_run:
  assumes ok: "ide_ok s q" and b: "b \<notin> set q"
  shows "\<exists>B Q. ide_append b s = Ret () (s\<lparr>bufs := B, idequeue := Q\<rparr>) \<and> chain (\<lambda>c. b_qnext (B c)) Q (q @ [b])
    \<and> relinked (bufs s) B"
proof (cases q rule: rev_cases)
  case Nil
  then have "idequeue s = None" using ok by (simp add: ide_ok_def)
  then have "ide_append b s = Ret () (s\<lparr>bufs := (bufs s)(b := (bufs s b)\<lparr>b_qnext := None\<rparr>), idequeue := Some b\<rparr>)"
    by (simp add: ide_append_def upd_buf_def kmonad)
  moreover have "relinked (bufs s) ((bufs s)(b := (bufs s b)\<lparr>b_qnext := None\<rparr>))" by (simp add: relinked_def)
  ultimately show ?thesis using Nil by (intro exI conjI) auto
next
  case (snoc q0 l)
  let ?nx = "\<lambda>c. b_qnext (bufs s c)"
  let ?B1 = "(bufs s)(b := (bufs s b)\<lparr>b_qnext := None\<rparr>)"
  let ?B2 = "?B1(l := (?B1 l)\<lparr>b_qnext := Some b\<rparr>)"
  from ok obtain h where h: "idequeue s = Some h" "chain ?nx (Some h) q" "distinct q" "length q \<le> NBUF"
    using snoc queue_length [of q] by (cases "idequeue s") (auto simp: ide_ok_def)
  have eq: "(\<lambda>c. b_qnext (?B1 c)) = ?nx(b := None)" "(\<lambda>c. b_qnext (?B2 c)) = (?nx(b := None))(l := Some b)" by auto
  have "chain (?nx(b := None)) (Some h) q" using h(2) b by simp
  from queue_end_last [OF this h(4)] have "queue_end NBUF (\<lambda>c. b_qnext (?B1 c)) h = Inr l" using snoc unfolding eq by simp
  then have run: "ide_append b s = Ret () (s\<lparr>bufs := ?B2, idequeue := Some h\<rparr>)"
    using h(1) by (simp add: ide_append_def upd_buf_def kmonad)
  have "b \<noteq> l" using b snoc by auto
  then have "(?nx(b := None))(l := Some b) = ?nx(l := Some b, b := None)" by (rule fun_upd_twist)
  moreover have "chain (?nx(l := Some b, b := None)) (Some h) (q0 @ [l, b])"
    using h(2,3) b snoc by (intro chain_snoc) auto
  ultimately have "chain (\<lambda>c. b_qnext (?B2 c)) (Some h) (q @ [b])" unfolding eq using snoc by simp
  moreover have "relinked (bufs s) ?B2" by (simp add: relinked_def)
  ultimately show ?thesis using run by blast
qed
text \<open>A finished request, and the memory disk, which finishes it at once.\<close>

definition ide_done :: "(uint \<Rightarrow> block) \<Rightarrow> buf \<Rightarrow> buf" where
  "ide_done d x = x\<lparr>b_valid := True, b_dirty := False, b_data := if b_dirty x then b_data x else d (b_blockno x)\<rparr>"

lemma ide_done_read: "\<not> b_dirty x \<Longrightarrow> ide_done d x = x\<lparr>b_data := d (b_blockno x), b_valid := True\<rparr>"
  by (cases x) (simp add: ide_done_def)

lemma ide_done_write: "b_dirty x \<Longrightarrow> ide_done d x = x\<lparr>b_dirty := False, b_valid := True\<rparr>"
  by (cases x) (simp add: ide_done_def)

lemma memide_run:
  assumes "ide_request (bufs s b)" "disksize s = FSSIZE"
  shows "\<exists>u. iderw b s = Ret () u \<and> bufs u = (bufs s)(b := ide_done (disk s) (bufs s b))
    \<and> dwrites u = put_dirty (bufs s b) (dwrites s) \<and> disk0 u = disk0 s"
proof (cases "b_dirty (bufs s b)")
  case True
  then show ?thesis using assms iderw_write [of s b]
    by (simp add: ide_request_def ide_done_write put_dirty_def with_buf_def)
next
  case False
  then show ?thesis using assms iderw_read [of s b]
    by (simp add: ide_request_def ide_done_read put_dirty_def with_buf_def)
qed

lemma disk_put_dirty:
  "disk0 t = disk0 s \<Longrightarrow> dwrites t = put_dirty x (dwrites s) \<Longrightarrow>
    disk t = (if b_dirty x then (disk s)(b_blockno x := b_data x) else disk s)"
  by (rule ext) (simp add: put_dirty_def disk_def disk_after_def)

text \<open>The queue in another state with the same buffers, disk and controller.\<close>

lemma ide_ok_cong:
  "bufs t = bufs s \<Longrightarrow> idequeue t = idequeue s \<Longrightarrow> devices t = devices s \<Longrightarrow> disk0 t = disk0 s \<Longrightarrow> dwrites t = dwrites s \<Longrightarrow>
    ide_ok t q = ide_ok s q"
  by (simp add: ide_ok_def disk_def)

text \<open>Starting the first request of a queue that is otherwise in order.\<close>

lemma ide_start_first:
  assumes q: "chain (\<lambda>c. b_qnext (bufs s c)) (idequeue s) (b # q)" "distinct (b # q)"
      "\<forall>c \<in> set (b # q). c < NBUF \<and> ide_request (bufs s c)"
    and ans: "ide_answers 1 (portin (devices s) 0x1f7)"
  shows "\<exists>h. idestart (Some b) s = Ret () (s\<lparr>devices := h, dwrites := put_dirty (bufs s b) (dwrites s)\<rparr>)
    \<and> ide_ok (s\<lparr>devices := h, dwrites := put_dirty (bufs s b) (dwrites s)\<rparr>) (b # q)"
proof -
  obtain r rest where r: "dropWhile ide_busy (portin (devices s) 0x1f7) = r # rest" using ans by (auto split: list.splits)
  have x: "b_blockno (bufs s b) < FSSIZE" "b_dev (bufs s b) = 1" using q(3) by (auto simp: ide_request_def)
  from idestart_run [OF refl x r] obtain h where
    h: "idestart (Some b) s = Ret () (s\<lparr>devices := h, dwrites := put_dirty (bufs s b) (dwrites s)\<rparr>)" "ide_cmd h (bufs s b)" by blast
  let ?t = "s\<lparr>devices := h, dwrites := put_dirty (bufs s b) (dwrites s)\<rparr>"
  have "disk ?t = (if b_dirty (bufs s b) then (disk s)(b_blockno (bufs s b) := b_data (bufs s b)) else disk s)"
    by (rule disk_put_dirty) auto
  then have "ide_ok ?t (b # q)" using q h(2) by (simp add: ide_ok_def)
  with h(1) show ?thesis by blast
qed
text \<open>\<open>iderw\<close> up to the point where the caller sleeps.\<close>

lemma qnext_only:
  assumes "relinked B B'"
  shows "b_busy (B' c) = b_busy (B c)" "b_valid (B' c) = b_valid (B c)" "b_dirty (B' c) = b_dirty (B c)"
    "b_dev (B' c) = b_dev (B c)" "b_blockno (B' c) = b_blockno (B c)" "b_data (B' c) = b_data (B c)"
    "ide_request (B' c) = ide_request (B c)" "ide_cmd h (B' c) = ide_cmd h (B c)" "put_dirty (B' c) ws = put_dirty (B c) ws"
proof -
  obtain n where "B' c = (B c)\<lparr>b_qnext := n\<rparr>" using assms unfolding relinked_def by blast
  then show "b_busy (B' c) = b_busy (B c)" "b_valid (B' c) = b_valid (B c)" "b_dirty (B' c) = b_dirty (B c)"
    "b_dev (B' c) = b_dev (B c)" "b_blockno (B' c) = b_blockno (B c)" "b_data (B' c) = b_data (B c)"
    "ide_request (B' c) = ide_request (B c)" "ide_cmd h (B' c) = ide_cmd h (B c)" "put_dirty (B' c) ws = put_dirty (B c) ws"
    by (simp_all add: ide_request_def ide_cmd_def put_dirty_def)
qed

definition ide_frame :: "'z bstate_scheme \<Rightarrow> 'z bstate_scheme \<Rightarrow> bool" where
  "ide_frame s t \<longleftrightarrow> (\<exists>B Q h W. t = s\<lparr>bufs := B, idequeue := Q, devices := h, dwrites := W\<rparr>)"

lemma ide_frame_sel:
  assumes "ide_frame s t"
  shows "disk0 t = disk0 s" "procs t = procs s" "cproc t = cproc s" "cpuid t = cpuid s" "owner t = owner s" "ncli t = ncli s"
  using assms by (auto simp: ide_frame_def)

lemma ide_enqueue_run:
  assumes ok: "ide_ok s q" and b: "b < NBUF" "b \<notin> set q" "ide_request (bufs s b)"
    and ans: "ide_answers 1 (portin (devices s) 0x1f7)"
  shows "\<exists>t. kdo [ide_append b, kbind (kget idequeue) (\<lambda>q. if q = Some b then idestart (Some b) else kret ())] s = Ret () t
    \<and> ide_ok t (q @ [b]) \<and> relinked (bufs s) (bufs t) \<and> ide_frame s t
    \<and> dwrites t = (if q = [] then put_dirty (bufs s b) (dwrites s) else dwrites s)"
proof -
  obtain B Q where a: "ide_append b s = Ret () (s\<lparr>bufs := B, idequeue := Q\<rparr>)" "chain (\<lambda>c. b_qnext (B c)) Q (q @ [b])"
    "relinked (bufs s) B"
    using ide_append_run [OF ok b(2)] by blast
  note B = qnext_only [OF a(3)]
  let ?s2 = "s\<lparr>bufs := B, idequeue := Q\<rparr>"
  show ?thesis
  proof (cases q)
    case Nil
    have c: "chain (\<lambda>c. b_qnext (bufs ?s2 c)) (idequeue ?s2) [b]" "distinct [b]" using a(2) Nil by simp_all
    have r: "\<forall>c \<in> set [b]. c < NBUF \<and> ide_request (bufs ?s2 c)" using b B(7) by simp
    have w: "ide_answers 1 (portin (devices ?s2) 0x1f7)" using ans by simp
    obtain h where h: "idestart (Some b) ?s2 = Ret () (?s2\<lparr>devices := h, dwrites := put_dirty (bufs ?s2 b) (dwrites ?s2)\<rparr>)"
        "ide_ok (?s2\<lparr>devices := h, dwrites := put_dirty (bufs ?s2 b) (dwrites ?s2)\<rparr>) [b]"
      using ide_start_first [OF c r w] by blast
    define t where "t = ?s2\<lparr>devices := h, dwrites := put_dirty (bufs ?s2 b) (dwrites ?s2)\<rparr>"
    have "kdo [ide_append b, kbind (kget idequeue) (\<lambda>q. if q = Some b then idestart (Some b) else kret ())] s = Ret () t"
      using a(1,2) Nil h(1) by (simp add: kmonad t_def)
    moreover have "ide_frame s t" unfolding ide_frame_def t_def by blast
    moreover have "bufs t = B" "dwrites t = put_dirty (bufs s b) (dwrites s)" by (simp_all add: t_def B(9))
    ultimately show ?thesis using h(2) a(3) Nil unfolding t_def [symmetric] by auto
  next
    case (Cons c q')
    have Q: "Q = Some c" "c \<noteq> b" using a(2) b(2) Cons by auto
    have "ide_ok ?s2 (q @ [b])" using ok b a(2) B Cons by (simp add: ide_ok_def disk_def)
    moreover have "kdo [ide_append b, kbind (kget idequeue) (\<lambda>q. if q = Some b then idestart (Some b) else kret ())] s = Ret () ?s2"
      using Q a(1) by (simp add: kmonad)
    moreover have "?s2 = s\<lparr>bufs := B, idequeue := Q, devices := devices s, dwrites := dwrites s\<rparr>" by simp
    then have "ide_frame s ?s2" unfolding ide_frame_def by blast
    ultimately show ?thesis using a(3) Cons by (intro exI [of _ ?s2]) simp
  qed
qed
lemma ide_rw_run:
  assumes ok: "ide_ok s q" and b: "b < NBUF" "b \<notin> set q" "ide_request (bufs s b)" "havedisk1 s"
    and env: "cproc s (cpuid s) = Some p" "owner s IdeLock = None" "owner s PtableLock = None" "ncli s (cpuid s) = 0"
    and ans: "ide_answers 1 (portin (devices s) 0x1f7)"
  shows "\<exists>t. ide_rw b s = Sleeps t \<and> ide_ok t (q @ [b]) \<and> owner t IdeLock = None
    \<and> p_state (procs t p) = SLEEPING \<and> p_chan (procs t p) = BufChan b \<and> relinked (bufs s) (bufs t)
    \<and> disk t = (if q = [] \<and> b_dirty (bufs s b) then (disk s)(b_blockno (bufs s b) := b_data (bufs s b)) else disk s)"
proof -
  define s1 where "s1 = lock_taken IdeLock s"
  have s1: "bufs s1 = bufs s" "idequeue s1 = idequeue s" "devices s1 = devices s" "disk0 s1 = disk0 s" "dwrites s1 = dwrites s"
    "procs s1 = procs s" "cproc s1 = cproc s" "cpuid s1 = cpuid s" "owner s1 = (owner s)(IdeLock := Some (cpuid s))" "ncli s1 (cpuid s) = 1"
    using env(4) by (simp_all add: s1_def lock_taken_def)
  have "ide_ok s1 q" using ok s1 by (simp add: ide_ok_cong [of s1 s])
  from ide_enqueue_run [OF this b(1,2)] b(3) ans obtain s3 where
    a: "kdo [ide_append b, kbind (kget idequeue) (\<lambda>q. if q = Some b then idestart (Some b) else kret ())] s1 = Ret () s3"
      "ide_ok s3 (q @ [b])" "relinked (bufs s) (bufs s3)" "ide_frame s1 s3"
      "dwrites s3 = (if q = [] then put_dirty (bufs s b) (dwrites s) else dwrites s)" unfolding s1 by blast
  note s3 = ide_frame_sel [OF a(4)] s1
  define t where "t = (lock_dropped IdeLock (lock_taken PtableLock s3))
    \<lparr>procs := (procs s3)(p := (procs s3 p)\<lparr>p_chan := BufChan b, p_state := SLEEPING\<rparr>)\<rparr>"
  have sl: "sleep (BufChan b) (Some IdeLock) s3 = Sleeps t"
    unfolding t_def by (rule sleep_run) (use env s3 in auto)
  have t: "bufs t = bufs s3" "idequeue t = idequeue s3" "devices t = devices s3" "disk0 t = disk0 s3" "dwrites t = dwrites s3"
    "owner t IdeLock = None" "procs t p = (procs s3 p)\<lparr>p_chan := BufChan b, p_state := SLEEPING\<rparr>"
    by (simp_all add: t_def lock_taken_def lock_dropped_def)
  have w: "ide_wait b s3 = Sleeps t" using sl b(3) qnext_only [OF a(3)]
    by (auto simp: ide_wait_def the_buf_def kmonad ide_request_def)
  have acq: "acquire_lk IdeLock s = Ret () s1" using env(2) by (simp add: acquire_lk_eq_Ret s1_def)
  have "kdo [acquire_lk IdeLock, ide_append b, kbind (kget idequeue) (\<lambda>q. if q = Some b then idestart (Some b) else kret ()),
       ide_wait b] s = Sleeps t"
    using a(1) acq w by (auto simp: kmonad kthen_eq_Ret kbind_eq_Ret)
  then have "ide_rw b s = Sleeps t"
    using b(3,4) by (auto simp: ide_rw_def the_buf_def kmonad ide_request_def simp del: kdo.simps)
  moreover have "ide_ok t (q @ [b])" using a(2) t ide_ok_cong [of t s3] by simp
  moreover have "disk t = (if q = [] \<and> b_dirty (bufs s b) then (disk s)(b_blockno (bufs s b) := b_data (bufs s b)) else disk s)"
    using disk_put_dirty [of t s "bufs s b"] t(4,5) a(5) s3 by (auto simp: disk_def)
  ultimately show ?thesis using a(3) t by (intro exI [of _ t]) simp
qed

lemma only_states_disk:
  assumes "only_states s t"
  shows "bufs t = bufs s" "idequeue t = idequeue s" "devices t = devices s" "disk0 t = disk0 s" "dwrites t = dwrites s"
proof -
  obtain P R F where "t = s\<lparr>procs := P, pReadyList := R, pFreeList := F\<rparr>" using assms unfolding only_states_def by blast
  then show "bufs t = bufs s" "idequeue t = idequeue s" "devices t = devices s" "disk0 t = disk0 s" "dwrites t = dwrites s" by simp_all
qed
lemma ide_answers_less: "ide_answers (Suc n) rs \<Longrightarrow> ide_answers n rs"
proof (induction n arbitrary: rs)
  case (Suc n)
  from ide_answers_Suc [OF Suc.prems] obtain r rest where
    "dropWhile ide_busy rs = r # rest" "r AND (IDE_DF OR IDE_ERR) = 0" "ide_answers (Suc n) rest" .
  with Suc.IH [of rest] show ?case by (simp del: ide_answers.simps add: ide_answers.simps(2) [of n rs])
qed simp

text \<open>The first part of the interrupt: the block of a read, and the flags.\<close>

definition ide_fetch :: "nat \<Rightarrow> ('z bstate_scheme, unit) km" where
  "ide_fetch b = kbind (the_buf b b_dirty) (\<lambda>d. if d then kret () else kbind (idewait True) (\<lambda>r.
     if r \<ge> 0 then kbind insl (\<lambda>data. upd_buf b (\<lambda>x. x\<lparr>b_data := data\<rparr>)) else kret ()))"

definition ide_next :: "('z bstate_scheme, unit) km" where
  "ide_next = kbind (kget idequeue) (\<lambda>q. if q \<noteq> None then idestart q else kret ())"

lemma ideintr_fetch:
  "ideintr = kthen (acquire_lk IdeLock) (kbind (kget idequeue) (\<lambda>q. case q of
     None \<Rightarrow> release_lk IdeLock
   | Some b \<Rightarrow> kdo [
       kbind (the_buf b b_qnext) (\<lambda>n. kmod (\<lambda>s. s\<lparr>idequeue := n\<rparr>)),
       ide_fetch b,
       upd_buf b (\<lambda>x. x\<lparr>b_valid := True\<rparr>),
       upd_buf b (\<lambda>x. x\<lparr>b_dirty := False\<rparr>),
       wakeup (BufChan b),
       ide_next,
       release_lk IdeLock]))"
  unfolding ideintr_def ide_fetch_def ide_next_def ..

lemma ide_fetch_run:
  assumes cmd: "ide_cmd (devices s) (bufs s b)" and ans: "ide_answers (Suc n) (portin (devices s) 0x1f7)"
  shows "\<exists>t. kdo [ide_fetch b, upd_buf b (\<lambda>x. x\<lparr>b_valid := True\<rparr>), upd_buf b (\<lambda>x. x\<lparr>b_dirty := False\<rparr>)] s = Ret () t
    \<and> bufs t = (bufs s)(b := ide_done (disk s) (bufs s b)) \<and> ide_frame s t \<and> idequeue t = idequeue s \<and> dwrites t = dwrites s
    \<and> ide_answers n (portin (devices t) 0x1f7)"
proof (cases "b_dirty (bufs s b)")
  case True
  let ?B = "(bufs s)(b := (bufs s b)\<lparr>b_valid := True, b_dirty := False\<rparr>)"
  let ?t = "s\<lparr>bufs := ?B\<rparr>"
  have "?B = (bufs s)(b := ide_done (disk s) (bufs s b))" using True by (cases "bufs s b") (simp add: ide_done_def)
  moreover have "kdo [ide_fetch b, upd_buf b (\<lambda>x. x\<lparr>b_valid := True\<rparr>), upd_buf b (\<lambda>x. x\<lparr>b_dirty := False\<rparr>)] s = Ret () ?t"
    using True by (simp add: ide_fetch_def the_buf_def upd_buf_def kmonad)
  moreover have "?t = s\<lparr>bufs := ?B, idequeue := idequeue s, devices := devices s, dwrites := dwrites s\<rparr>" by simp
  then have "ide_frame s ?t" unfolding ide_frame_def by blast
  ultimately show ?thesis using ide_answers_less [OF ans] by (intro exI [of _ ?t]) simp
next
  case False
  from ide_answers_Suc [OF ans] obtain r rest where r: "dropWhile ide_busy (portin (devices s) 0x1f7) = r # rest"
    "r AND (IDE_DF OR IDE_ERR) = 0" "ide_answers n rest" .
  define h where "h = (devices s)\<lparr>portin := (portin (devices s))(0x1f7 := rest)\<rparr>"
  have w: "idewait True s = Ret 0 (s\<lparr>devices := h\<rparr>)" using idewait_run [OF r(1), of True] r(2) by (simp add: h_def)
  have "port_reg h = port_reg (devices s)" by (simp add: h_def port_reg_def fun_eq_iff)
  then have "ide_cmd h (bufs s b)" using cmd by (simp add: ide_cmd_def ide_sector_def ide_drive1_def)
  then have i: "insl (s\<lparr>devices := h\<rparr>) = Ret (disk s (b_blockno (bufs s b))) (s\<lparr>devices := h\<rparr>)"
    using False by (simp add: insl_def kmonad ide_cmd_def disk_def)
  let ?B = "(bufs s)(b := (bufs s b)\<lparr>b_data := disk s (b_blockno (bufs s b)), b_valid := True, b_dirty := False\<rparr>)"
  let ?t = "s\<lparr>bufs := ?B, devices := h\<rparr>"
  have "?B = (bufs s)(b := ide_done (disk s) (bufs s b))" using False by (cases "bufs s b") (simp add: ide_done_def)
  moreover have "kdo [ide_fetch b, upd_buf b (\<lambda>x. x\<lparr>b_valid := True\<rparr>), upd_buf b (\<lambda>x. x\<lparr>b_dirty := False\<rparr>)] s = Ret () ?t"
    using False w i by (simp add: ide_fetch_def the_buf_def upd_buf_def kmonad)
  moreover have "?t = s\<lparr>bufs := ?B, idequeue := idequeue s, devices := h, dwrites := dwrites s\<rparr>" by simp
  then have "ide_frame s ?t" unfolding ide_frame_def by blast
  ultimately show ?thesis using r(3) by (intro exI [of _ ?t]) (simp add: h_def)
qed

text \<open>The end of the interrupt: the next request is started.\<close>

lemma ide_next_run:
  assumes q: "chain (\<lambda>c. b_qnext (bufs s c)) (idequeue s) q" "distinct q" "\<forall>c \<in> set q. c < NBUF \<and> ide_request (bufs s c)"
    and ans: "q \<noteq> [] \<Longrightarrow> ide_answers 1 (portin (devices s) 0x1f7)"
  shows "\<exists>t. ide_next s = Ret () t \<and> ide_ok t q \<and> ide_frame s t
    \<and> bufs t = bufs s \<and> dwrites t = (case q of [] \<Rightarrow> dwrites s | c # _ \<Rightarrow> put_dirty (bufs s c) (dwrites s))"
proof (cases q)
  case Nil
  have "s = s\<lparr>bufs := bufs s, idequeue := idequeue s, devices := devices s, dwrites := dwrites s\<rparr>" by simp
  then have "ide_frame s s" unfolding ide_frame_def by blast
  with Nil q show ?thesis by (intro exI [of _ s]) (simp add: kmonad ide_ok_def ide_next_def)
next
  case (Cons c q')
  obtain h where h: "idestart (Some c) s = Ret () (s\<lparr>devices := h, dwrites := put_dirty (bufs s c) (dwrites s)\<rparr>)"
      "ide_ok (s\<lparr>devices := h, dwrites := put_dirty (bufs s c) (dwrites s)\<rparr>) (c # q')"
    using ide_start_first [of s c q'] q ans [unfolded Cons] unfolding Cons by blast
  let ?t = "s\<lparr>devices := h, dwrites := put_dirty (bufs s c) (dwrites s)\<rparr>"
  have "?t = s\<lparr>bufs := bufs s, idequeue := idequeue s, devices := h, dwrites := put_dirty (bufs s c) (dwrites s)\<rparr>" by simp
  then have "ide_frame s ?t" unfolding ide_frame_def by blast
  with h q(1) Cons show ?thesis by (intro exI [of _ ?t]) (simp add: kmonad ide_next_def)
qed
lemma ideintr_gen:
  fixes s :: "'a bstate_scheme"
  assumes ok: "ide_ok s (b # q)" and tab: "table_ok s R F"
    and env: "owner s IdeLock = None" "owner s PtableLock = None" "0 \<le> ncli s (cpuid s)"
    and fetch: "\<And>s1 :: 'a bstate_scheme. bufs s1 = bufs s \<Longrightarrow> devices s1 = devices s \<Longrightarrow> disk s1 = disk s \<Longrightarrow>
      \<exists>t. kdo [ide_fetch b, upd_buf b (\<lambda>x. x\<lparr>b_valid := True\<rparr>), upd_buf b (\<lambda>x. x\<lparr>b_dirty := False\<rparr>)] s1 = Ret () t
      \<and> bufs t = (bufs s1)(b := y) \<and> ide_frame s1 t \<and> idequeue t = idequeue s1 \<and> dwrites t = dwrites s1
      \<and> (q \<noteq> [] \<longrightarrow> ide_answers 1 (portin (devices t) 0x1f7))"
    and y: "b_qnext y = b_qnext (bufs s b)"
  shows "\<exists>t. ideintr s = Ret () t \<and> ide_ok t q \<and> bufs t = (bufs s)(b := y)
    \<and> disk0 t = disk0 s \<and> dwrites t = (case q of [] \<Rightarrow> dwrites s | c # _ \<Rightarrow> put_dirty (bufs s c) (dwrites s))
    \<and> owner t IdeLock = None \<and> (\<forall>p < NPROC. p_state (procs t p) =
        (if p_state (procs s p) = SLEEPING \<and> p_chan (procs s p) = BufChan b then RUNNABLE else p_state (procs s p)))"
proof -
  define s1 where "s1 = (lock_taken IdeLock s)\<lparr>idequeue := b_qnext (bufs s b)\<rparr>"
  have s1: "bufs s1 = bufs s" "idequeue s1 = b_qnext (bufs s b)" "devices s1 = devices s" "disk0 s1 = disk0 s" "dwrites s1 = dwrites s"
    "procs s1 = procs s" "cpuid s1 = cpuid s" "owner s1 = (owner s)(IdeLock := Some (cpuid s))"
    "ncli s1 = (ncli s)(cpuid s := ncli s (cpuid s) + 1)"
    by (simp_all add: s1_def lock_taken_def)
  have tab1: "table_ok s1 R F" using tab by (simp add: s1_def table_ok_def lists_rep_def nexts_def)
  have d1: "disk s1 = disk s" using s1 by (simp add: disk_def)
  have q: "idequeue s = Some b" "ide_cmd (devices s) (bufs s b)" "chain (\<lambda>c. b_qnext (bufs s c)) (b_qnext (bufs s b)) q"
    "distinct (b # q)" "\<forall>c \<in> set q. c < NBUF \<and> ide_request (bufs s c)" using ok by (auto simp: ide_ok_def)
  obtain s2 where s2: "kdo [ide_fetch b, upd_buf b (\<lambda>x. x\<lparr>b_valid := True\<rparr>), upd_buf b (\<lambda>x. x\<lparr>b_dirty := False\<rparr>)] s1 = Ret () s2"
    "bufs s2 = (bufs s)(b := y)" "ide_frame s1 s2" "idequeue s2 = b_qnext (bufs s b)" "dwrites s2 = dwrites s"
    "q \<noteq> [] \<longrightarrow> ide_answers 1 (portin (devices s2) 0x1f7)"
    using fetch [OF s1(1,3) d1] unfolding s1 by blast
  note f2 = ide_frame_sel [OF s2(3)] s1
  have "table_ok s2 R F" using tab1 s2(3) by (auto simp: ide_frame_def table_ok_def lists_rep_def nexts_def)
  moreover have "lock_free PtableLock s2" using env f2 by (simp add: lock_free_def)
  ultimately obtain s3 R' where s3: "wakeup (BufChan b) s2 = Ret () s3" "only_states s2 s3"
    "\<forall>p < NPROC. p_state (procs s3 p) =
        (if p_state (procs s p) = SLEEPING \<and> p_chan (procs s p) = BufChan b then RUNNABLE else p_state (procs s p))"
    using wakeup_run [of s2 R F "BufChan b"] f2 by auto
  note f3 = only_states_disk [OF s3(2)] only_states_kernel(2,3,4) [OF s3(2)]
  have nx: "b_qnext (bufs s2 c) = b_qnext (bufs s c)" for c by (simp add: s2(2) y)
  have c3: "chain (\<lambda>c. b_qnext (bufs s3 c)) (idequeue s3) q" using q(3) by (simp add: f3 nx s2(4))
  have r3: "\<forall>c \<in> set q. c < NBUF \<and> ide_request (bufs s3 c)" using q(4,5) by (auto simp: f3 s2(2))
  have "q \<noteq> [] \<Longrightarrow> ide_answers 1 (portin (devices s3) 0x1f7)" using s2(6) unfolding f3 by blast
  from ide_next_run [OF c3 _ r3 this] q(4) obtain s4 where
    s4: "ide_next s3 = Ret () s4" "ide_ok s4 q" "ide_frame s3 s4"
      "bufs s4 = bufs s3" "dwrites s4 = (case q of [] \<Rightarrow> dwrites s3 | c # _ \<Rightarrow> put_dirty (bufs s3 c) (dwrites s3))" by auto
  note f4 = ide_frame_sel [OF s4(3)]
  define t where "t = lock_dropped IdeLock s4"
  have t: "bufs t = bufs s4" "idequeue t = idequeue s4" "devices t = devices s4" "disk0 t = disk0 s4" "dwrites t = dwrites s4"
    "procs t = procs s4" "owner t IdeLock = None" by (simp_all add: t_def lock_dropped_def)
  have rel: "release_lk IdeLock s4 = Ret () t" unfolding t_def by (rule release_dropped) (use env f2 f3 f4 in auto)
  have acq: "acquire_lk IdeLock s = Ret () (lock_taken IdeLock s)" using env(1) by (simp add: acquire_lk_eq_Ret)
  have "kbind (the_buf b b_qnext) (\<lambda>n. kmod (\<lambda>s. s\<lparr>idequeue := n\<rparr>)) (lock_taken IdeLock s) = Ret () s1"
    by (simp add: the_buf_def kmonad s1_def lock_taken_def)
  moreover have "idequeue (lock_taken IdeLock s) = Some b" using q(1) by (simp add: lock_taken_def)
  ultimately have "ideintr s = Ret () t"
    unfolding ideintr_fetch using acq s2(1) s3(1) s4(1) rel by (auto simp: kmonad kthen_eq_Ret kbind_eq_Ret)
  moreover have "ide_ok t q" using s4(2) t ide_ok_cong [of t s4] by simp
  moreover have "dwrites t = (case q of [] \<Rightarrow> dwrites s | c # _ \<Rightarrow> put_dirty (bufs s c) (dwrites s))"
    using s4(5) q(4) by (cases q) (auto simp: t f3 s2)
  ultimately show ?thesis using s3(3) t s4(4) f3 f4 f2 s2(2) by (intro exI [of _ t]) simp
qed

lemma ideintr_run:
  fixes s :: "'a bstate_scheme"
  assumes ok: "ide_ok s (b # q)" and tab: "table_ok s R F"
    and env: "owner s IdeLock = None" "owner s PtableLock = None" "0 \<le> ncli s (cpuid s)"
    and ans: "ide_answers 2 (portin (devices s) 0x1f7)"
  shows "\<exists>t. ideintr s = Ret () t \<and> ide_ok t q \<and> bufs t = (bufs s)(b := ide_done (disk s) (bufs s b))
    \<and> disk0 t = disk0 s \<and> dwrites t = (case q of [] \<Rightarrow> dwrites s | c # _ \<Rightarrow> put_dirty (bufs s c) (dwrites s))
    \<and> owner t IdeLock = None \<and> (\<forall>p < NPROC. p_state (procs t p) =
        (if p_state (procs s p) = SLEEPING \<and> p_chan (procs s p) = BufChan b then RUNNABLE else p_state (procs s p)))"
proof (rule ideintr_gen [OF ok tab env])
  fix s1 :: "'a bstate_scheme"
  assume s1: "bufs s1 = bufs s" "devices s1 = devices s" "disk s1 = disk s"
  have "ide_cmd (devices s1) (bufs s1 b)" using ok s1 by (simp add: ide_ok_def)
  moreover have "ide_answers (Suc 1) (portin (devices s1) 0x1f7)" using ans s1 by (simp add: numeral_2_eq_2)
  ultimately show "\<exists>t. kdo [ide_fetch b, upd_buf b (\<lambda>x. x\<lparr>b_valid := True\<rparr>), upd_buf b (\<lambda>x. x\<lparr>b_dirty := False\<rparr>)] s1 = Ret () t
      \<and> bufs t = (bufs s1)(b := ide_done (disk s) (bufs s b)) \<and> ide_frame s1 t \<and> idequeue t = idequeue s1 \<and> dwrites t = dwrites s1
      \<and> (q \<noteq> [] \<longrightarrow> ide_answers 1 (portin (devices t) 0x1f7))"
    using ide_fetch_run [of s1 b 1] unfolding s1 by blast
qed (simp add: ide_done_def)

text \<open>A reading with an error bit: the data stay as they are.\<close>

lemma ide_fetch_error:
  assumes "\<not> b_dirty (bufs s b)" "dropWhile ide_busy (portin (devices s) 0x1f7) = r # rest" "r AND (IDE_DF OR IDE_ERR) \<noteq> 0"
  shows "\<exists>t. kdo [ide_fetch b, upd_buf b (\<lambda>x. x\<lparr>b_valid := True\<rparr>), upd_buf b (\<lambda>x. x\<lparr>b_dirty := False\<rparr>)] s = Ret () t
    \<and> bufs t = (bufs s)(b := (bufs s b)\<lparr>b_valid := True\<rparr>) \<and> ide_frame s t \<and> idequeue t = idequeue s \<and> dwrites t = dwrites s"
proof -
  define h where "h = (devices s)\<lparr>portin := (portin (devices s))(0x1f7 := rest)\<rparr>"
  have w: "idewait True s = Ret (- 1) (s\<lparr>devices := h\<rparr>)" using idewait_run [OF assms(2), of True] assms(3) by (simp add: h_def)
  let ?B = "(bufs s)(b := (bufs s b)\<lparr>b_valid := True, b_dirty := False\<rparr>)"
  let ?t = "s\<lparr>bufs := ?B, devices := h\<rparr>"
  have "?B = (bufs s)(b := (bufs s b)\<lparr>b_valid := True\<rparr>)" using assms(1) by (cases "bufs s b") simp
  moreover have "kdo [ide_fetch b, upd_buf b (\<lambda>x. x\<lparr>b_valid := True\<rparr>), upd_buf b (\<lambda>x. x\<lparr>b_dirty := False\<rparr>)] s = Ret () ?t"
    using assms(1) w by (simp add: ide_fetch_def the_buf_def upd_buf_def kmonad)
  moreover have "?t = s\<lparr>bufs := ?B, idequeue := idequeue s, devices := h, dwrites := dwrites s\<rparr>" by simp
  then have "ide_frame s ?t" unfolding ide_frame_def by blast
  ultimately show ?thesis by (intro exI [of _ ?t]) simp
qed
section \<open>The driver and the memory disk\<close>

text \<open>C37. The driver serves its queue in order and like the memory disk. With the buffers \<open>q\<close> waiting, \<open>iderw\<close>
  puts a new request \<open>b\<close> at the end of the queue and sleeps on \<open>b\<close> with the lock free; of the buffers only links of the queue
  change, and the disk changes only when the queue was empty and \<open>b\<close> is to be written. The interrupt at the end of the first
  request \<open>c\<close> leaves all buffers as \<open>iderw\<close> of \<open>memide.c\<close> leaves them for \<open>c\<close>, and the disk too, but for the next request,
  which is started; whoever sleeps on \<open>c\<close> becomes runnable. Without a request the interrupt does nothing. The controller is assumed to become
  ready, without an error.\<close>

theorem ide_serves_like_memide:
  assumes "ide_ok s q" "table_ok s R F" "owner s IdeLock = None" "owner s PtableLock = None" "ncli s (cpuid s) = 0"
    "ide_answers 2 (portin (devices s) 0x1f7)" "disksize s = FSSIZE" "havedisk1 s"
  shows "(b < NBUF \<and> b \<notin> set q \<and> ide_request (bufs s b) \<and> cproc s (cpuid s) = Some p \<longrightarrow>
      (\<exists>t. ide_rw b s = Sleeps t \<and> ide_ok t (q @ [b]) \<and> owner t IdeLock = None
        \<and> p_state (procs t p) = SLEEPING \<and> p_chan (procs t p) = BufChan b \<and> relinked (bufs s) (bufs t)
        \<and> disk t = (if q = [] \<and> b_dirty (bufs s b) then (disk s)(b_blockno (bufs s b) := b_data (bufs s b)) else disk s)))
    \<and> (case q of [] \<Rightarrow> ideintr s = Ret () s
       | c # q' \<Rightarrow> \<exists>t u. ideintr s = Ret () t \<and> iderw c s = Ret () u \<and> ide_ok t q' \<and> bufs t = bufs u
           \<and> disk t = (if q' \<noteq> [] \<and> b_dirty (bufs s (hd q'))
               then (disk u)(b_blockno (bufs s (hd q')) := b_data (bufs s (hd q'))) else disk u)
           \<and> owner t IdeLock = None \<and> (\<forall>r < NPROC. p_state (procs t r) =
               (if p_state (procs s r) = SLEEPING \<and> p_chan (procs s r) = BufChan c then RUNNABLE else p_state (procs s r))))"
proof (intro conjI impI)
  assume b: "b < NBUF \<and> b \<notin> set q \<and> ide_request (bufs s b) \<and> cproc s (cpuid s) = Some p"
  have "ide_answers 1 (portin (devices s) 0x1f7)" using ide_answers_less [of 1] assms(6) by (simp add: numeral_2_eq_2)
  with ide_rw_run [OF assms(1), of b p] b assms(3,4,5,8)
  show "\<exists>t. ide_rw b s = Sleeps t \<and> ide_ok t (q @ [b]) \<and> owner t IdeLock = None
        \<and> p_state (procs t p) = SLEEPING \<and> p_chan (procs t p) = BufChan b \<and> relinked (bufs s) (bufs t)
        \<and> disk t = (if q = [] \<and> b_dirty (bufs s b) then (disk s)(b_blockno (bufs s b) := b_data (bufs s b)) else disk s)" by blast
next
  show "case q of [] \<Rightarrow> ideintr s = Ret () s
       | c # q' \<Rightarrow> \<exists>t u. ideintr s = Ret () t \<and> iderw c s = Ret () u \<and> ide_ok t q' \<and> bufs t = bufs u
           \<and> disk t = (if q' \<noteq> [] \<and> b_dirty (bufs s (hd q'))
               then (disk u)(b_blockno (bufs s (hd q')) := b_data (bufs s (hd q'))) else disk u)
           \<and> owner t IdeLock = None \<and> (\<forall>r < NPROC. p_state (procs t r) =
               (if p_state (procs s r) = SLEEPING \<and> p_chan (procs s r) = BufChan c then RUNNABLE else p_state (procs s r)))"
  proof (cases q)
    case Nil
    then have "idequeue (lock_taken IdeLock s) = None" using assms(1) by (simp add: ide_ok_def lock_taken_def)
    moreover have "lock_free IdeLock s" using assms(3,5) by (simp add: lock_free_def)
    ultimately show ?thesis using Nil by (simp add: ideintr_def kmonad klock.acq_free klock.rel_taken)
  next
    case (Cons c q')
    have ok: "ide_ok s (c # q')" using assms(1) Cons by simp
    then have c: "ide_request (bufs s c)" "b_dirty (bufs s c) \<Longrightarrow> disk s (b_blockno (bufs s c)) = b_data (bufs s c)"
      by (auto simp: ide_ok_def)
    obtain t where t: "ideintr s = Ret () t" "ide_ok t q'" "bufs t = (bufs s)(c := ide_done (disk s) (bufs s c))" "disk0 t = disk0 s"
      "dwrites t = (case q' of [] \<Rightarrow> dwrites s | d # _ \<Rightarrow> put_dirty (bufs s d) (dwrites s))" "owner t IdeLock = None"
      "\<forall>r < NPROC. p_state (procs t r) =
        (if p_state (procs s r) = SLEEPING \<and> p_chan (procs s r) = BufChan c then RUNNABLE else p_state (procs s r))"
      using ideintr_run [OF ok assms(2-4) _ assms(6)] assms(5) by auto
    obtain u where u: "iderw c s = Ret () u" "bufs u = (bufs s)(c := ide_done (disk s) (bufs s c))"
      "dwrites u = put_dirty (bufs s c) (dwrites s)" "disk0 u = disk0 s" using memide_run [OF c(1) assms(7)] by blast
    have du: "disk u = disk s" using disk_put_dirty [OF u(4,3)] c(2) by (auto simp: fun_upd_idem)
    have "disk t = (if q' \<noteq> [] \<and> b_dirty (bufs s (hd q'))
        then (disk s)(b_blockno (bufs s (hd q')) := b_data (bufs s (hd q'))) else disk s)"
    proof (cases q')
      case Nil
      then show ?thesis using t(4,5) by (simp add: disk_def)
    next
      case (Cons d q2)
      then show ?thesis using disk_put_dirty [OF t(4), of "bufs s d"] t(5) by simp
    qed
    with t u du Cons show ?thesis by auto
  qed
qed

text \<open>A state in which buffer 0 is being read and buffer 1 is to be written.\<close>

definition ide_demo :: bstate where
  "ide_demo = bio_demo\<lparr>bufs := (bufs bio_demo)(
       0 := (bufs bio_demo 0)\<lparr>b_busy := True, b_dev := 1, b_blockno := 5\<rparr>,
       1 := (bufs bio_demo 1)\<lparr>b_busy := True, b_dirty := True, b_dev := 1, b_blockno := 7\<rparr>),
     idequeue := Some 0, cproc := (\<lambda>_. Some 3),
     devices := boot_hw\<lparr>ports := [(0x1f7, IDE_CMD_READ), (0x1f6, 0xf0), (0x1f5, 0), (0x1f4, 0), (0x1f3, 5)],
       portin := (\<lambda>_. [0x80, 0x40, 0x40])\<rparr>\<rparr>"

theorem ide_serves_like_memide_witness:
  "(\<exists>t. ide_rw 1 ide_demo = Sleeps t \<and> ide_ok t [0, 1])
    \<and> (\<exists>t. ideintr ide_demo = Ret () t \<and> b_valid (bufs t 0) \<and> b_data (bufs t 0) = disk ide_demo 5)"
proof -
  have sel: "disksize ide_demo = FSSIZE" "owner ide_demo = (\<lambda>_. None)" "ncli ide_demo (cpuid ide_demo) = 0" "havedisk1 ide_demo"
    by (simp_all add: ide_demo_def bio_demo_def pipe_demo_def pstate.defs bstate.defs FSSIZE_def)
  have tab: "table_ok ide_demo (\<lambda>_. []) []"
    by (auto simp: table_ok_def lists_rep_def nexts_def links_ok_def ide_demo_def bio_demo_def pipe_demo_def pstate.defs bstate.defs)
  have b: "bufs ide_demo 0 = (bufs bio_demo 0)\<lparr>b_busy := True, b_dev := 1, b_blockno := 5\<rparr>"
    "bufs ide_demo 1 = (bufs bio_demo 1)\<lparr>b_busy := True, b_dirty := True, b_dev := 1, b_blockno := 7\<rparr>"
    "idequeue ide_demo = Some 0" "cproc ide_demo (cpuid ide_demo) = Some 3" by (simp_all add: ide_demo_def)
  have f: "b_valid (bufs bio_demo c) = False" "b_dirty (bufs bio_demo c) = False" "b_qnext (bufs bio_demo c) = None" for c
    by (simp_all add: bio_demo_def pstate.defs bstate.defs)
  have r: "ide_request (bufs ide_demo 0)" "ide_request (bufs ide_demo 1)" by (simp_all add: b f ide_request_def FSSIZE_def del: One_nat_def)
  have ok: "ide_ok ide_demo [0]"
    using r by (simp add: ide_ok_def b f NBUF_def ide_cmd_def ide_sector_def ide_drive1_def port_reg_def)
      (simp add: ide_demo_def)
  have ans: "ide_answers 2 (portin (devices ide_demo) 0x1f7)"
    by (simp add: ide_demo_def numeral_2_eq_2 ide_busy_def IDE_BSY_def IDE_DRDY_def IDE_DF_def IDE_ERR_def)
  have o: "owner ide_demo IdeLock = None" "owner ide_demo PtableLock = None" by (simp_all add: sel)
  have c: "(1 :: nat) < NBUF \<and> (1 :: nat) \<notin> set [0] \<and> ide_request (bufs ide_demo 1) \<and> cproc ide_demo (cpuid ide_demo) = Some 3"
    using r(2) b(4) by (simp add: NBUF_def)
  note main = ide_serves_like_memide [OF ok tab o sel(3) ans sel(1,4), of 1 3]
  obtain t u where t: "ideintr ide_demo = Ret () t" "iderw 0 ide_demo = Ret () u" "bufs t = bufs u" using main by auto
  obtain v where v: "iderw 0 ide_demo = Ret () v" "bufs v = (bufs ide_demo)(0 := ide_done (disk ide_demo) (bufs ide_demo 0))"
    using memide_run [OF r(1) sel(1)] by blast
  have "b_valid (bufs t 0) \<and> b_data (bufs t 0) = disk ide_demo 5" using t(2,3) v by (simp add: ide_done_def b f)
  moreover have "\<exists>t. ide_rw 1 ide_demo = Sleeps t \<and> ide_ok t [0, 1]" using main c by (auto simp del: One_nat_def)
  ultimately show ?thesis using t(1) by blast
qed
text \<open>C38. The interrupt does not report a read error: when the controller answers with an error or a fault bit, the buffer of the
  request becomes valid with the data it had before, and the process that waits for it is woken as after a
  successful read.\<close>

theorem ideintr_hides_read_error:
  fixes s :: "'a bstate_scheme"
  assumes "ide_ok s [b]" "table_ok s R F" "owner s IdeLock = None" "owner s PtableLock = None" "0 \<le> ncli s (cpuid s)"
    "\<not> b_dirty (bufs s b)" "dropWhile ide_busy (portin (devices s) 0x1f7) = r # rest" "r AND (IDE_DF OR IDE_ERR) \<noteq> 0"
  shows "\<exists>t. ideintr s = Ret () t \<and> ide_ok t [] \<and> bufs t = (bufs s)(b := (bufs s b)\<lparr>b_valid := True\<rparr>)
    \<and> (\<forall>p < NPROC. p_state (procs s p) = SLEEPING \<and> p_chan (procs s p) = BufChan b \<longrightarrow> p_state (procs t p) = RUNNABLE)"
proof -
  have "\<exists>t. ideintr s = Ret () t \<and> ide_ok t [] \<and> bufs t = (bufs s)(b := (bufs s b)\<lparr>b_valid := True\<rparr>)
    \<and> disk0 t = disk0 s \<and> dwrites t = (case [] of [] \<Rightarrow> dwrites s | c # _ \<Rightarrow> put_dirty (bufs s c) (dwrites s))
    \<and> owner t IdeLock = None \<and> (\<forall>p < NPROC. p_state (procs t p) =
        (if p_state (procs s p) = SLEEPING \<and> p_chan (procs s p) = BufChan b then RUNNABLE else p_state (procs s p)))"
  proof (rule ideintr_gen [OF assms(1-5)])
    fix s1 :: "'a bstate_scheme"
    assume s1: "bufs s1 = bufs s" "devices s1 = devices s" "disk s1 = disk s"
    show "\<exists>t. kdo [ide_fetch b, upd_buf b (\<lambda>x. x\<lparr>b_valid := True\<rparr>), upd_buf b (\<lambda>x. x\<lparr>b_dirty := False\<rparr>)] s1 = Ret () t
      \<and> bufs t = (bufs s1)(b := (bufs s b)\<lparr>b_valid := True\<rparr>) \<and> ide_frame s1 t \<and> idequeue t = idequeue s1 \<and> dwrites t = dwrites s1
      \<and> ([] \<noteq> ([] :: nat list) \<longrightarrow> ide_answers 1 (portin (devices t) 0x1f7))"
      using ide_fetch_error [of s1 b r rest] assms(6-8) unfolding s1 by blast
  qed simp
  then show ?thesis by auto
qed

definition ide_error_demo :: bstate where
  "ide_error_demo = ide_demo\<lparr>devices := (devices ide_demo)\<lparr>portin := (\<lambda>_. [0x41])\<rparr>\<rparr>"

theorem ideintr_hides_read_error_witness:
  "\<not> b_valid (bufs ide_error_demo 0) \<and> b_data (bufs ide_error_demo 0) \<noteq> disk ide_error_demo 5
    \<and> (\<exists>t. ideintr ide_error_demo = Ret () t \<and> b_valid (bufs t 0) \<and> b_data (bufs t 0) = b_data (bufs ide_error_demo 0))"
proof -
  have sel: "owner ide_error_demo = (\<lambda>_. None)" "ncli ide_error_demo (cpuid ide_error_demo) = 0"
    "bufs ide_error_demo 0 = (bufs bio_demo 0)\<lparr>b_busy := True, b_dev := 1, b_blockno := 5\<rparr>" "idequeue ide_error_demo = Some 0"
    "b_data (bufs bio_demo 0) = []" "disk ide_error_demo 5 = replicate 512 5"
    "\<not> b_valid (bufs bio_demo 0)" "\<not> b_dirty (bufs bio_demo 0)" "b_qnext (bufs bio_demo 0) = None"
    by (simp_all add: ide_error_demo_def ide_demo_def bio_demo_def pipe_demo_def pstate.defs bstate.defs disk_def disk_after_def)
  have tab: "table_ok ide_error_demo (\<lambda>_. []) []"
    by (auto simp: table_ok_def lists_rep_def nexts_def links_ok_def ide_error_demo_def ide_demo_def bio_demo_def pipe_demo_def pstate.defs bstate.defs)
  have ok: "ide_ok ide_error_demo [0]"
    by (simp add: ide_ok_def sel NBUF_def ide_request_def ide_cmd_def ide_sector_def ide_drive1_def port_reg_def FSSIZE_def)
      (simp add: ide_error_demo_def ide_demo_def)
  have st: "dropWhile ide_busy (portin (devices ide_error_demo) 0x1f7) = [0x41]"
    by (simp add: ide_error_demo_def ide_busy_def IDE_BSY_def IDE_DRDY_def)
  have e: "(0x41 :: u8) AND (IDE_DF OR IDE_ERR) \<noteq> 0" by (simp add: IDE_DF_def IDE_ERR_def)
  have "\<exists>t. ideintr ide_error_demo = Ret () t \<and> ide_ok t [] \<and> bufs t = (bufs ide_error_demo)(0 := (bufs ide_error_demo 0)\<lparr>b_valid := True\<rparr>)
    \<and> (\<forall>p < NPROC. p_state (procs ide_error_demo p) = SLEEPING \<and> p_chan (procs ide_error_demo p) = BufChan 0 \<longrightarrow> p_state (procs t p) = RUNNABLE)"
    by (rule ideintr_hides_read_error [OF ok tab _ _ _ _ st e]) (simp_all add: sel)
  then show ?thesis using sel by (auto simp: sel)
qed

end
