(* ===== verification/Syscall.thy ===== *)
theory Syscall
  imports Process Ide
begin

text \<open>
  System calls: the fetching of arguments and the dispatch (\<open>syscall.c\<close>, \<open>syscall.h\<close>), the calls of
  \<open>sysproc.c\<close> and \<open>sysfile.c\<close>, the clock of \<open>lapic.c\<close> behind \<open>date\<close>, and the trap handler (\<open>trap.c\<close>). User memory is read and
  written through the page table of the current process; an address without a page is a fault. What a
  call stores in a user buffer is stored when the call below it has returned.
\<close>

unbundle bit_operations_syntax

section \<open>User memory and arguments\<close>

definition uaddr :: "bmem \<Rightarrow> uint \<Rightarrow> uint \<Rightarrow> uint option" where
  "uaddr m pgdir va = (let e = lookup m pgdir va in
     if has e PTE_P then Some (p2v (PTE_ADDR e) + (va - PGROUNDDOWN va)) else None)"

definition uload8 :: "uint \<Rightarrow> ('z ptable_scheme, u8) km" where
  "uload8 va = kbind (kget (\<lambda>s. (mem s, uaddr (mem s) (p2v (cr3 s (cpuid s))) va))) (\<lambda>(m, a).
     case a of None \<Rightarrow> kfault ''page fault'' | Some a \<Rightarrow> kret (m a))"

fun uload :: "nat \<Rightarrow> uint \<Rightarrow> ('z ptable_scheme, u8 list) km" where
  "uload 0 va = kret []"
| "uload (Suc n) va = kbind (uload8 va) (\<lambda>b. kbind (uload n (va + 1)) (\<lambda>bs. kret (b # bs)))"

fun ustore :: "uint \<Rightarrow> u8 list \<Rightarrow> ('z ptable_scheme, unit) km" where
  "ustore va [] = kret ()"
| "ustore va (b # bs) = kbind (kget (\<lambda>s. uaddr (mem s) (p2v (cr3 s (cpuid s))) va)) (\<lambda>a. case a of
     None \<Rightarrow> kfault ''page fault''
   | Some a \<Rightarrow> kthen (kmod (\<lambda>s. s\<lparr>mem := (mem s)(a := b)\<rparr>)) (ustore (va + 1) bs))"

text \<open>The pattern \<open>if(f(...) < 0) return -1\<close>.\<close>

definition or_fail :: "('s, 'a option) km \<Rightarrow> ('a \<Rightarrow> ('s, int) km) \<Rightarrow> ('s, int) km" where
  "or_fail m f = kbind m (\<lambda>r. case r of None \<Rightarrow> kret (- 1) | Some a \<Rightarrow> f a)"

definition cur :: "(proc \<Rightarrow> 'a) \<Rightarrow> ('z ptable_scheme, 'a) km" where
  "cur f = kbind curproc (\<lambda>p. the_proc p f)"

definition fetchint :: "uint \<Rightarrow> ('z ptable_scheme, uint option) km" where
  "fetchint addr = kbind (cur p_sz) (\<lambda>sz. if addr \<ge> sz \<or> addr + 4 > sz then kret None
     else kbind (uload 4 addr) (\<lambda>bs. kret (Some (rd32 bs 0))))"

fun fetchstr_loop :: "nat \<Rightarrow> uint \<Rightarrow> ('z ptable_scheme, u8 list option) km" where
  "fetchstr_loop 0 s = kret None"
| "fetchstr_loop (Suc k) s = kbind (uload8 s) (\<lambda>b. if b = 0 then kret (Some [])
     else kbind (fetchstr_loop k (s + 1)) (\<lambda>r. kret (map_option (\<lambda>bs. b # bs) r)))"

definition fetchstr :: "uint \<Rightarrow> ('z ptable_scheme, u8 list option) km" where
  "fetchstr addr = kbind (cur p_sz) (\<lambda>sz. if addr \<ge> sz then kret None else fetchstr_loop (unat sz - unat addr) addr)"

definition argint :: "nat \<Rightarrow> ('z ptable_scheme, uint option) km" where
  "argint n = kbind (cur (\<lambda>x. tf_esp (p_tf x))) (\<lambda>esp. fetchint (esp + 4 + 4 * of_nat n))"

definition argptr :: "nat \<Rightarrow> int \<Rightarrow> ('z ptable_scheme, uint option) km" where
  "argptr n nbytes = kbind (argint n) (\<lambda>r. case r of None \<Rightarrow> kret None
   | Some i \<Rightarrow> kbind (cur p_sz) (\<lambda>sz. if i \<ge> sz \<or> i + of_int nbytes > sz then kret None else kret (Some i)))"

definition argstr :: "nat \<Rightarrow> ('z ptable_scheme, u8 list option) km" where
  "argstr n = kbind (argint n) (\<lambda>r. case r of None \<Rightarrow> kret None | Some addr \<Rightarrow> fetchstr addr)"

section \<open>Calls on processes\<close>

definition sys_fork :: "('z fstate_scheme, int) km" where
  "sys_fork = fork"

definition sys_exit :: "('z fstate_scheme, int) km" where
  "sys_exit = kthen exit (kret 0)"

definition sys_wait :: "('z fstate_scheme, int) km" where
  "sys_wait = wait"

definition sys_kill :: "('z ptable_scheme, int) km" where
  "sys_kill = or_fail (argint 0) (\<lambda>pid. kill (sint pid))"

definition sys_getpid :: "('z ptable_scheme, int) km" where
  "sys_getpid = cur p_pid"

definition sys_sbrk :: "('z ptable_scheme, int) km" where
  "sys_sbrk = or_fail (argint 0) (\<lambda>n. kbind (cur p_sz) (\<lambda>addr. kbind (growproc (sint n)) (\<lambda>r.
     kret (if r < 0 then - 1 else sint addr))))"

definition sys_sleep_loop :: "uint \<Rightarrow> uint \<Rightarrow> ('z ptable_scheme, int) km" where
  "sys_sleep_loop n ticks0 = kbind (kget ticks) (\<lambda>t. if t - ticks0 < n then
       kbind (cur p_killed) (\<lambda>k. if k then kdo2 [release_lk TicksLock] (kret (- 1))
         else kdo2 [sleep TicksChan (Some TicksLock)] (kret 0))
     else kdo2 [release_lk TicksLock] (kret 0))"

definition sys_sleep :: "('z ptable_scheme, int) km" where
  "sys_sleep = or_fail (argint 0) (\<lambda>n. kthen (acquire_lk TicksLock) (kbind (kget ticks) (\<lambda>ticks0. sys_sleep_loop n ticks0)))"

definition sys_sleep_resume :: "uint \<Rightarrow> uint \<Rightarrow> ('z ptable_scheme, int) km" where
  "sys_sleep_resume n ticks0 = kthen (sleep_tail TicksLock) (sys_sleep_loop n ticks0)"

definition sys_uptime :: "('z ptable_scheme, int) km" where
  "sys_uptime = kthen (acquire_lk TicksLock) (kbind (kget ticks) (\<lambda>x. kdo2 [release_lk TicksLock] (kret (sint x))))"

record rtcdate =
  rd_second :: uint
  rd_minute :: uint
  rd_hour :: uint
  rd_day :: uint
  rd_month :: uint
  rd_year :: uint

text \<open>
  \<open>cmostime\<close>: the readings of the clock are a parameter, one triple per round of the loop: the first
  sample, whether an update was in progress, and the second sample. \<open>None\<close>: no round gave a stable sample.
\<close>

fun cmos_stable :: "(rtcdate \<times> bool \<times> rtcdate) list \<Rightarrow> rtcdate option" where
  "cmos_stable [] = None"
| "cmos_stable ((t1, uip, t2) # rs) = (if uip then cmos_stable rs else if t1 = t2 then Some t1 else cmos_stable rs)"

definition conv_bcd :: "uint \<Rightarrow> uint" where
  "conv_bcd x = drop_bit 4 x * 10 + (x AND 0xf)"

definition cmostime :: "u8 \<Rightarrow> (rtcdate \<times> bool \<times> rtcdate) list \<Rightarrow> rtcdate option" where
  "cmostime statb rs = map_option (\<lambda>t1.
     let t1 = (if statb AND 4 = 0 then \<lparr>rd_second = conv_bcd (rd_second t1), rd_minute = conv_bcd (rd_minute t1),
           rd_hour = conv_bcd (rd_hour t1), rd_day = conv_bcd (rd_day t1), rd_month = conv_bcd (rd_month t1),
           rd_year = conv_bcd (rd_year t1)\<rparr> else t1)
     in t1\<lparr>rd_year := rd_year t1 + 2000\<rparr>) (cmos_stable rs)"

type_synonym clock = "u8 \<times> (rtcdate \<times> bool \<times> rtcdate) list"

text \<open>\<open>sys_date\<close> does not look at the result of \<open>argptr\<close>: without an argument the pointer is not set.\<close>

definition sys_date :: "clock \<Rightarrow> ('z ptable_scheme, int) km" where
  "sys_date clk = kbind (argptr 0 24) (\<lambda>r. case r of None \<Rightarrow> kfault ''d''
   | Some d \<Rightarrow> (case cmostime (fst clk) (snd clk) of None \<Rightarrow> khang ''cmostime''
     | Some t \<Rightarrow> kdo2 [ustore d (concat (map word_bytes [rd_second t, rd_minute t, rd_hour t, rd_day t, rd_month t, rd_year t]))] (kret 0)))"

definition sys_timem :: "('z ptable_scheme, int) km" where
  "sys_timem = kret 0"

definition sys_getuid :: "('z ptable_scheme, int) km" where
  "sys_getuid = cur p_uid"

definition sys_getgid :: "('z ptable_scheme, int) km" where
  "sys_getgid = cur p_gid"

definition sys_getppid :: "('z ptable_scheme, int) km" where
  "sys_getppid = kbind (cur p_parent) (\<lambda>q. kbind (kderef ''parent'' q) (\<lambda>q. the_proc q p_pid))"

definition sys_setuid :: "('z ptable_scheme, int) km" where
  "sys_setuid = or_fail (argint 0) (\<lambda>u. kbind curproc (\<lambda>p. kdo2 [upd_proc p (\<lambda>x. x\<lparr>p_uid := sint u\<rparr>)] (kret 0)))"

definition sys_setgid :: "('z ptable_scheme, int) km" where
  "sys_setgid = or_fail (argint 0) (\<lambda>g. kbind curproc (\<lambda>p. kdo2 [upd_proc p (\<lambda>x. x\<lparr>p_gid := sint g\<rparr>)] (kret 0)))"

text \<open>One entry of the table of \<open>getprocs\<close>, 56 bytes; the two strings are stored without a terminating NUL.\<close>

definition ustore_uproc :: "uint \<Rightarrow> uproc \<Rightarrow> ('z ptable_scheme, unit) km" where
  "ustore_uproc a u = kdo [
     ustore a (concat (map (\<lambda>i. word_bytes (of_int i)) [u_pid u, u_uid u, u_gid u, u_ppid u, u_priority u])),
     ustore (a + 36) (word_bytes (u_size u)),
     ustore (a + 40) (u_name u),
     ustore (a + 20) (bytes_of (u_state u))]"

definition sys_getprocs :: "('z ptable_scheme, int) km" where
  "sys_getprocs = or_fail (argint 0) (\<lambda>max_n. or_fail (argptr 1 56) (\<lambda>table. kbind (getProcInfo (sint max_n)) (\<lambda>(r, us).
     kdo2 [kfor [0..<length us] (\<lambda>i. ustore_uproc (table + 56 * of_nat i) (us ! i))] (kret r))))"

definition sys_setpriority :: "('z ptable_scheme, int) km" where
  "sys_setpriority = or_fail (argint 0) (\<lambda>pid. or_fail (argint 1) (\<lambda>priority. setpriority (sint pid) (sint priority)))"

section \<open>Calls on files\<close>

definition argfd :: "nat \<Rightarrow> ('z ptable_scheme, (int \<times> nat) option) km" where
  "argfd n = kbind (argint n) (\<lambda>r. case r of None \<Rightarrow> kret None
   | Some w \<Rightarrow> let fd = sint w in if fd < 0 \<or> fd \<ge> int NOFILE then kret None
     else kbind (cur (\<lambda>x. p_ofile x (nat fd))) (\<lambda>f. kret (map_option (\<lambda>f. (fd, f)) f)))"

definition set_ofile :: "nat \<Rightarrow> nat option \<Rightarrow> ('z ptable_scheme, unit) km" where
  "set_ofile fd f = kbind curproc (\<lambda>p. upd_proc p (\<lambda>x. x\<lparr>p_ofile := (p_ofile x)(fd := f)\<rparr>))"

definition fdalloc :: "nat \<Rightarrow> ('z ptable_scheme, int) km" where
  "fdalloc f = kbind (cur (\<lambda>x. find (\<lambda>fd. p_ofile x fd = None) [0..<NOFILE])) (\<lambda>r. case r of
     Some fd \<Rightarrow> kdo2 [set_ofile fd (Some f)] (kret (int fd)) | None \<Rightarrow> kret (- 1))"

definition sys_dup :: "('z fstate_scheme, int) km" where
  "sys_dup = or_fail (argfd 0) (\<lambda>(_, f). kbind (fdalloc f) (\<lambda>fd. if fd < 0 then kret (- 1)
     else kbind (filedup f) (\<lambda>_. kret fd)))"

definition sys_read :: "('z fstate_scheme, int) km" where
  "sys_read = or_fail (argfd 0) (\<lambda>(_, f). or_fail (argint 2) (\<lambda>n. or_fail (argptr 1 (sint n)) (\<lambda>p.
     kbind (fileread f (sint n)) (\<lambda>(r, bs). kdo2 [ustore p bs] (kret r)))))"

definition sys_write :: "('z fstate_scheme, int) km" where
  "sys_write = or_fail (argfd 0) (\<lambda>(_, f). or_fail (argint 2) (\<lambda>n. or_fail (argptr 1 (sint n)) (\<lambda>p.
     kbind (uload (nat (sint n)) p) (\<lambda>bs. filewrite f bs (sint n)))))"

definition sys_close :: "('z fstate_scheme, int) km" where
  "sys_close = or_fail (argfd 0) (\<lambda>(fd, f). kdo2 [set_ofile (nat fd) None, fileclose f] (kret 0))"

definition half_bytes :: "u16 \<Rightarrow> u8 list" where
  "half_bytes w = [ucast w, ucast (drop_bit 8 w)]"

definition sys_fstat :: "('z fstate_scheme, int) km" where
  "sys_fstat = or_fail (argfd 0) (\<lambda>(_, f). or_fail (argptr 1 20) (\<lambda>p. or_fail (filestat f) (\<lambda>st. kdo2 [
     ustore (p + 4) (word_bytes (st_dev st)),
     ustore (p + 8) (word_bytes (st_ino st)),
     ustore p (half_bytes (st_type st)),
     ustore (p + 12) (half_bytes (st_nlink st)),
     ustore (p + 16) (word_bytes (st_size st))] (kret 0))))"

definition sys_link_bad :: "nat \<Rightarrow> ('z cstate_scheme, int) km" where
  "sys_link_bad ip = kdo2 [
     ilock ip,
     upd_inode ip (\<lambda>x. x\<lparr>i_nlink := i_nlink x - 1\<rparr>),
     iupdate ip,
     iunlockput ip,
     end_op] (kret (- 1))"

definition sys_link :: "('z cstate_scheme, int) km" where
  "sys_link = or_fail (argstr 0) (\<lambda>old. or_fail (argstr 1) (\<lambda>new. kthen begin_op (kbind (namei old) (\<lambda>r. case r of
     None \<Rightarrow> kdo2 [end_op] (kret (- 1))
   | Some ip \<Rightarrow> kthen (ilock ip) (kbind (the_inode ip i_type) (\<lambda>t.
       if t = T_DIR then kdo2 [iunlockput ip, end_op] (kret (- 1))
       else kthen (kdo [upd_inode ip (\<lambda>x. x\<lparr>i_nlink := i_nlink x + 1\<rparr>), iupdate ip, iunlock ip])
         (kbind (nameiparent new) (\<lambda>r. case r of
           None \<Rightarrow> sys_link_bad ip
         | Some (dp, name) \<Rightarrow> kthen (ilock dp) (kbind (kget (\<lambda>s. (inodes s dp, inodes s ip))) (\<lambda>(d, x).
             kbind (if i_dev d \<noteq> i_dev x then kret (- 1) else dirlink dp name (i_inum x)) (\<lambda>r.
               if r < 0 then kthen (iunlockput dp) (sys_link_bad ip)
               else kdo2 [iunlockput dp, iput ip, end_op] (kret 0))))))))))))"

fun isdirempty_loop :: "nat \<Rightarrow> uint list \<Rightarrow> ('z cstate_scheme, bool) km" where
  "isdirempty_loop dp [] = kret True"
| "isdirempty_loop dp (off # offs) = kbind (readi dp off 16) (\<lambda>(r, de).
     if r \<noteq> 16 then kpanic ''isdirempty: readi''
     else if de_inum de \<noteq> 0 then kret False else isdirempty_loop dp offs)"

definition isdirempty :: "nat \<Rightarrow> ('z cstate_scheme, bool) km" where
  "isdirempty dp = kbind (the_inode dp i_size) (\<lambda>sz. isdirempty_loop dp (drop 2 (de_offs sz)))"

definition sys_unlink_bad :: "nat \<Rightarrow> ('z cstate_scheme, int) km" where
  "sys_unlink_bad dp = kdo2 [iunlockput dp, end_op] (kret (- 1))"

definition sys_unlink_entry :: "nat \<Rightarrow> nat \<Rightarrow> uint \<Rightarrow> ('z cstate_scheme, int) km" where
  "sys_unlink_entry dp ip off = kbind (writei dp (replicate 16 0) off 16) (\<lambda>w. if w \<noteq> 16 then kpanic ''unlink: writei''
     else kbind (the_inode ip i_type) (\<lambda>t. kdo2 [
       (if t = T_DIR then kdo [upd_inode dp (\<lambda>x. x\<lparr>i_nlink := i_nlink x - 1\<rparr>), iupdate dp] else kret ()),
       iunlockput dp,
       upd_inode ip (\<lambda>x. x\<lparr>i_nlink := i_nlink x - 1\<rparr>),
       iupdate ip,
       iunlockput ip,
       end_op] (kret 0)))"

definition sys_unlink :: "('z cstate_scheme, int) km" where
  "sys_unlink = or_fail (argstr 0) (\<lambda>path. kthen begin_op (kbind (nameiparent path) (\<lambda>r. case r of
     None \<Rightarrow> kdo2 [end_op] (kret (- 1))
   | Some (dp, name) \<Rightarrow> kthen (ilock dp) (
       if namecmp name [46] = 0 \<or> namecmp name [46, 46] = 0 then sys_unlink_bad dp
       else kbind (dirlookup dp name) (\<lambda>r. case r of
         None \<Rightarrow> sys_unlink_bad dp
       | Some (ip, off) \<Rightarrow> kthen (ilock ip) (kbind (the_inode ip id) (\<lambda>x.
           if sint (i_nlink x) < 1 then kpanic ''unlink: nlink < 1''
           else kbind (if i_type x = T_DIR then isdirempty ip else kret True) (\<lambda>e.
             if \<not> e then kthen (iunlockput ip) (sys_unlink_bad dp)
             else sys_unlink_entry dp ip off))))))))"

text \<open>The new inode of \<open>create\<close>: its fields, the entries of a directory, and the entry in the parent.\<close>

definition create_new :: "nat \<Rightarrow> u8 list \<Rightarrow> u16 \<Rightarrow> u16 \<Rightarrow> u16 \<Rightarrow> ('z cstate_scheme, nat option) km" where
  "create_new dp name ty major minor = kbind (the_inode dp i_dev) (\<lambda>dev. kbind (ialloc dev ty) (\<lambda>ip.
     kthen (kdo [ilock ip, upd_inode ip (\<lambda>x. x\<lparr>i_major := major, i_minor := minor, i_nlink := 1\<rparr>), iupdate ip])
     (kbind (kget (\<lambda>s. (i_inum (inodes s ip), i_inum (inodes s dp)))) (\<lambda>(inum, dinum). kdo2 [
       (if ty = T_DIR then kdo [
          upd_inode dp (\<lambda>x. x\<lparr>i_nlink := i_nlink x + 1\<rparr>),
          iupdate dp,
          kbind (dirlink ip [46] inum) (\<lambda>r. if r < 0 then kpanic ''create dots'' else
            kbind (dirlink ip [46, 46] dinum) (\<lambda>r. if r < 0 then kpanic ''create dots'' else kret ()))] else kret ()),
       kbind (dirlink dp name inum) (\<lambda>r. if r < 0 then kpanic ''create: dirlink'' else kret ()),
       iunlockput dp] (kret (Some ip))))))"

definition create :: "u8 list \<Rightarrow> u16 \<Rightarrow> u16 \<Rightarrow> u16 \<Rightarrow> ('z cstate_scheme, nat option) km" where
  "create path ty major minor = kbind (nameiparent path) (\<lambda>r. case r of
     None \<Rightarrow> kret None
   | Some (dp, name) \<Rightarrow> kthen (ilock dp) (kbind (dirlookup dp name) (\<lambda>r. case r of
       Some (ip, _) \<Rightarrow> kthen (kdo [iunlockput dp, ilock ip]) (kbind (the_inode ip i_type) (\<lambda>t.
         if ty = T_FILE \<and> t = T_FILE then kret (Some ip) else kdo2 [iunlockput ip] (kret None)))
     | None \<Rightarrow> create_new dp name ty major minor)))"

definition O_WRONLY :: uint where
  "O_WRONLY = 1"

definition O_RDWR :: uint where
  "O_RDWR = 2"

definition O_CREATE :: uint where
  "O_CREATE = 0x200"

definition open_fd :: "nat \<Rightarrow> uint \<Rightarrow> ('z fstate_scheme, int) km" where
  "open_fd ip omode = kbind filealloc (\<lambda>r. case r of
     None \<Rightarrow> kdo2 [iunlockput ip, end_op] (kret (- 1))
   | Some f \<Rightarrow> kbind (fdalloc f) (\<lambda>fd. if fd < 0 then kdo2 [fileclose f, iunlockput ip, end_op] (kret (- 1))
       else kdo2 [
         iunlock ip,
         end_op,
         upd_file f (\<lambda>x. x\<lparr>f_type := FD_INODE, f_ip := ip, f_off := 0, f_readable := (omode AND O_WRONLY = 0),
           f_writable := (omode AND O_WRONLY \<noteq> 0 \<or> omode AND O_RDWR \<noteq> 0)\<rparr>)] (kret fd)))"

definition sys_open :: "('z fstate_scheme, int) km" where
  "sys_open = or_fail (argstr 0) (\<lambda>path. or_fail (argint 1) (\<lambda>omode. kthen begin_op (
     if omode AND O_CREATE \<noteq> 0 then kbind (create path T_FILE 0 0) (\<lambda>r. case r of
         None \<Rightarrow> kdo2 [end_op] (kret (- 1)) | Some ip \<Rightarrow> open_fd ip omode)
     else kbind (namei path) (\<lambda>r. case r of
         None \<Rightarrow> kdo2 [end_op] (kret (- 1))
       | Some ip \<Rightarrow> kthen (ilock ip) (kbind (the_inode ip i_type) (\<lambda>t.
           if t = T_DIR \<and> omode \<noteq> 0 then kdo2 [iunlockput ip, end_op] (kret (- 1)) else open_fd ip omode))))))"

text \<open>The end of \<open>mkdir\<close> and \<open>mknod\<close>, on the result of \<open>create\<close>.\<close>

definition created :: "nat option \<Rightarrow> ('z cstate_scheme, int) km" where
  "created r = (case r of None \<Rightarrow> kdo2 [end_op] (kret (- 1)) | Some ip \<Rightarrow> kdo2 [iunlockput ip, end_op] (kret 0))"

definition sys_mkdir :: "('z cstate_scheme, int) km" where
  "sys_mkdir = kthen begin_op (kbind (argstr 0) (\<lambda>p. case p of None \<Rightarrow> created None
   | Some path \<Rightarrow> kbind (create path T_DIR 0 0) created))"

definition sys_mknod :: "('z cstate_scheme, int) km" where
  "sys_mknod = kthen begin_op (kbind (argstr 0) (\<lambda>p. case p of None \<Rightarrow> created None
   | Some path \<Rightarrow> kbind (argint 1) (\<lambda>major. case major of None \<Rightarrow> created None
   | Some major \<Rightarrow> kbind (argint 2) (\<lambda>minor. case minor of None \<Rightarrow> created None
   | Some minor \<Rightarrow> kbind (create path T_DEV (ucast major) (ucast minor)) created))))"

definition sys_chdir :: "('z cstate_scheme, int) km" where
  "sys_chdir = kthen begin_op (kbind (argstr 0) (\<lambda>p. case p of None \<Rightarrow> kdo2 [end_op] (kret (- 1))
   | Some path \<Rightarrow> kbind (namei path) (\<lambda>r. case r of None \<Rightarrow> kdo2 [end_op] (kret (- 1))
   | Some ip \<Rightarrow> kthen (ilock ip) (kbind (the_inode ip i_type) (\<lambda>t.
       if t \<noteq> T_DIR then kdo2 [iunlockput ip, end_op] (kret (- 1))
       else kbind curproc (\<lambda>me. kdo2 [
         iunlock ip,
         kbind (the_proc me p_cwd) (\<lambda>cwd. case cwd of None \<Rightarrow> kfault ''cwd'' | Some old \<Rightarrow> iput old),
         end_op,
         upd_proc me (\<lambda>x. x\<lparr>p_cwd := Some ip\<rparr>)] (kret 0)))))))"

text \<open>The argument vector of \<open>exec\<close>: at most \<open>MAXARG\<close> entries with the null that ends it.\<close>

fun fetch_argv :: "nat \<Rightarrow> uint \<Rightarrow> ('z ptable_scheme, u8 list list option) km" where
  "fetch_argv 0 uargv = kret None"
| "fetch_argv (Suc k) uargv = kbind (fetchint uargv) (\<lambda>r. case r of None \<Rightarrow> kret None
   | Some uarg \<Rightarrow> if uarg = 0 then kret (Some [])
     else kbind (fetchstr uarg) (\<lambda>r. case r of None \<Rightarrow> kret None
       | Some a \<Rightarrow> kbind (fetch_argv k (uargv + 4)) (\<lambda>r. kret (map_option (\<lambda>as. a # as) r))))"

definition sys_exec :: "('z cstate_scheme, int) km" where
  "sys_exec = or_fail (argstr 0) (\<lambda>path. or_fail (argint 1) (\<lambda>uargv. or_fail (fetch_argv MAXARG uargv) (\<lambda>argv. exec path argv)))"

definition sys_pipe :: "('z fstate_scheme, int) km" where
  "sys_pipe = or_fail (argptr 0 8) (\<lambda>fd. or_fail pipealloc (\<lambda>(rf, wf). kbind (fdalloc rf) (\<lambda>fd0.
     if fd0 < 0 then kdo2 [fileclose rf, fileclose wf] (kret (- 1))
     else kbind (fdalloc wf) (\<lambda>fd1.
       if fd1 < 0 then kdo2 [set_ofile (nat fd0) None, fileclose rf, fileclose wf] (kret (- 1))
       else kdo2 [ustore fd (word_bytes (of_int fd0)), ustore (fd + 4) (word_bytes (of_int fd1))] (kret 0)))))"

section \<open>Dispatch and traps\<close>

definition syscalls :: "clock \<Rightarrow> (('z fstate_scheme, int) km) list" where
  "syscalls clk = [sys_fork, sys_exit, sys_wait, sys_pipe, sys_read, sys_kill, sys_exec, sys_fstat, sys_chdir, sys_dup,
     sys_getpid, sys_sbrk, sys_sleep, sys_uptime, sys_open, sys_write, sys_mknod, sys_unlink, sys_link, sys_mkdir,
     sys_close, sys_date clk, sys_timem, sys_getuid, sys_getgid, sys_getppid, sys_setuid, sys_setgid, sys_getprocs,
     sys_setpriority]"

definition set_eax :: "int \<Rightarrow> ('z ptable_scheme, unit) km" where
  "set_eax r = kbind curproc (\<lambda>p. upd_proc p (\<lambda>x. x\<lparr>p_tf := (p_tf x)\<lparr>tf_eax := of_int r\<rparr>\<rparr>))"

definition syscall :: "clock \<Rightarrow> ('z fstate_scheme, unit) km" where
  "syscall clk = kbind (cur (\<lambda>x. sint (tf_eax (p_tf x)))) (\<lambda>num.
     if num > 0 \<and> num \<le> 30 then kbind (syscalls clk ! (nat num - 1)) set_eax
     else kbind (cur id) (\<lambda>x. kdo [
       cprintf (''%d %s: unknown sys call %d'' @ nl) [PInt (of_int (p_pid x)), PStr (Some (chars (p_name x))), PInt (of_int num)],
       set_eax (- 1)]))"

definition exit_if_killed :: "('z fstate_scheme, unit) km" where
  "exit_if_killed = kbind (cur p_killed) (\<lambda>k. if k then exit else kret ())"

text \<open>\<open>trap\<close> for a system call; the trap frame is already that of the process.\<close>

definition trap_syscall :: "clock \<Rightarrow> ('z fstate_scheme, unit) km" where
  "trap_syscall clk = kdo [exit_if_killed, syscall clk, exit_if_killed]"

text \<open>The timer interrupt: CPU 0 counts the ticks.\<close>

definition timer_tick :: "('z ptable_scheme, unit) km" where
  "timer_tick = kbind (kget cpuid) (\<lambda>c. if c = 0 then kdo [
     acquire_lk TicksLock,
     kmod (\<lambda>s. s\<lparr>ticks := ticks s + 1\<rparr>),
     wakeup TicksChan,
     release_lk TicksLock] else kret ())"

datatype irq = IrqTimer | IrqIde | IrqIde1 | IrqKbd uint "u8 list" | IrqCom1 "u8 list" | IrqSpurious | Exception uint

text \<open>
  The other traps, with what the keyboard and the serial port deliver as a parameter of the interrupt. \<open>cs\<close> is the code
  segment of the interrupted code. With the memory disk the queue of \<open>ideintr\<close> is empty and it does nothing, like the
  \<open>ideintr\<close> of \<open>memide.c\<close>.
\<close>

definition trap_irq :: "irq \<Rightarrow> uint \<Rightarrow> uint \<Rightarrow> uint \<Rightarrow> uint \<Rightarrow> ('z fstate_scheme, unit) km" where
  "trap_irq q cs eip err cr2 = kbind (kget cpuid) (\<lambda>c. kbind (kget (\<lambda>s. cproc s (cpuid s))) (\<lambda>p. case q of
     IrqTimer \<Rightarrow> kdo [timer_tick, lapiceoi]
   | IrqIde \<Rightarrow> kdo [ideintr, lapiceoi]
   | IrqIde1 \<Rightarrow> kret ()
   | IrqKbd shift ds \<Rightarrow> kthen (kbdintr shift ds) lapiceoi
   | IrqCom1 bs \<Rightarrow> kdo [uartintr bs, lapiceoi]
   | IrqSpurious \<Rightarrow> kdo [cprintf (''cpu%d: spurious interrupt at %x:%x'' @ nl) [PInt (of_nat c), PInt cs, PInt eip], lapiceoi]
   | Exception n \<Rightarrow> (case p of
       None \<Rightarrow> kthen (cprintf (''unexpected trap %d from cpu %d eip %x (cr2=0x%x)'' @ nl) [PInt n, PInt (of_nat c), PInt eip, PInt cr2]) (kpanic ''trap'')
     | Some p \<Rightarrow> if cs AND 3 = 0
         then kthen (cprintf (''unexpected trap %d from cpu %d eip %x (cr2=0x%x)'' @ nl) [PInt n, PInt (of_nat c), PInt eip, PInt cr2]) (kpanic ''trap'')
         else kbind (the_proc p id) (\<lambda>x. kdo [
           cprintf (''pid %d %s: trap %d err %d on cpu %d eip 0x%x addr 0x%x--kill proc'' @ nl)
             [PInt (of_int (p_pid x)), PStr (Some (chars (p_name x))), PInt n, PInt err, PInt (of_nat c), PInt eip, PInt cr2],
           upd_proc p (\<lambda>x. x\<lparr>p_killed := True\<rparr>)]))))"

definition exit_user_if_killed :: "uint \<Rightarrow> ('z fstate_scheme, unit) km" where
  "exit_user_if_killed cs = kbind (kget (\<lambda>s. cproc s (cpuid s))) (\<lambda>p. case p of None \<Rightarrow> kret ()
   | Some p \<Rightarrow> kbind (the_proc p p_killed) (\<lambda>k. if k \<and> cs AND 3 = 3 then exit else kret ()))"

definition trap_yield :: "irq \<Rightarrow> ('z fstate_scheme, unit) km" where
  "trap_yield q = kbind (kget (\<lambda>s. cproc s (cpuid s))) (\<lambda>p. case p of None \<Rightarrow> kret ()
   | Some p \<Rightarrow> kbind (the_proc p p_state) (\<lambda>st. if st = RUNNING \<and> q = IrqTimer then yield else kret ()))"

definition trap :: "irq \<Rightarrow> uint \<Rightarrow> uint \<Rightarrow> uint \<Rightarrow> uint \<Rightarrow> ('z fstate_scheme, unit) km" where
  "trap q cs eip err cr2 = kdo [
     trap_irq q cs eip err cr2,
     exit_user_if_killed cs,
     trap_yield q,
     exit_user_if_killed cs]"

section \<open>Properties\<close>

lemma cur_run: "cproc s (cpuid s) = Some p \<Longrightarrow> cur f s = Ret (f (procs s p)) s"
  by (simp add: cur_def curproc_def the_proc_def kmonad kderef_def)

lemma uload8_eq: "uload8 a s = Ret b s' \<Longrightarrow> s' = s"
  by (auto simp: uload8_def kinv split: option.splits)

lemma uload_eq: "uload n a s = Ret bs s' \<Longrightarrow> s' = s"
  by (induction n arbitrary: a bs s') (auto simp: kinv dest: uload8_eq)

lemma fetchstr_loop_bounds:
  "fetchstr_loop k a s = Ret (Some bs) s' \<Longrightarrow> length bs < k \<and> 0 \<notin> set bs \<and> s' = s"
  by (induction k arbitrary: a bs s') (fastforce simp: kinv split: if_splits dest: uload8_eq)+

lemma fetchint_eq:
  assumes "fetchint a s = Ret r s'" "cproc s (cpuid s) = Some p"
  shows "s' = s"
  using assms by (auto simp: fetchint_def kinv cur_run split: if_splits dest: uload_eq)

lemma argint_eq:
  assumes "argint n s = Ret r s'" "cproc s (cpuid s) = Some p"
  shows "s' = s"
  using assms fetchint_eq by (auto simp: argint_def kinv cur_run)

lemma range_no_wrap:
  assumes "\<not> sz \<le> (i :: uint)" "\<not> sz < i + of_int k" "sz \<le> 0x80000000" "0 \<le> k" "k < 2147483648"
  shows "unat i + nat k \<le> unat sz"
proof -
  have "unat sz \<le> 2147483648" using assms(3) by (simp add: word_le_nat_alt)
  moreover have "unat i < unat sz" using assms(1) by (simp add: word_le_nat_alt)
  moreover have k: "of_int k = (of_nat (nat k) :: uint)" using assms(4) by simp
  moreover have "unat (of_nat (nat k) :: uint) = nat k" using assms(5) by (intro unat_of_nat32) simp
  moreover have "nat k < 2147483648" using assms(5) by simp
  ultimately have "unat (of_int k :: uint) = nat k" "unat i + nat k < 4294967296" by (simp_all only: k)
  then have "unat (i + of_int k) = unat i + nat k" by (simp add: unat_plus_if')
  then show ?thesis using assms(2) by (simp add: word_less_nat_alt)
qed

lemma argptr_bounds:
  assumes p: "cproc s (cpuid s) = Some p" and sz: "p_sz (procs s p) \<le> 0x80000000"
    and r: "argptr n k s = Ret (Some a) s'" "0 \<le> k" "k < 2147483648"
  shows "s' = s \<and> unat a + nat k \<le> unat (p_sz (procs s p))"
proof -
  obtain x t where x: "argint n s = Ret x t" "(case x of None \<Rightarrow> kret None
      | Some i \<Rightarrow> kbind (cur p_sz) (\<lambda>sz. if i \<ge> sz \<or> i + of_int k > sz then kret None else kret (Some i))) t = Ret (Some a) s'"
    using r(1) by (auto simp: argptr_def kinv)
  have "t = s" using argint_eq [OF x(1) p] .
  then have "\<not> a \<ge> p_sz (procs s p) \<and> \<not> a + of_int k > p_sz (procs s p) \<and> s' = s"
    using x(2) p by (auto simp: kinv cur_run split: option.splits if_splits)
  then show ?thesis using range_no_wrap [OF _ _ sz r(2,3), of a] by blast
qed

lemma argstr_bounds:
  assumes p: "cproc s (cpuid s) = Some p" and r: "argstr n s = Ret (Some bs) s'"
  shows "s' = s \<and> 0 \<notin> set bs \<and> (\<exists>a. argint n s = Ret (Some a) s \<and> unat a + length bs < unat (p_sz (procs s p)))"
proof -
  obtain x t where x: "argint n s = Ret x t" "(case x of None \<Rightarrow> kret None | Some addr \<Rightarrow> fetchstr addr) t = Ret (Some bs) s'"
    using r by (auto simp: argstr_def kinv)
  have t: "t = s" using argint_eq [OF x(1) p] .
  obtain a where a: "x = Some a" "fetchstr a s = Ret (Some bs) s'" using x(2) t by (auto simp: kinv split: option.splits)
  then have "\<not> a \<ge> p_sz (procs s p)" "fetchstr_loop (unat (p_sz (procs s p)) - unat a) a s = Ret (Some bs) s'"
    using p by (auto simp: fetchstr_def kinv cur_run split: if_splits)
  with fetchstr_loop_bounds [OF this(2)] a(1) x(1) t show ?thesis by (auto simp: word_le_nat_alt)
qed

text \<open>A state for the witness: every word of memory is 0x07070707, as an entry of a page table a page that is present.\<close>

definition args_demo :: ptable where
  "args_demo = run_demo\<lparr>mem := (\<lambda>_. 7), procs := (\<lambda>_. zero_proc\<lparr>p_sz := 0x10000000\<rparr>), cproc := (\<lambda>_. Some 0)\<rparr>"

lemma args_demo_argint: "argint 0 args_demo = Ret (Some 0x07070707) args_demo"
proof -
  have w: "load32 (\<lambda>_. 7) a = 0x07070707" for a by (simp add: load32_def)
  have "lookup (\<lambda>_. 7) d va = 0x07070707" for d va by (simp add: lookup_def table_of_def w has_def PTE_P_def)
  then have "\<exists>y. uaddr (\<lambda>_. 7) d va = Some y" for d va by (simp add: uaddr_def has_def PTE_P_def)
  then have "uload8 va args_demo = Ret 7 args_demo" for va
  proof -
    obtain y where "uaddr (\<lambda>_. 7) (p2v (cr3 args_demo (cpuid args_demo))) va = Some y"
      using \<open>\<And>d va. \<exists>y. uaddr (\<lambda>_. 7) d va = Some y\<close> by blast
    moreover have "mem args_demo = (\<lambda>_. 7)" by (simp add: args_demo_def)
    ultimately show ?thesis by (simp add: uload8_def kmonad)
  qed
  then have "uload (Suc (Suc (Suc (Suc 0)))) va args_demo = Ret [7, 7, 7, 7] args_demo" for va by (simp add: kmonad)
  then have "uload 4 va args_demo = Ret [7, 7, 7, 7] args_demo" for va by (simp add: eval_nat_numeral)
  moreover have "cproc args_demo (cpuid args_demo) = Some 0" "p_sz (procs args_demo 0) = 0x10000000"
    "tf_esp (p_tf (procs args_demo 0)) = 0" by (simp_all add: args_demo_def zero_proc_def zero_tf_def)
  moreover have "rd32 [7, 7, 7, 7] 0 = 0x07070707" by (simp add: rd32_def)
  ultimately show ?thesis by (simp add: argint_def fetchint_def kmonad cur_run)
qed



end
