(* ===== verification/User_Prog.thy ===== *)
theory User_Prog
  imports Syscall
begin

text \<open>
  User programs: what a process does between two system calls is a pure function, and a program is the tree of its
  system calls (\<open>usys.S\<close>), each with a continuation that takes the result of the call. The kernel is not run
  inside these trees; \<open>run\<close> executes one against any function that answers the calls. A program ends with \<open>Exits\<close> (the
  call \<open>exit\<close>), with a fault, or because the bound of one of its loops is used up (\<open>Bounded\<close>).

  \<open>ulib.c\<close> and \<open>printf.c\<close> follow. A string that is only read is the list of its bytes before the NUL; the routines
  that write memory work on byte-addressed memory, as in the kernel.
\<close>

section \<open>System calls as a tree\<close>

datatype sysreq =
    Fork | Wait | PipeCall | Read int nat | Write int "u8 list" | Close int | KillCall int
  | Exec "u8 list" "u8 list list" | Open "u8 list" uint | Mknod "u8 list" int int | Unlink "u8 list" | Fstat int
  | Link "u8 list" "u8 list" | Mkdir "u8 list" | Chdir "u8 list" | Dup int | Getpid | Getuid | Getgid | Getppid
  | Setuid uint | Setgid uint | Getprocs int | Sbrk uint | SleepCall int | Uptime | Date | Setpriority int int

text \<open>The value in \<open>%eax\<close> and what the call left in the memory of the caller.\<close>

record sysret =
  sr_val :: int
  sr_buf :: "u8 list"
  sr_fds :: "int \<times> int"
  sr_stat :: stat
  sr_date :: rtcdate
  sr_procs :: "uproc list"

datatype 'a uprog = Done 'a | Exits | Faults string | Bounded | Call sysreq "sysret \<Rightarrow> 'a uprog"

primrec ubind :: "'a uprog \<Rightarrow> ('a \<Rightarrow> 'b uprog) \<Rightarrow> 'b uprog" where
  "ubind (Done x) f = f x"
| "ubind Exits f = Exits"
| "ubind (Faults e) f = Faults e"
| "ubind Bounded f = Bounded"
| "ubind (Call r k) f = Call r (\<lambda>x. ubind (k x) f)"

definition uthen :: "'a uprog \<Rightarrow> 'b uprog \<Rightarrow> 'b uprog" where
  "uthen p q = ubind p (\<lambda>_. q)"

fun useq :: "unit uprog list \<Rightarrow> 'a uprog \<Rightarrow> 'a uprog" where
  "useq [] q = q"
| "useq (p # ps) q = uthen p (useq ps q)"

definition sys :: "sysreq \<Rightarrow> int uprog" where
  "sys r = Call r (\<lambda>x. Done (sr_val x))"

definition sys0 :: "sysreq \<Rightarrow> unit uprog" where
  "sys0 r = Call r (\<lambda>x. Done ())"

definition sysr :: "sysreq \<Rightarrow> sysret uprog" where
  "sysr r = Call r Done"

text \<open>\<open>read\<close> delivers the count and, when it is positive, that many bytes.\<close>

definition uread :: "int \<Rightarrow> nat \<Rightarrow> (int \<times> u8 list) uprog" where
  "uread fd n = Call (Read fd n) (\<lambda>x. Done (sr_val x, take (nat (sr_val x)) (sr_buf x)))"

datatype 'a uend = Returns 'a | Exited | Faulted string | Cut

primrec run :: "(sysreq \<Rightarrow> 'w \<Rightarrow> sysret \<times> 'w) \<Rightarrow> 'a uprog \<Rightarrow> 'w \<Rightarrow> 'a uend \<times> 'w" where
  "run h (Done x) w = (Returns x, w)"
| "run h Exits w = (Exited, w)"
| "run h (Faults e) w = (Faulted e, w)"
| "run h Bounded w = (Cut, w)"
| "run h (Call r k) w = run h (k (fst (h r w))) (snd (h r w))"

lemma ubind_assoc: "ubind (ubind p f) g = ubind p (\<lambda>x. ubind (f x) g)"
  by (induction p) auto

lemma ubind_Done [simp]: "ubind p Done = p"
  by (induction p) auto

lemma run_ubind:
  "run h (ubind p f) w = (case run h p w of
     (Returns x, w') \<Rightarrow> run h (f x) w' | (Exited, w') \<Rightarrow> (Exited, w') | (Faulted e, w') \<Rightarrow> (Faulted e, w') | (Cut, w') \<Rightarrow> (Cut, w'))"
  by (induction p arbitrary: w) auto

lemma run_uthen: "run h p w = (Returns x, w') \<Longrightarrow> run h (uthen p q) w = run h q w'"
  by (simp add: uthen_def run_ubind)

section \<open>ulib.c\<close>

partial_function (option) strcpy_loop :: "bmem \<Rightarrow> uint \<Rightarrow> uint \<Rightarrow> bmem option" where
  "strcpy_loop m s t = (let m' = m(s := m t) in if m' s \<noteq> 0 then strcpy_loop m' (s + 1) (t + 1) else Some m')"

definition strcpy :: "bmem \<Rightarrow> uint \<Rightarrow> uint \<Rightarrow> (bmem \<times> uint) option" where
  "strcpy m s t = map_option (\<lambda>m'. (m', s)) (strcpy_loop m s t)"

fun strcmp :: "u8 list \<Rightarrow> u8 list \<Rightarrow> int" where
  "strcmp (p # ps) (q # qs) = (if p = q then strcmp ps qs else uint p - uint q)"
| "strcmp (p # ps) [] = uint p"
| "strcmp [] (q # qs) = - uint q"
| "strcmp [] [] = 0"

fun strlen :: "u8 list \<Rightarrow> nat" where
  "strlen [] = 0"
| "strlen (c # s) = Suc (strlen s)"

definition memset :: "bmem \<Rightarrow> uint \<Rightarrow> int \<Rightarrow> uint \<Rightarrow> bmem" where
  "memset m dst c n = stosb (unat n) m dst (of_int c)"

text \<open>\<open>strchr\<close>: the suffix that starts with the character, if the string has it.\<close>

fun strchr :: "u8 list \<Rightarrow> u8 \<Rightarrow> u8 list option" where
  "strchr [] c = None"
| "strchr (x # s) c = (if x = c then Some (x # s) else strchr s c)"

text \<open>\<open>gets\<close>: at most \<open>max - 1\<close> bytes, up to and including the first end of line.\<close>

fun gets_loop :: "nat \<Rightarrow> u8 list uprog" where
  "gets_loop 0 = Done []"
| "gets_loop (Suc k) = ubind (uread 0 1) (\<lambda>(cc, bs).
     if cc < 1 then Done []
     else case bs of [] \<Rightarrow> Faults ''gets''
     | c # _ \<Rightarrow> if c = 10 \<or> c = 13 then Done [c] else ubind (gets_loop k) (\<lambda>r. Done (c # r)))"

definition gets :: "int \<Rightarrow> u8 list uprog" where
  "gets mx = gets_loop (nat (mx - 1))"

definition stat :: "u8 list \<Rightarrow> (int \<times> stat option) uprog" where
  "stat n = ubind (sys (Open n 0)) (\<lambda>fd.
     if fd < 0 then Done (- 1, None)
     else ubind (sysr (Fstat fd)) (\<lambda>r. uthen (sys0 (Close fd)) (Done (sr_val r, Some (sr_stat r)))))"

fun atoi_loop :: "u8 list \<Rightarrow> uint \<Rightarrow> uint" where
  "atoi_loop [] n = n"
| "atoi_loop (c # s) n = (if 48 \<le> c \<and> c \<le> 57 then atoi_loop s (n * 10 + ucast c - 48) else n)"

definition atoi :: "u8 list \<Rightarrow> uint" where
  "atoi s = atoi_loop s 0"

definition memmove :: "bmem \<Rightarrow> uint \<Rightarrow> uint \<Rightarrow> int \<Rightarrow> bmem" where
  "memmove m dst src n = move_up (nat n) m dst src"

section \<open>printf.c\<close>

definition putc :: "int \<Rightarrow> u8 \<Rightarrow> unit uprog" where
  "putc fd c = sys0 (Write fd [c])"

fun putcs :: "int \<Rightarrow> u8 list \<Rightarrow> unit uprog" where
  "putcs fd [] = Done ()"
| "putcs fd (c # cs) = uthen (putc fd c) (putcs fd cs)"

definition digits :: "u8 list" where
  "digits = codes ''0123456789ABCDEF''"

text \<open>The loop that fills \<open>buf\<close>, least significant digit first.\<close>

fun print_digits :: "nat \<Rightarrow> nat \<Rightarrow> u8 list" where
  "print_digits base x =
     (if base < 2 \<or> x < base then [digits ! (x mod base)] else digits ! (x mod base) # print_digits base (x div base))"

declare print_digits.simps [simp del]

definition print_buf :: "uint \<Rightarrow> nat \<Rightarrow> bool \<Rightarrow> u8 list" where
  "print_buf xx base sg = (let neg = sg \<and> sint xx < 0 in
     print_digits base (unat (if neg then - xx else xx)) @ (if neg then [45] else []))"

definition printint :: "int \<Rightarrow> uint \<Rightarrow> nat \<Rightarrow> bool \<Rightarrow> unit uprog" where
  "printint fd xx base sg = putcs fd (rev (print_buf xx base sg))"

datatype uarg = UInt uint | UStr "u8 list option"

fun printf_loop :: "int \<Rightarrow> u8 list \<Rightarrow> uarg list \<Rightarrow> bool \<Rightarrow> unit uprog" where
  "printf_loop fd [] ap state = Done ()"
| "printf_loop fd (c # cs) ap False =
     (if c = 37 then printf_loop fd cs ap True else uthen (putc fd c) (printf_loop fd cs ap False))"
| "printf_loop fd (c # cs) ap True =
     (if c = 100 then (case ap of UInt w # as \<Rightarrow> uthen (printint fd w 10 True) (printf_loop fd cs as False) | _ \<Rightarrow> Faults ''printf'')
      else if c = 120 \<or> c = 112 then
        (case ap of UInt w # as \<Rightarrow> uthen (printint fd w 16 False) (printf_loop fd cs as False) | _ \<Rightarrow> Faults ''printf'')
      else if c = 115 then
        (case ap of UStr s # as \<Rightarrow> uthen (putcs fd (case s of None \<Rightarrow> codes ''(null)'' | Some x \<Rightarrow> x)) (printf_loop fd cs as False)
         | _ \<Rightarrow> Faults ''printf'')
      else if c = 99 then (case ap of UInt w # as \<Rightarrow> uthen (putc fd (ucast w)) (printf_loop fd cs as False) | _ \<Rightarrow> Faults ''printf'')
      else if c = 37 then uthen (putc fd c) (printf_loop fd cs ap False)
      else uthen (putc fd 37) (uthen (putc fd c) (printf_loop fd cs ap False)))"

definition printf :: "int \<Rightarrow> string \<Rightarrow> uarg list \<Rightarrow> unit uprog" where
  "printf fd fmt as = printf_loop fd (codes fmt) as False"

end
