(* ===== verification/User_Tools.thy ===== *)
theory User_Tools
  imports User_Prog
begin

text \<open>
  The programs of the user level other than the shell: \<open>cat\<close>, \<open>echo\<close>, \<open>grep\<close>, \<open>init\<close>, \<open>kill\<close>, \<open>ln\<close>, \<open>ls\<close>, \<open>mkdir\<close>,
  \<open>rm\<close>, \<open>wc\<close>, \<open>ps\<close>, \<open>date\<close>, \<open>timem\<close>, \<open>zombie\<close>, \<open>stressfs\<close>, \<open>forktest\<close> and \<open>testSched\<close>. A \<open>main\<close> takes its arguments
  without \<open>argv[0]\<close>. A loop over the results of \<open>read\<close> or \<open>wait\<close> runs as long as the kernel answers; its first
  argument bounds the number of rounds, and the properties say how many rounds are enough. The properties are those of
  the pattern matcher and of the line buffering of \<open>grep\<close>.
\<close>

section \<open>cat, echo, kill, ln, mkdir, rm\<close>

text \<open>The common loop: open each argument, use it and close it; the first failure ends the program.\<close>

fun cat_loop :: "nat \<Rightarrow> int \<Rightarrow> int uprog" where
  "cat_loop 0 fd = Bounded"
| "cat_loop (Suc k) fd = ubind (uread fd 512) (\<lambda>(n, bs).
     if n > 0 then uthen (sys0 (Write 1 bs)) (cat_loop k fd) else Done n)"

definition cat :: "nat \<Rightarrow> int \<Rightarrow> unit uprog" where
  "cat k fd = ubind (cat_loop k fd) (\<lambda>n. if n < 0 then useq [printf 1 ''cat: read error\<newline>'' []] Exits else Done ())"

fun cat_main :: "nat \<Rightarrow> u8 list list \<Rightarrow> unit uprog" where
  "cat_main k [] = uthen (cat k 0) Exits"
| "cat_main k as = useq (map (\<lambda>a. ubind (sys (Open a 0)) (\<lambda>fd.
     if fd < 0 then useq [printf 1 ''cat: cannot open %s\<newline>'' [UStr (Some a)]] Exits
     else useq [cat k fd, sys0 (Close fd)] (Done ()))) as) Exits"

fun echo_main :: "u8 list list \<Rightarrow> unit uprog" where
  "echo_main [] = Exits"
| "echo_main (a # as) = uthen (printf 1 ''%s%s'' [UStr (Some a), UStr (Some (if as \<noteq> [] then [32] else [10]))]) (echo_main as)"

definition kill_main :: "u8 list list \<Rightarrow> unit uprog" where
  "kill_main as = (if as = [] then useq [printf 2 ''usage: kill pid...\<newline>'' []] Exits
     else useq (map (\<lambda>a. sys0 (KillCall (sint (atoi a)))) as) Exits)"

definition ln_main :: "u8 list list \<Rightarrow> unit uprog" where
  "ln_main as = (case as of
     [old, new] \<Rightarrow> ubind (sys (Link old new)) (\<lambda>r.
       if r < 0 then useq [printf 2 ''link %s %s: failed\<newline>'' [UStr (Some old), UStr (Some new)]] Exits else Exits)
   | _ \<Rightarrow> useq [printf 2 ''Usage: ln old new\<newline>'' []] Exits)"

fun each_until :: "(u8 list \<Rightarrow> sysreq) \<Rightarrow> string \<Rightarrow> u8 list list \<Rightarrow> unit uprog" where
  "each_until f msg [] = Exits"
| "each_until f msg (a # as) = ubind (sys (f a)) (\<lambda>r.
     if r < 0 then useq [printf 2 msg [UStr (Some a)]] Exits else each_until f msg as)"

definition mkdir_main :: "u8 list list \<Rightarrow> unit uprog" where
  "mkdir_main as = (if as = [] then useq [printf 2 ''Usage: mkdir files...\<newline>'' []] Exits
     else each_until Mkdir ''mkdir: %s failed to create\<newline>'' as)"

definition rm_main :: "u8 list list \<Rightarrow> unit uprog" where
  "rm_main as = (if as = [] then useq [printf 2 ''Usage: rm files...\<newline>'' []] Exits
     else each_until Unlink ''rm: %s failed to delete\<newline>'' as)"

section \<open>wc\<close>

record wcount =
  wc_l :: uint
  wc_w :: uint
  wc_c :: uint
  wc_inword :: bool

definition wc_byte :: "u8 \<Rightarrow> wcount \<Rightarrow> wcount" where
  "wc_byte b x = (let x = x\<lparr>wc_c := wc_c x + 1\<rparr>;
                      x = (if b = 10 then x\<lparr>wc_l := wc_l x + 1\<rparr> else x) in
     if strchr (codes '' '' @ [13, 9, 10, 11]) b \<noteq> None then x\<lparr>wc_inword := False\<rparr>
     else if \<not> wc_inword x then x\<lparr>wc_w := wc_w x + 1, wc_inword := True\<rparr>
     else x)"

fun wc_loop :: "nat \<Rightarrow> int \<Rightarrow> wcount \<Rightarrow> (int \<times> wcount) uprog" where
  "wc_loop 0 fd x = Bounded"
| "wc_loop (Suc k) fd x = ubind (uread fd 512) (\<lambda>(n, bs). if n > 0 then wc_loop k fd (fold wc_byte bs x) else Done (n, x))"

definition wc :: "nat \<Rightarrow> int \<Rightarrow> u8 list \<Rightarrow> unit uprog" where
  "wc k fd name = ubind (wc_loop k fd \<lparr>wc_l = 0, wc_w = 0, wc_c = 0, wc_inword = False\<rparr>) (\<lambda>(n, x).
     if n < 0 then useq [printf 1 ''wc: read error\<newline>'' []] Exits
     else printf 1 ''%d %d %d %s\<newline>'' [UInt (wc_l x), UInt (wc_w x), UInt (wc_c x), UStr (Some name)])"

fun wc_main :: "nat \<Rightarrow> u8 list list \<Rightarrow> unit uprog" where
  "wc_main k [] = uthen (wc k 0 []) Exits"
| "wc_main k as = useq (map (\<lambda>a. ubind (sys (Open a 0)) (\<lambda>fd.
     if fd < 0 then useq [printf 1 ''wc: cannot open %s\<newline>'' [UStr (Some a)]] Exits
     else useq [wc k fd a, sys0 (Close fd)] (Done ()))) as) Exits"

section \<open>grep\<close>

text \<open>The matcher. A pattern and a text end at their NUL.\<close>

function (sequential) matchhere :: "u8 list \<Rightarrow> u8 list \<Rightarrow> bool"
  and matchstar :: "u8 \<Rightarrow> u8 list \<Rightarrow> u8 list \<Rightarrow> bool" where
  "matchhere [] tx = True"
| "matchhere (c # re) tx =
     (if re \<noteq> [] \<and> hd re = 42 then matchstar c (tl re) tx
      else if c = 36 \<and> re = [] then tx = []
      else if tx \<noteq> [] \<and> (c = 46 \<or> c = hd tx) then matchhere re (tl tx)
      else False)"
| "matchstar c re tx =
     (if matchhere re tx then True
      else if tx \<noteq> [] \<and> (hd tx = c \<or> c = 46) then matchstar c re (tl tx)
      else False)"
  by pat_completeness auto
termination
  by (relation "measures [\<lambda>x. case x of Inl (re, t) \<Rightarrow> length re | Inr (c, re, t) \<Rightarrow> length re,
      \<lambda>x. case x of Inl (re, t) \<Rightarrow> 2 * length t | Inr (c, re, t) \<Rightarrow> 2 * length t + 1]") auto

declare matchhere.simps [simp del] matchstar.simps [simp del]

fun match_from :: "u8 list \<Rightarrow> u8 list \<Rightarrow> bool" where
  "match_from re [] = matchhere re []"
| "match_from re (t # ts) = (matchhere re (t # ts) \<or> match_from re ts)"

definition match :: "u8 list \<Rightarrow> u8 list \<Rightarrow> bool" where
  "match re tx = (if re \<noteq> [] \<and> hd re = 94 then matchhere (tl re) tx else match_from re tx)"

text \<open>The inner loop of \<open>grep\<close>: the lines written and the bytes left from \<open>p\<close> on. \<open>strchr\<close> stops at a NUL.\<close>

function grep_lines :: "u8 list \<Rightarrow> u8 list \<Rightarrow> u8 list list \<times> u8 list" where
  "grep_lines pat p = (let l = takeWhile (\<lambda>c. c \<noteq> 10 \<and> c \<noteq> 0) p; q = drop (length l) p in
     if q \<noteq> [] \<and> hd q = 10 then (let (ls, r) = grep_lines pat (tl q) in (if match pat l then (l @ [10]) # ls else ls, r))
     else ([], p))"
  by pat_completeness auto
termination by (relation "measure (\<lambda>(pat, p). length p)") (auto simp: Let_def)

declare grep_lines.simps [simp del]

fun grep_loop :: "nat \<Rightarrow> u8 list \<Rightarrow> int \<Rightarrow> u8 list \<Rightarrow> unit uprog" where
  "grep_loop 0 pat fd kept = Bounded"
| "grep_loop (Suc k) pat fd kept = ubind (uread fd (1024 - length kept - 1)) (\<lambda>(n, bs).
     if n > 0 then
       let b = kept @ bs; (ls, p) = grep_lines pat b in
       useq (map (\<lambda>l. sys0 (Write 1 l)) ls) (grep_loop k pat fd (if length p = length b then [] else p))
     else Done ())"

definition grep :: "nat \<Rightarrow> u8 list \<Rightarrow> int \<Rightarrow> unit uprog" where
  "grep k pat fd = grep_loop k pat fd []"

fun grep_main :: "nat \<Rightarrow> u8 list list \<Rightarrow> unit uprog" where
  "grep_main k [] = useq [printf 2 ''usage: grep pattern [file ...]\<newline>'' []] Exits"
| "grep_main k [pat] = uthen (grep k pat 0) Exits"
| "grep_main k (pat # as) = useq (map (\<lambda>a. ubind (sys (Open a 0)) (\<lambda>fd.
     if fd < 0 then useq [printf 1 ''grep: cannot open %s\<newline>'' [UStr (Some a)]] Exits
     else useq [grep k pat fd, sys0 (Close fd)] (Done ()))) as) Exits"

section \<open>ls\<close>

text \<open>The last element of the path, blank-padded to \<open>DIRSIZ\<close>.\<close>

definition fmtname :: "u8 list \<Rightarrow> u8 list" where
  "fmtname path = (let p = rev (takeWhile (\<lambda>c. c \<noteq> 47) (rev path)) in
     if strlen p \<ge> DIRSIZ then p else p @ replicate (DIRSIZ - strlen p) 32)"

definition ls_line :: "u8 list \<Rightarrow> stat \<Rightarrow> unit uprog" where
  "ls_line path st = printf 1 ''%s %d %d %d\<newline>'' [UStr (Some (fmtname path)), UInt (scast (st_type st)), UInt (st_ino st), UInt (st_size st)]"

fun ls_loop :: "nat \<Rightarrow> int \<Rightarrow> u8 list \<Rightarrow> unit uprog" where
  "ls_loop 0 fd path = Bounded"
| "ls_loop (Suc k) fd path = ubind (uread fd 16) (\<lambda>(n, de).
     if n \<noteq> 16 then Done ()
     else if de_inum de = 0 then ls_loop k fd path
     else let buf = path @ [47] @ takeWhile (\<lambda>c. c \<noteq> 0) (de_name de) in
       ubind (stat buf) (\<lambda>(r, st). case st of
           Some st \<Rightarrow> if r < 0 then uthen (printf 1 ''ls: cannot stat %s\<newline>'' [UStr (Some buf)]) (ls_loop k fd path)
                     else uthen (ls_line buf st) (ls_loop k fd path)
         | None \<Rightarrow> uthen (printf 1 ''ls: cannot stat %s\<newline>'' [UStr (Some buf)]) (ls_loop k fd path)))"

definition ls :: "nat \<Rightarrow> u8 list \<Rightarrow> unit uprog" where
  "ls k path = ubind (sys (Open path 0)) (\<lambda>fd.
     if fd < 0 then printf 2 ''ls: cannot open %s\<newline>'' [UStr (Some path)]
     else ubind (sysr (Fstat fd)) (\<lambda>r.
       if sr_val r < 0 then useq [printf 2 ''ls: cannot stat %s\<newline>'' [UStr (Some path)], sys0 (Close fd)] (Done ())
       else let st = sr_stat r in
         useq [if st_type st = T_FILE then ls_line path st
               else if st_type st = T_DIR then
                 (if strlen path + 1 + DIRSIZ + 1 > 512 then printf 1 ''ls: path too long\<newline>'' [] else ls_loop k fd path)
               else Done (),
               sys0 (Close fd)] (Done ())))"

definition ls_main :: "nat \<Rightarrow> u8 list list \<Rightarrow> unit uprog" where
  "ls_main k as = (if as = [] then useq [ls k [46]] Exits else useq (map (ls k) as) Exits)"

section \<open>ps and date\<close>

text \<open>\<open>__FILE__\<close> and \<open>__LINE__\<close> of the message are \<open>ps.c\<close> and 24. A table that \<open>getprocs\<close> reports longer than it is
  makes the loop read past its end.\<close>

definition printTableEntry :: "uproc \<Rightarrow> unit uprog" where
  "printTableEntry t = printf 2
     ''pid: %d, priority: %d, name: %s\<newline>      uid: %d  gid: %d   ppid: %d  state: %s  size: %d\<newline>''
     [UInt (of_int (u_pid t)), UInt (of_int (u_priority t)), UStr (Some (u_name t)), UInt (of_int (u_uid t)),
      UInt (of_int (u_gid t)), UInt (of_int (u_ppid t)), UStr (Some (codes (u_state t))), UInt (u_size t)]"

definition ps_main :: "unit uprog" where
  "ps_main = ubind (sysr (Getprocs 10)) (\<lambda>r.
     if sr_val r < 0 then useq [printf 2 ''Error: getprocs call failed. %s at line %d\<newline>'' [UStr (Some (codes ''ps.c'')), UInt 24]] Exits
     else if nat (sr_val r) > length (sr_procs r) then Faults ''ps''
     else useq (map printTableEntry (take (nat (sr_val r)) (sr_procs r))) Exits)"

definition date_main :: "unit uprog" where
  "date_main = ubind (sys Getpid) (\<lambda>pid. ubind (sys Getgid) (\<lambda>gid. ubind (sys Getuid) (\<lambda>uid. ubind (sys Getppid) (\<lambda>ppid.
     uthen (printf 2 ''PID:%d  GID:%d  UID:%d PPID:%d '' [UInt (of_int pid), UInt (of_int gid), UInt (of_int uid), UInt (of_int ppid)])
     (ubind (sys Date) (\<lambda>e.
       if e \<noteq> 0 then useq [printf 2 ''date failed\<newline>'' []] Exits
       else ubind (sysr Date) (\<lambda>x. let r = sr_date x in
         useq [printf 1 ''UTC Time (h:m:s): %d:%d:%d : UTC Date (m/d/y): %d/%d/%d''
           [UInt (rd_hour r), UInt (rd_minute r), UInt (rd_second r), UInt (rd_month r), UInt (rd_day r), UInt (rd_year r)]] Exits)))))))"

section \<open>timem\<close>

text \<open>
  The array \<open>p\<close> has 20 elements; the terminating null pointer of 20 arguments is stored behind it. When \<open>fork\<close> fails the
  second date is not set.
\<close>

definition date_seconds :: "rtcdate \<Rightarrow> uint" where
  "date_seconds r = rd_hour r * 3600 + rd_minute r * 60 + rd_second r"

definition timem_child :: "u8 list list \<Rightarrow> unit uprog" where
  "timem_child as = (if length as \<ge> 20 then Faults ''p''
     else case as of [] \<Rightarrow> Faults ''p''
     | a # _ \<Rightarrow> ubind (sys (Exec a as)) (\<lambda>status.
         if status \<noteq> 0 then useq [printf 2 ''exec '%s' failed'' [UStr (Some a)]] Exits else Exits))"

definition timem_main :: "u8 list \<Rightarrow> u8 list list \<Rightarrow> unit uprog" where
  "timem_main argv0 as = ubind (sysr Date) (\<lambda>d1.
     if as = [] then useq [printf 2 (''minimum one command after 'timem'' @ [CHR 0x27]) []] Exits
     else if length as + 1 > 20 + 1 then useq [printf 2 ''Hit maximum commands.\<newline>'' []] Exits
     else ubind (sys Fork) (\<lambda>pid.
       if pid < 0 then uthen (printf 2 '''%s' has failed.\<newline>'' [UStr (Some argv0)]) (Faults ''r2'')
       else if pid > 0 then uthen (sys0 Wait) (ubind (sysr Date) (\<lambda>d2.
         useq [printf 2 ''\<newline>Time: %d seconds\<newline>'' [UInt (date_seconds (sr_date d2) - date_seconds (sr_date d1))]] Exits))
       else timem_child as))"

section \<open>init and the test programs\<close>

fun init_wait :: "nat \<Rightarrow> int \<Rightarrow> unit uprog" where
  "init_wait 0 pid = Bounded"
| "init_wait (Suc k) pid = ubind (sys Wait) (\<lambda>wpid.
     if wpid \<ge> 0 \<and> wpid \<noteq> pid then uthen (printf 1 ''zombie!\<newline>'' []) (init_wait k pid) else Done ())"

fun init_loop :: "nat \<Rightarrow> nat \<Rightarrow> unit uprog" where
  "init_loop k 0 = Bounded"
| "init_loop k (Suc j) = uthen (printf 1 ''init: starting sh\<newline>'' []) (ubind (sys Fork) (\<lambda>pid.
     if pid < 0 then useq [printf 1 ''init: fork failed\<newline>'' []] Exits
     else if pid = 0 then useq [sys0 (Exec (codes ''sh'') [codes ''sh'']), printf 1 ''init: exec sh failed\<newline>'' []] Exits
     else uthen (init_wait k pid) (init_loop k j)))"

definition init_main :: "nat \<Rightarrow> nat \<Rightarrow> unit uprog" where
  "init_main k j = ubind (sys (Open (codes ''console'') O_RDWR)) (\<lambda>fd.
     useq [if fd < 0 then useq [sys0 (Mknod (codes ''console'') 1 1), sys0 (Open (codes ''console'') O_RDWR)] (Done ()) else Done (),
           sys0 (Dup 0), sys0 (Dup 0)] (init_loop k j))"

definition zombie_main :: "unit uprog" where
  "zombie_main = ubind (sys Fork) (\<lambda>r. useq [if r > 0 then sys0 (SleepCall 5) else Done ()] Exits)"

text \<open>These programs are placeholders: their calls are tried out through the built-in commands of the shell.\<close>

definition getuid_main :: "unit uprog" where
  "getuid_main = Exits"

definition getgid_main :: "unit uprog" where
  "getgid_main = Exits"

definition getppid_main :: "unit uprog" where
  "getppid_main = Exits"

definition setuid_main :: "unit uprog" where
  "setuid_main = Exits"

definition setgid_main :: "unit uprog" where
  "setgid_main = Exits"

text \<open>\<open>stressfs\<close>: the loop of forks gives each process its number.\<close>

fun stress_fork :: "nat \<Rightarrow> nat \<Rightarrow> nat uprog" where
  "stress_fork i 0 = Done i"
| "stress_fork i (Suc j) = ubind (sys Fork) (\<lambda>r. if r > 0 then Done i else stress_fork (Suc i) j)"

definition stressfs_main :: "unit uprog" where
  "stressfs_main = uthen (printf 1 ''stressfs starting\<newline>'' []) (ubind (stress_fork 0 4) (\<lambda>i.
     let path = codes ''stressfs'' @ [48 + of_nat i] in
     uthen (printf 1 ''write %d\<newline>'' [UInt (of_nat i)]) (ubind (sys (Open path (or O_CREATE O_RDWR))) (\<lambda>fd.
     useq (replicate 20 (sys0 (Write fd (replicate 512 97))) @ [sys0 (Close fd), printf 1 ''read\<newline>'' []])
     (ubind (sys (Open path 0)) (\<lambda>fd.
     useq (replicate 20 (sys0 (Read fd 512)) @ [sys0 (Close fd), sys0 Wait]) Exits))))))"

text \<open>\<open>forktest\<close> has a \<open>printf\<close> of its own, one \<open>write\<close> of the format.\<close>

definition fork_print :: "int \<Rightarrow> string \<Rightarrow> unit uprog" where
  "fork_print fd s = sys0 (Write fd (codes s))"

fun fork_all :: "nat \<Rightarrow> nat \<Rightarrow> nat uprog" where
  "fork_all n 0 = Done n"
| "fork_all n (Suc j) = ubind (sys Fork) (\<lambda>pid. if pid < 0 then Done n else if pid = 0 then Exits else fork_all (Suc n) j)"

fun wait_all :: "nat \<Rightarrow> unit uprog" where
  "wait_all 0 = Done ()"
| "wait_all (Suc n) = ubind (sys Wait) (\<lambda>r. if r < 0 then useq [fork_print 1 ''wait stopped early\<newline>''] Exits else wait_all n)"

definition forktest :: "unit uprog" where
  "forktest = uthen (fork_print 1 ''fork test\<newline>'') (ubind (fork_all 0 1000) (\<lambda>n.
     if n = 1000 then useq [fork_print 1 ''fork claimed to work N times!\<newline>''] Exits
     else uthen (wait_all n) (ubind (sys Wait) (\<lambda>r.
       if r \<noteq> - 1 then useq [fork_print 1 ''wait got too many\<newline>''] Exits
       else fork_print 1 ''fork test OK\<newline>''))))"

definition forktest_main :: "unit uprog" where
  "forktest_main = uthen forktest Exits"

text \<open>\<open>testSched\<close>: the counting between two changes of priority makes no system call; the first argument of \<open>count_on\<close>
  bounds the number of changes.\<close>

fun count_on :: "nat \<Rightarrow> int \<Rightarrow> int \<Rightarrow> unit uprog" where
  "count_on 0 j p = Bounded"
| "count_on (Suc k) j p = (let p = (p + 1) mod 3 in
     useq [sys0 (Setpriority j p), printf 1 ''%d: new prio %d\<newline>'' [UInt (of_int j), UInt (of_int p)]] (count_on k j p))"

definition countForever :: "nat \<Rightarrow> int \<Rightarrow> unit uprog" where
  "countForever k p = ubind (sys Getpid) (\<lambda>j. let p = p mod 3 in
     useq [sys0 (Setpriority j p), printf 1 ''%d: start prio %d\<newline>'' [UInt (of_int j), UInt (of_int p)]] (count_on k j p))"

fun sched_children :: "nat \<Rightarrow> nat list \<Rightarrow> unit uprog" where
  "sched_children k [] = Done ()"
| "sched_children k (i # is) = ubind (sys Fork) (\<lambda>rc. uthen (if rc = 0 then countForever k (int i) else Done ()) (sched_children k is))"

definition testSched_main :: "nat \<Rightarrow> unit uprog" where
  "testSched_main k = useq [sched_children k [0..<10], countForever k 1] Exits"

section \<open>What a pattern means\<close>

text \<open>The reference: a pattern is a list of characters, each starred or not, perhaps anchored at the end. \<open>words_of\<close> is
  the set of strings the list stands for.\<close>

definition chr_ok :: "u8 \<Rightarrow> u8 \<Rightarrow> bool" where
  "chr_ok c t \<longleftrightarrow> c = 46 \<or> c = t"

fun re_items :: "u8 list \<Rightarrow> (u8 \<times> bool) list \<times> bool" where
  "re_items [] = ([], False)"
| "re_items [c] = (if c = 36 then ([], True) else ([(c, False)], False))"
| "re_items (c # d # re) = (if d = 42 then (case re_items re of (is, e) \<Rightarrow> ((c, True) # is, e))
     else (case re_items (d # re) of (is, e) \<Rightarrow> ((c, False) # is, e)))"

fun words_of :: "(u8 \<times> bool) list \<Rightarrow> u8 list set" where
  "words_of [] = {[]}"
| "words_of ((c, False) # is) = {t # w | t w. chr_ok c t \<and> w \<in> words_of is}"
| "words_of ((c, True) # is) = {u @ w | u w. (\<forall>t \<in> set u. chr_ok c t) \<and> w \<in> words_of is}"

definition prefix_matches :: "u8 list \<Rightarrow> u8 list \<Rightarrow> bool" where
  "prefix_matches re tx \<longleftrightarrow> (\<exists>b d. tx = b @ d \<and> b \<in> words_of (fst (re_items re)) \<and> (snd (re_items re) \<longrightarrow> d = []))"

lemma prefixI: "b \<in> words_of (fst (re_items re)) \<Longrightarrow> (snd (re_items re) \<Longrightarrow> d = []) \<Longrightarrow> prefix_matches re (b @ d)"
  by (auto simp: prefix_matches_def)

lemma prefixE:
  assumes "prefix_matches re tx"
  obtains b d where "tx = b @ d" "b \<in> words_of (fst (re_items re))" "snd (re_items re) \<Longrightarrow> d = []"
  using assms unfolding prefix_matches_def by blast

text \<open>The equations the routines follow.\<close>

lemma re_items_star [simp]:
  "fst (re_items (c # 42 # re)) = (c, True) # fst (re_items re)" "snd (re_items (c # 42 # re)) = snd (re_items re)"
  by (auto split: prod.splits)

lemma prefix_Nil: "prefix_matches [] tx"
  by (simp add: prefix_matches_def)

lemma prefix_star_Nil: "prefix_matches (c # 42 # re) [] \<longleftrightarrow> prefix_matches re []"
  by (simp add: prefix_matches_def del: re_items.simps)

lemma prefix_star_Cons:
  "prefix_matches (c # 42 # re) (t # ts) \<longleftrightarrow> prefix_matches re (t # ts) \<or> (chr_ok c t \<and> prefix_matches (c # 42 # re) ts)"
proof
  assume "prefix_matches (c # 42 # re) (t # ts)"
  then obtain b d where b: "t # ts = b @ d" "b \<in> words_of (fst (re_items (c # 42 # re)))" "snd (re_items re) \<Longrightarrow> d = []"
    by (elim prefixE) (simp del: re_items.simps)
  then obtain u w where u: "b = u @ w" "\<forall>x \<in> set u. chr_ok c x" "w \<in> words_of (fst (re_items re))"
    by (auto simp del: re_items.simps)
  show "prefix_matches re (t # ts) \<or> (chr_ok c t \<and> prefix_matches (c # 42 # re) ts)"
  proof (cases u)
    case Nil
    then have "prefix_matches re (w @ d)" using u b by (intro prefixI)
    then show ?thesis using Nil b u by simp
  next
    case (Cons x u')
    then have "prefix_matches (c # 42 # re) ((u' @ w) @ d)" using u b by (intro prefixI) (auto simp del: re_items.simps)
    then show ?thesis using Cons b u by simp
  qed
next
  assume "prefix_matches re (t # ts) \<or> (chr_ok c t \<and> prefix_matches (c # 42 # re) ts)"
  then show "prefix_matches (c # 42 # re) (t # ts)"
  proof
    assume "prefix_matches re (t # ts)"
    then obtain b d where b: "t # ts = b @ d" "b \<in> words_of (fst (re_items re))" "snd (re_items re) \<Longrightarrow> d = []" by (elim prefixE) blast
    then have "b \<in> words_of (fst (re_items (c # 42 # re)))" 
      unfolding re_items_star words_of.simps mem_Collect_eq by (intro exI [of _ "[]"] exI [of _ b]) simp
    then show ?thesis using b by (metis prefixI re_items_star(2))
  next
    assume a: "chr_ok c t \<and> prefix_matches (c # 42 # re) ts"
    then obtain b d where b: "ts = b @ d" "b \<in> words_of (fst (re_items (c # 42 # re)))" "snd (re_items re) \<Longrightarrow> d = []"
      by (elim conjE prefixE) (simp del: re_items.simps)
    then obtain u w where "b = u @ w" "\<forall>x \<in> set u. chr_ok c x" "w \<in> words_of (fst (re_items re))"
      by (auto simp del: re_items.simps)
    then have "t # b = (t # u) @ w" "\<forall>x \<in> set (t # u). chr_ok c x" "w \<in> words_of (fst (re_items re))" using a by simp_all
    then have "t # b \<in> words_of (fst (re_items (c # 42 # re)))" 
      unfolding re_items_star words_of.simps mem_Collect_eq by (intro exI [of _ "t # u"] exI [of _ w] conjI)
    then have "prefix_matches (c # 42 # re) ((t # b) @ d)" using b(3) by (intro prefixI) (simp_all del: re_items.simps)
    then show ?thesis using b(1) by simp
  qed
qed

lemma prefix_Cons:
  assumes "re = [] \<or> hd re \<noteq> 42" "\<not> (c = 36 \<and> re = [])"
  shows "prefix_matches (c # re) tx \<longleftrightarrow> tx \<noteq> [] \<and> chr_ok c (hd tx) \<and> prefix_matches re (tl tx)"
proof -
  have eq: "fst (re_items (c # re)) = (c, False) # fst (re_items re)" "snd (re_items (c # re)) = snd (re_items re)"
    using assms by (cases re; auto split: prod.splits)+
  show ?thesis
  proof
    assume "prefix_matches (c # re) tx"
    then obtain b d where b: "tx = b @ d" "b \<in> words_of (fst (re_items (c # re)))" "snd (re_items re) \<Longrightarrow> d = []"
      by (elim prefixE) (simp add: eq)
    then obtain t w where "b = t # w" "chr_ok c t" "w \<in> words_of (fst (re_items re))" by (auto simp: eq)
    then show "tx \<noteq> [] \<and> chr_ok c (hd tx) \<and> prefix_matches re (tl tx)" using b by (auto intro: prefixI)
  next
    assume a: "tx \<noteq> [] \<and> chr_ok c (hd tx) \<and> prefix_matches re (tl tx)"
    then obtain b d where b: "tl tx = b @ d" "b \<in> words_of (fst (re_items re))" "snd (re_items re) \<Longrightarrow> d = []" by (elim conjE prefixE) blast
    have "prefix_matches (c # re) ((hd tx # b) @ d)" using a b by (intro prefixI) (auto simp: eq)
    then show "prefix_matches (c # re) tx" using a b by (cases tx) auto
  qed
qed

lemma match_routines:
  "matchhere re tx \<longleftrightarrow> prefix_matches re tx"
  "matchstar c re tx \<longleftrightarrow> prefix_matches (c # 42 # re) tx"
proof (induction re tx and c re tx rule: matchhere_matchstar.induct)
  case (2 c re tx)
  consider "re \<noteq> [] \<and> hd re = 42" | "c = 36" "re = []" | "re = [] \<or> hd re \<noteq> 42" "\<not> (c = 36 \<and> re = [])" by blast
  then show ?case
  proof cases
    case 1
    then have "c # re = c # 42 # tl re" by (cases re) auto
    with 1 2(1) show ?thesis by (simp add: matchhere.simps)
  next
    case 2
    then show ?thesis by (auto simp: matchhere.simps prefix_matches_def)
  next
    case 3
    then show ?thesis using 2(2) prefix_Cons [OF 3] by (auto simp: matchhere.simps(2) [of c re tx] chr_ok_def)
  qed
next
  case (3 c re tx)
  then show ?case unfolding matchstar.simps [of c re tx]
    by (cases tx) (auto simp: prefix_star_Nil prefix_star_Cons chr_ok_def)
qed (simp add: matchhere.simps prefix_Nil)

lemma match_from_iff: "match_from re tx \<longleftrightarrow> (\<exists>a d. tx = a @ d \<and> prefix_matches re d)"
proof (induction tx)
  case (Cons t ts)
  then show ?case by (auto simp: match_routines Cons_eq_append_conv)
qed (simp add: match_routines)

section \<open>Properties\<close>

text \<open>C30. The matcher of \<open>grep\<close> computes the language of the pattern: without a leading \<open>^\<close> it says yes exactly when some
  part of the text is a word of the pattern, with it when an initial part is, and the part reaches the end of the text
  when the pattern ends with \<open>$\<close>. The routines are total functions: they end on every pattern and text.\<close>

theorem grep_match_correct:
  "match re tx \<longleftrightarrow> (let anchored = (re \<noteq> [] \<and> hd re = 94); (is, at_end) = re_items (if anchored then tl re else re) in
     \<exists>a b d. tx = a @ b @ d \<and> b \<in> words_of is \<and> (anchored \<longrightarrow> a = []) \<and> (at_end \<longrightarrow> d = []))"
  by (cases "re \<noteq> [] \<and> hd re = 94")
    (auto simp: match_def match_routines match_from_iff prefix_matches_def Let_def split: prod.splits)

theorem grep_match_correct_witness:
  "match [94, 97, 42, 36] [97, 97] \<and> [97, 97] \<in> words_of [(97, True)]"
  using grep_match_correct [of "[94, 97, 42, 36]" "[97, 97]"] by (simp add: chr_ok_def)

section \<open>The lines grep sees\<close>

text \<open>An environment for programs that read one file and write: \<open>io_in\<close> holds what the successive reads deliver.\<close>

record uio =
  io_in :: "u8 list list"
  io_out :: "(int \<times> u8 list) list"

definition answer :: "int \<Rightarrow> u8 list \<Rightarrow> sysret" where
  "answer v bs = \<lparr>sr_val = v, sr_buf = bs, sr_fds = (0, 0), sr_stat = \<lparr>st_type = 0, st_dev = 0, st_ino = 0, st_nlink = 0, st_size = 0\<rparr>,
     sr_date = \<lparr>rd_second = 0, rd_minute = 0, rd_hour = 0, rd_day = 0, rd_month = 0, rd_year = 0\<rparr>, sr_procs = []\<rparr>"

fun chunk_io :: "sysreq \<Rightarrow> uio \<Rightarrow> sysret \<times> uio" where
  "chunk_io (Read fd n) w = (case io_in w of
     [] \<Rightarrow> (answer 0 [], w)
   | c # cs \<Rightarrow> (answer (int (length (take n c))) (take n c), w\<lparr>io_in := (if length c \<le> n then cs else drop n c # cs)\<rparr>))"
| "chunk_io (Write fd bs) w = (answer (int (length bs)) [], w\<lparr>io_out := io_out w @ [(fd, bs)]\<rparr>)"
| "chunk_io r w = (answer (- 1) [], w)"

text \<open>The reference: the complete lines of a text, without their newlines, and what follows the last newline.\<close>

fun text_lines :: "u8 list \<Rightarrow> u8 list list \<times> u8 list" where
  "text_lines [] = ([], [])"
| "text_lines (c # cs) = (case text_lines cs of (ys, r) \<Rightarrow>
     if c = 10 then ([] # ys, r) else case ys of [] \<Rightarrow> ([], c # r) | l # ys' \<Rightarrow> ((c # l) # ys', r))"

lemma text_lines_line: "10 \<notin> set l \<Longrightarrow> text_lines (l @ 10 # r) = (l # fst (text_lines r), snd (text_lines r))"
  by (induction l) (auto split: prod.splits)

lemma text_lines_part: "10 \<notin> set r \<Longrightarrow> text_lines r = ([], r)"
  by (induction r) auto

lemma text_lines_append: "text_lines (a @ b) = (fst (text_lines a) @ fst (text_lines (snd (text_lines a) @ b)), snd (text_lines (snd (text_lines a) @ b)))"
  by (induction a) (auto split: prod.splits list.splits)

lemma text_lines_rest:
  "10 \<notin> set (snd (text_lines p))" "set (snd (text_lines p)) \<subseteq> set p" "length (snd (text_lines p)) \<le> length p"
  by (induction p) (auto split: prod.splits list.splits simp: text_lines_part)

lemma text_lines_newline: "10 \<in> set c \<Longrightarrow> fst (text_lines c) \<noteq> [] \<and> length (snd (text_lines c)) < length c"
proof (induction c)
  case (Cons b c)
  show ?case
  proof (cases "b = 10")
    case True
    then show ?thesis using text_lines_rest(3) [of c] by (auto split: prod.splits)
  next
    case False
    then show ?thesis using Cons by (auto split: prod.splits list.splits)
  qed
qed simp

lemma text_lines_rest_le: "10 \<in> set c \<Longrightarrow> fst (text_lines (a @ c)) \<noteq> [] \<and> length (snd (text_lines (a @ c))) < length c"
  by (induction a) (auto split: prod.splits list.splits dest: text_lines_newline)

lemma grep_lines_ref:
  "0 \<notin> set p \<Longrightarrow> grep_lines pat p = (map (\<lambda>l. l @ [10]) (filter (match pat) (fst (text_lines p))), snd (text_lines p))"
proof (induction pat p rule: grep_lines.induct)
  case (1 pat p)
  define l where "l = takeWhile (\<lambda>c. c \<noteq> 10 \<and> c \<noteq> 0) p"
  define q where "q = drop (length l) p"
  have l10: "10 \<notin> set l" by (auto simp: l_def dest: set_takeWhileD)
  have qd: "q = dropWhile (\<lambda>c. c \<noteq> 10 \<and> c \<noteq> 0) p" unfolding q_def l_def by (rule dropWhile_eq_drop [symmetric])
  have p: "p = l @ q" unfolding qd l_def by simp
  have q_hd: "hd q = 10" if "q \<noteq> []"
  proof -
    have "hd q = 10 \<or> hd q = 0" using hd_dropWhile [of "\<lambda>c. c \<noteq> 10 \<and> c \<noteq> 0" p] that unfolding qd by blast
    moreover have "hd q \<in> set p" using that p by auto
    ultimately show ?thesis using 1(2) by metis
  qed
  show ?case
  proof (cases q)
    case Nil
    then have "10 \<notin> set p" using p l10 by simp
    moreover have "length p \<le> length l" using Nil p by simp
    ultimately show ?thesis by (simp add: grep_lines.simps [of pat p] Let_def l_def [symmetric] text_lines_part)
  next
    case (Cons c r)
    then have "c = 10" "p = l @ 10 # r" using q_hd p by auto
    have "grep_lines pat r = (map (\<lambda>l. l @ [10]) (filter (match pat) (fst (text_lines r))), snd (text_lines r))"
      using 1(1) [OF l_def q_def] 1(2) Cons \<open>c = 10\<close> \<open>p = l @ 10 # r\<close> by simp
    moreover have "grep_lines pat p = (let (ys, r) = grep_lines pat r in (if match pat l then (l @ [10]) # ys else ys, r))"
      unfolding grep_lines.simps [of pat p] l_def [symmetric] Let_def q_def [symmetric] using Cons \<open>c = 10\<close> by simp
    moreover have "text_lines p = (l # fst (text_lines r), snd (text_lines r))"
      unfolding \<open>p = l @ 10 # r\<close> by (rule text_lines_line [OF l10])
    ultimately show ?thesis by simp
  qed
qed

lemma run_writes:
  "run chunk_io (useq (map (\<lambda>l. sys0 (Write 1 (f l))) ys) q) w = run chunk_io q (w\<lparr>io_out := io_out w @ map (\<lambda>l. (1, f l)) ys\<rparr>)"
  by (induction ys arbitrary: w) (simp_all add: uthen_def sys0_def)

declare grep_loop.simps [simp del]

lemma run_grep_chunk:
  assumes "io_in w = c # cs" "c \<noteq> []" "length kept + length c < 1024" "0 \<notin> set kept" "0 \<notin> set c"
  shows "run chunk_io (grep_loop (Suc k) pat fd kept) w =
    (let (ys, p) = text_lines (kept @ c) in
     run chunk_io (grep_loop k pat fd (if length p = length (kept @ c) then [] else p))
       (w\<lparr>io_in := cs, io_out := io_out w @ map (\<lambda>l. (1, l @ [10])) (filter (match pat) ys)\<rparr>))"
proof -
  have "grep_lines pat (kept @ c) = (map (\<lambda>l. l @ [10]) (filter (match pat) (fst (text_lines (kept @ c)))), snd (text_lines (kept @ c)))"
    using assms by (intro grep_lines_ref) simp
  moreover have "length c \<le> 1024 - length kept - 1" using assms(3) by simp
  ultimately show ?thesis using assms
    by (simp add: grep_loop.simps uread_def answer_def run_writes Let_def split_beta comp_def)
qed

lemma run_grep_end: "io_in w = [] \<Longrightarrow> run chunk_io (grep_loop (Suc k) pat fd kept) w = (Returns (), w)"
  by (simp add: grep_loop.simps uread_def answer_def)

lemma run_grep_lines:
  assumes "\<forall>c \<in> set cs. 10 \<in> set c \<and> 0 \<notin> set c \<and> length c \<le> 511" "10 \<notin> set kept" "0 \<notin> set kept" "length kept \<le> 511"
    "length cs < k" "io_in w = cs"
  shows "run chunk_io (grep_loop k pat fd kept) w = (Returns (), w\<lparr>io_in := [],
    io_out := io_out w @ map (\<lambda>l. (1, l @ [10])) (filter (match pat) (fst (text_lines (kept @ concat cs))))\<rparr>)"
  using assms
proof (induction cs arbitrary: kept k w)
  case Nil
  then obtain j where "k = Suc j" by (cases k) auto
  moreover have "w\<lparr>io_in := []\<rparr> = w" using Nil by simp
  ultimately show ?case using Nil by (simp add: run_grep_end text_lines_part)
next
  case (Cons c cs)
  obtain j where k: "k = Suc j" "length cs < j" using Cons.prems by (cases k) auto
  define p where "p = snd (text_lines (kept @ c))"
  have c: "10 \<in> set c" "0 \<notin> set c" "length c \<le> 511" "c \<noteq> []" using Cons.prems by auto
  have p: "length p < length c" "10 \<notin> set p" "0 \<notin> set p"
    using text_lines_rest_le [OF c(1), of kept] text_lines_rest [of "kept @ c"] Cons.prems(3) c(2) by (auto simp: p_def)
  have "run chunk_io (grep_loop k pat fd kept) w = run chunk_io (grep_loop j pat fd p)
      (w\<lparr>io_in := cs, io_out := io_out w @ map (\<lambda>l. (1, l @ [10])) (filter (match pat) (fst (text_lines (kept @ c))))\<rparr>)"
    using run_grep_chunk [of w c cs kept j pat fd] Cons.prems c p by (simp add: k Let_def split_beta p_def)
  moreover define w' where "w' = w\<lparr>io_in := cs, io_out := io_out w @ map (\<lambda>l. (1, l @ [10])) (filter (match pat) (fst (text_lines (kept @ c))))\<rparr>"
  ultimately have "run chunk_io (grep_loop k pat fd kept) w = run chunk_io (grep_loop j pat fd p) w'" by simp
  also have "\<dots> = (Returns (), w'\<lparr>io_in := [],
      io_out := io_out w' @ map (\<lambda>l. (1, l @ [10])) (filter (match pat) (fst (text_lines (p @ concat cs))))\<rparr>)"
    using Cons.prems p c k by (intro Cons.IH) (auto simp: w'_def)
  finally have eq: "run chunk_io (grep_loop k pat fd kept) w = (Returns (), w'\<lparr>io_in := [],
      io_out := io_out w' @ map (\<lambda>l. (1, l @ [10])) (filter (match pat) (fst (text_lines (p @ concat cs))))\<rparr>)" .
  have "text_lines ((kept @ c) @ concat cs) = (fst (text_lines (kept @ c)) @ fst (text_lines (p @ concat cs)), snd (text_lines (p @ concat cs)))"
    unfolding p_def by (rule text_lines_append)
  then have "fst (text_lines (kept @ concat (c # cs))) = fst (text_lines (kept @ c)) @ fst (text_lines (p @ concat cs))"
by simp
  then show ?case unfolding eq by (simp add: w'_def)
qed

text \<open>C31. \<open>grep\<close> on input that arrives in pieces of at most 511 bytes without NULs, each with a newline in it: after the last
  read it has written exactly the lines of the input that match, in order, each with its newline, whatever the cuts between
  the pieces. It reads once more than there are pieces.\<close>

theorem grep_prints_matching_lines:
  assumes "\<forall>c \<in> set cs. 10 \<in> set c \<and> 0 \<notin> set c \<and> length c \<le> 511"
  shows "run chunk_io (grep (Suc (length cs)) pat fd) \<lparr>io_in = cs, io_out = []\<rparr> =
    (Returns (), \<lparr>io_in = [], io_out = map (\<lambda>l. (1, l @ [10])) (filter (match pat) (fst (text_lines (concat cs))))\<rparr>)"
  using run_grep_lines [OF assms, of "[]" "Suc (length cs)"] by (simp add: grep_def)

theorem grep_prints_matching_lines_witness:
  "run chunk_io (grep 3 [98] 0) \<lparr>io_in = [[97, 10, 97], [98, 10]], io_out = []\<rparr> =
     (Returns (), \<lparr>io_in = [], io_out = [(1, [97, 98, 10])]\<rparr>)"
proof -
  have m: "match [98] [97, 98]" "\<not> match [98] [97]" by (simp_all add: match_def matchhere.simps)
  show ?thesis using grep_prints_matching_lines [of "[[97, 10, 97], [98, 10]]" "[98]" 0] m by (simp add: numeral_3_eq_3)
qed

text \<open>C32. A line that arrives in two pieces, the first of which has no newline, is judged by its second piece alone: \<open>grep\<close>
  forgets the first piece, as it takes a buffer without a newline for a line that does not fit. A pipe delivers such pieces
  whenever the writer is slower than the reader.\<close>

theorem grep_forgets_partial_line:
  assumes "x \<noteq> []" "length x < 1024" "length y < 1023" "0 \<notin> set x" "0 \<notin> set y" "10 \<notin> set x" "10 \<notin> set y"
  shows "run chunk_io (grep 3 pat fd) \<lparr>io_in = [x, y @ [10]], io_out = []\<rparr> =
    (Returns (), \<lparr>io_in = [], io_out = (if match pat y then [(1, y @ [10])] else [])\<rparr>)"
proof -
  let ?w = "\<lparr>io_in = [x, y @ [10]], io_out = []\<rparr>" and ?w1 = "\<lparr>io_in = [y @ [10]], io_out = []\<rparr>"
  let ?w2 = "\<lparr>io_in = [], io_out = (if match pat y then [(1, y @ [10])] else [])\<rparr>"
  have "run chunk_io (grep_loop (Suc (Suc (Suc 0))) pat fd []) ?w = run chunk_io (grep_loop (Suc (Suc 0)) pat fd []) ?w1"
    using assms run_grep_chunk [of ?w x "[y @ [10]]" "[]" "Suc (Suc 0)" pat fd] by (simp add: text_lines_part)
  also have "\<dots> = run chunk_io (grep_loop (Suc 0) pat fd []) ?w2"
    using assms run_grep_chunk [of ?w1 "y @ [10]" "[]" "[]" "Suc 0" pat fd] by (simp add: text_lines_line)
  also have "\<dots> = (Returns (), ?w2)" by (rule run_grep_end) simp
  finally show ?thesis by (simp add: grep_def eval_nat_numeral)
qed

theorem grep_forgets_partial_line_witness:
  "match [97, 98] [97, 98] \<and>
     run chunk_io (grep 3 [97, 98] 0) \<lparr>io_in = [[97], [98, 10]], io_out = []\<rparr> = (Returns (), \<lparr>io_in = [], io_out = []\<rparr>)"
  using grep_forgets_partial_line [of "[97]" "[98]" "[97, 98]" 0] by (simp add: match_def matchhere.simps)

end
