(* ===== verification/Shell.thy ===== *)
theory Shell
  imports User_Tools "HOL-Library.Sublist"
begin

text \<open>
  The shell, \<open>sh.c\<close>: the tokens, the recursive-descent parser, the termination of the strings, the execution of a
  command and the built-in commands. A pointer into the line is the rest of the line from there on, up to the NUL; the end
  \<open>es\<close> is the empty rest. The commands are trees with the start and end pointers of their strings, as in the
  structures of the code, and \<open>nulterminate\<close> writes the NULs into the line. \<open>malloc\<close> in the constructors is
  taken to succeed. The mutually recursive routines carry a bound on their nesting; \<open>parsecmd\<close> starts with one that the
  length of the line makes sufficient.
\<close>

section \<open>Commands\<close>

type_synonym rest = "u8 list"

datatype cmd =
    EXEC "(rest \<times> rest) list"
  | REDIR cmd rest rest uint int
  | PIPE cmd cmd
  | LIST cmd cmd
  | BACK cmd

definition MAXARGS :: nat where
  "MAXARGS = 10"

section \<open>Tokens\<close>

definition whitespace :: "u8 list" where
  "whitespace = [32, 9, 13, 10, 11]"

definition symbols :: "u8 list" where
  "symbols = codes ''<|>&;()''"

definition is_ws :: "u8 \<Rightarrow> bool" where
  "is_ws c \<longleftrightarrow> strchr whitespace c \<noteq> None"

definition is_sym :: "u8 \<Rightarrow> bool" where
  "is_sym c \<longleftrightarrow> strchr symbols c \<noteq> None"

text \<open>The kind of the token, its start, its end, and the start of the next.\<close>

definition gettoken :: "rest \<Rightarrow> u8 \<times> rest \<times> rest \<times> rest" where
  "gettoken ps = (let q = dropWhile is_ws ps;
       (ret, eq) = (case q of
           [] \<Rightarrow> (0, [])
         | c # s \<Rightarrow>
             if c = 124 \<or> c = 40 \<or> c = 41 \<or> c = 59 \<or> c = 38 \<or> c = 60 then (c, s)
             else if c = 62 then (case s of d # s' \<Rightarrow> if d = 62 then (43, s') else (c, s) | [] \<Rightarrow> (c, s))
             else (97, dropWhile (\<lambda>c. \<not> is_ws c \<and> \<not> is_sym c) q))
     in (ret, q, eq, dropWhile is_ws eq))"

definition peek :: "rest \<Rightarrow> u8 list \<Rightarrow> rest \<times> bool" where
  "peek ps toks = (let s = dropWhile is_ws ps in (s, case s of [] \<Rightarrow> False | c # _ \<Rightarrow> strchr toks c \<noteq> None))"

lemma strchr_None_iff: "strchr s c = None \<longleftrightarrow> c \<notin> set s"
  by (induction s) auto

lemma is_ws_iff: "is_ws c \<longleftrightarrow> c \<in> {32, 9, 13, 10, 11}"
  by (auto simp: is_ws_def strchr_None_iff whitespace_def)

lemma is_sym_iff: "is_sym c \<longleftrightarrow> c \<in> {60, 124, 62, 38, 59, 40, 41}"
  by (auto simp: is_sym_def strchr_None_iff symbols_def codes_def)

lemma dropWhile_length: "length (dropWhile P xs) \<le> length xs"
  by (induction xs) auto

lemma gettoken_shorter:
  assumes "gettoken ps = (t, q, eq, s)"
  shows "length s \<le> length ps \<and> (t \<noteq> 0 \<longrightarrow> length s < length ps)"
proof (cases "dropWhile is_ws ps")
  case Nil
  then show ?thesis using assms by (simp add: gettoken_def Let_def Nil)
next
  case (Cons c r)
  have c: "\<not> is_ws c" using hd_dropWhile [of is_ws ps] Cons by simp
  have r: "length r < length ps" using dropWhile_length [of is_ws ps] Cons by simp
  have "length eq \<le> length r" using assms c
    by (auto simp: gettoken_def Let_def Cons is_sym_iff dropWhile_length split: if_splits list.splits)
  moreover have "length s \<le> length eq" using assms dropWhile_length [of is_ws eq]
    by (auto simp: gettoken_def Let_def split: prod.splits)
  ultimately show ?thesis using r by linarith
qed

lemma peek_shorter: "peek ps toks = (s, b) \<Longrightarrow> length s \<le> length ps"
  by (auto simp: peek_def Let_def dropWhile_length)

lemma gettoken_dropWhile: "gettoken (dropWhile is_ws ps) = gettoken ps"
  by (simp add: gettoken_def)

lemma peek_gettoken:
  "peek ps toks = (s, True) \<Longrightarrow> gettoken s = (t, q, eq, s') \<Longrightarrow> length s' < length ps"
proof -
  assume p: "peek ps toks = (s, True)" and g: "gettoken s = (t, q, eq, s')"
  obtain c r where cr: "dropWhile is_ws ps = c # r" "s = c # r" using p by (auto simp: peek_def Let_def split: list.splits)
  then have "\<not> is_ws c" using hd_dropWhile [of is_ws ps] by simp
  then have "length s' < length s" using g gettoken_shorter [OF g] cr
    by (auto simp: gettoken_def Let_def is_sym_iff split: if_splits list.splits)
  then show ?thesis using peek_shorter [OF p] by simp
qed

section \<open>The parser\<close>

text \<open>A routine returns its result and the new position, or stops: \<open>panic\<close> prints a message and exits.\<close>

type_synonym 'a parse = "stop + 'a"

definition pbind :: "'a parse \<Rightarrow> ('a \<Rightarrow> 'b parse) \<Rightarrow> 'b parse" where
  "pbind p f = (case p of Inl e \<Rightarrow> Inl e | Inr x \<Rightarrow> f x)"

lemma pbind_simps [simp]: "pbind (Inl e) f = Inl e" "pbind (Inr x) f = f x"
  by (simp_all add: pbind_def)

text \<open>\<open>parseredirs\<close>: the redirections in the order in which they wrap the command.\<close>

function redirs :: "rest \<Rightarrow> ((rest \<times> rest \<times> uint \<times> int) list \<times> rest) parse" where
  "redirs ps = (case peek ps [60, 62] of (s, found) \<Rightarrow>
     if \<not> found then Inr ([], s)
     else case gettoken s of (tok, _, _, s1) \<Rightarrow>
       case gettoken s1 of (t, q, eq, s2) \<Rightarrow>
         if t \<noteq> 97 then Inl (Panic ''missing file for redirection'')
         else pbind (redirs s2) (\<lambda>(rs, s3).
           Inr (if tok = 60 then (q, eq, 0, 0) # rs
                else if tok = 62 \<or> tok = 43 then (q, eq, or O_WRONLY O_CREATE, 1) # rs
                else rs, s3)))"
  by pat_completeness auto
termination
proof (relation "measure length", goal_cases)
  case 2
  then show ?case by (auto dest!: sym [of "(_, _)"]) (fastforce dest: peek_gettoken gettoken_shorter)
qed auto

declare redirs.simps [simp del]

definition redircmds :: "cmd \<Rightarrow> (rest \<times> rest \<times> uint \<times> int) list \<Rightarrow> cmd" where
  "redircmds c rs = foldl (\<lambda>c (q, eq, mode, fd). REDIR c q eq mode fd) c rs"

definition parseredirs :: "cmd \<Rightarrow> rest \<Rightarrow> (cmd \<times> rest) parse" where
  "parseredirs c ps = pbind (redirs ps) (\<lambda>(rs, s). Inr (redircmds c rs, s))"

lemma redirs_shorter: "redirs ps = Inr (rs, s) \<Longrightarrow> length s \<le> length ps"
proof (induction ps arbitrary: rs s rule: redirs.induct)
  case (1 ps)
  obtain s0 found where p: "peek ps [60, 62] = (s0, found)" by fastforce
  obtain tok q0 e0 s1 where g: "gettoken s0 = (tok, q0, e0, s1)" by (metis prod_cases4)
  obtain t q eq s2 where g': "gettoken s1 = (t, q, eq, s2)" by (metis prod_cases4)
  show ?case
  proof (cases "found \<and> t = 97")
    case True
    then obtain rs' s3 where r: "redirs s2 = Inr (rs', s3)" using 1(2)
      by (cases "redirs s2") (auto simp: redirs.simps [of ps] p g g')
    then have "length s3 \<le> length s2" using 1(1) [OF p [symmetric] _ g [symmetric] refl refl g' [symmetric] refl refl] True by simp
    moreover have "s = s3" using 1(2) r True by (auto simp: redirs.simps [of ps] p g g' split: if_splits)
    ultimately show ?thesis using peek_shorter [OF p] gettoken_shorter [OF g] gettoken_shorter [OF g'] by auto
  next
    case False
    then show ?thesis using 1(2) peek_shorter [OF p] by (auto simp: redirs.simps [of ps] p g g' split: if_splits)
  qed
qed

lemma args_step:
  "peek ps toks = (s, b) \<Longrightarrow> gettoken s = (t, q, eq, s1) \<Longrightarrow> t \<noteq> 0 \<Longrightarrow> redirs s1 = Inr (rs, s2) \<Longrightarrow> length s2 < length ps"
  using peek_shorter [of ps toks s b] gettoken_shorter [of s t q eq s1] redirs_shorter [of s1 rs s2] by linarith

lemma pbind_cong [fundef_cong]: "p = p' \<Longrightarrow> (\<And>x. p' = Inr x \<Longrightarrow> f x = g x) \<Longrightarrow> pbind p f = pbind p' g"
  by (cases p') (auto simp: pbind_def)

text \<open>The loop of \<open>parseexec\<close> over the arguments: their pointers and the redirections between them.\<close>

function args_loop :: "nat \<Rightarrow> rest \<Rightarrow> ((rest \<times> rest) list \<times> (rest \<times> rest \<times> uint \<times> int) list \<times> rest) parse" where
  "args_loop argc ps = (case peek ps [124, 41, 38, 59] of (s, found) \<Rightarrow>
     if found then Inr ([], [], s)
     else case gettoken s of (tok, q, eq, s1) \<Rightarrow>
       if tok = 0 then Inr ([], [], s1)
       else if tok \<noteq> 97 then Inl (Panic ''syntax'')
       else if argc + 1 \<ge> MAXARGS then Inl (Panic ''too many args'')
       else pbind (redirs s1) (\<lambda>(rs, s2). pbind (args_loop (argc + 1) s2) (\<lambda>(as, rs', s3). Inr ((q, eq) # as, rs @ rs', s3))))"
  by pat_completeness auto
termination
proof (relation "measure (\<lambda>(argc, ps). length ps)", goal_cases)
  case 2
  then show ?case
    by (auto dest!: sym [of "(_, _)"]) (erule (1) args_step, simp_all)
qed auto

declare args_loop.simps [simp del]

function back_loop :: "cmd \<Rightarrow> rest \<Rightarrow> cmd \<times> rest" where
  "back_loop c ps = (case peek ps [38] of (s, found) \<Rightarrow>
     if found then case gettoken s of (_, _, _, s1) \<Rightarrow> back_loop (BACK c) s1 else (c, s))"
  by pat_completeness auto
termination
proof (relation "measure (\<lambda>(c, ps). length ps)", goal_cases)
  case 2
  then show ?case by simp (metis peek_gettoken)
qed auto

declare back_loop.simps [simp del]

fun parseline :: "nat \<Rightarrow> rest \<Rightarrow> (cmd \<times> rest) parse"
  and parsepipe :: "nat \<Rightarrow> rest \<Rightarrow> (cmd \<times> rest) parse"
  and parseexec :: "nat \<Rightarrow> rest \<Rightarrow> (cmd \<times> rest) parse"
  and parseblock :: "nat \<Rightarrow> rest \<Rightarrow> (cmd \<times> rest) parse" where
  "parseline 0 ps = Inl (Hang ''parseline'')"
| "parseline (Suc n) ps = pbind (parsepipe n ps) (\<lambda>(c, s). case back_loop c s of (c, s) \<Rightarrow>
     case peek s [59] of (s, found) \<Rightarrow>
       if found then case gettoken s of (_, _, _, s) \<Rightarrow> pbind (parseline n s) (\<lambda>(r, s). Inr (LIST c r, s))
       else Inr (c, s))"
| "parsepipe 0 ps = Inl (Hang ''parsepipe'')"
| "parsepipe (Suc n) ps = pbind (parseexec n ps) (\<lambda>(c, s). case peek s [124] of (s, found) \<Rightarrow>
     if found then case gettoken s of (_, _, _, s) \<Rightarrow> pbind (parsepipe n s) (\<lambda>(r, s). Inr (PIPE c r, s))
     else Inr (c, s))"
| "parseexec 0 ps = Inl (Hang ''parseexec'')"
| "parseexec (Suc n) ps = (case peek ps [40] of (s, found) \<Rightarrow>
     if found then parseblock n s
     else pbind (redirs s) (\<lambda>(rs, s). pbind (args_loop 0 s) (\<lambda>(as, rs', s). Inr (redircmds (EXEC as) (rs @ rs'), s))))"
| "parseblock 0 ps = Inl (Hang ''parseblock'')"
| "parseblock (Suc n) ps = (case peek ps [40] of (s, found) \<Rightarrow>
     if \<not> found then Inl (Panic ''parseblock'')
     else case gettoken s of (_, _, _, s) \<Rightarrow> pbind (parseline n s) (\<lambda>(c, s). case peek s [41] of (s, found) \<Rightarrow>
       if \<not> found then Inl (Panic ''syntax - missing )'')
       else case gettoken s of (_, _, _, s) \<Rightarrow> parseredirs c s))"

declare parseline.simps [simp del] parsepipe.simps [simp del] parseexec.simps [simp del] parseblock.simps [simp del]

text \<open>\<open>nulterminate\<close> on the bytes of the line and its NUL.\<close>

definition cut_at :: "rest \<Rightarrow> u8 list \<Rightarrow> u8 list" where
  "cut_at eq line = line[length line - 1 - length eq := 0]"

primrec nulterminate :: "cmd \<Rightarrow> u8 list \<Rightarrow> u8 list" where
  "nulterminate (EXEC as) line = fold (\<lambda>(q, eq). cut_at eq) as line"
| "nulterminate (REDIR c q eq mode fd) line = cut_at eq (nulterminate c line)"
| "nulterminate (PIPE l r) line = nulterminate r (nulterminate l line)"
| "nulterminate (LIST l r) line = nulterminate r (nulterminate l line)"
| "nulterminate (BACK c) line = nulterminate c line"

definition parsecmd :: "u8 list \<Rightarrow> (cmd \<times> u8 list) parse" where
  "parsecmd s = pbind (parseline (4 * length s + 4) s) (\<lambda>(c, s'). case peek s' [] of (s', _) \<Rightarrow>
     if s' \<noteq> [] then Inl (Panic (''leftovers: '' @ chars s' @ ''\<newline>syntax'')) else Inr (c, nulterminate c (s @ [0])))"

section \<open>Running a command\<close>

text \<open>\<open>panic\<close> of the shell prints and exits; so does \<open>fork1\<close> when there is no process.\<close>

definition sh_panic :: "string \<Rightarrow> 'a uprog" where
  "sh_panic m = useq [printf 2 ''%s\<newline>'' [UStr (Some (codes m))]] Exits"

definition fork1 :: "int uprog" where
  "fork1 = ubind (sys Fork) (\<lambda>pid. if pid = - 1 then sh_panic ''fork'' else Done pid)"

text \<open>The string that a pointer into the line points at.\<close>

definition str_at :: "u8 list \<Rightarrow> rest \<Rightarrow> u8 list" where
  "str_at line q = takeWhile (\<lambda>c. c \<noteq> 0) (drop (length line - 1 - length q) line)"

primrec runcmd :: "u8 list \<Rightarrow> cmd \<Rightarrow> unit uprog" where
  "runcmd line (EXEC as) = (case as of [] \<Rightarrow> Exits
     | (q, _) # _ \<Rightarrow> useq [
         sys0 (Exec (str_at line q) (map (\<lambda>(q, _). str_at line q) as)),
         printf 2 ''exec %s failed\<newline>'' [UStr (Some (str_at line q))]] Exits)"
| "runcmd line (REDIR c q eq mode fd) = uthen (sys0 (Close fd)) (ubind (sys (Open (str_at line q) mode)) (\<lambda>r.
     if r < 0 then useq [printf 2 ''open %s failed\<newline>'' [UStr (Some (str_at line q))]] Exits
     else runcmd line c))"
| "runcmd line (LIST l r) = ubind fork1 (\<lambda>pid.
     if pid = 0 then runcmd line l else uthen (sys0 Wait) (runcmd line r))"
| "runcmd line (PIPE l r) = ubind (sysr PipeCall) (\<lambda>x. let (p0, p1) = sr_fds x in
     if sr_val x < 0 then sh_panic ''pipe''
     else ubind fork1 (\<lambda>pid.
       if pid = 0 then useq [sys0 (Close 1), sys0 (Dup p1), sys0 (Close p0), sys0 (Close p1)] (runcmd line l)
       else ubind fork1 (\<lambda>pid.
         if pid = 0 then useq [sys0 (Close 0), sys0 (Dup p0), sys0 (Close p0), sys0 (Close p1)] (runcmd line r)
         else useq [sys0 (Close p0), sys0 (Close p1), sys0 Wait, sys0 Wait] Exits)))"
| "runcmd line (BACK c) = ubind fork1 (\<lambda>pid. if pid = 0 then runcmd line c else Exits)"

definition getcmd :: "u8 list option uprog" where
  "getcmd = uthen (printf 2 ''$ '' []) (ubind (gets 100) (\<lambda>bs.
     let buf = takeWhile (\<lambda>c. c \<noteq> 0) bs in Done (if buf = [] then None else Some buf)))"

section \<open>Built-in commands and the main loop\<close>

fun strncmp :: "u8 list \<Rightarrow> u8 list \<Rightarrow> nat \<Rightarrow> int" where
  "strncmp p q 0 = 0"
| "strncmp p q (Suc n) = (case p of
     [] \<Rightarrow> - uint (chr0 q)
   | c # ps \<Rightarrow> if c = chr0 q then strncmp ps (tl q) n else uint c - uint (chr0 q))"

fun makeint_loop :: "u8 list \<Rightarrow> uint \<Rightarrow> uint" where
  "makeint_loop [] val = val"
| "makeint_loop (c # p) val = (if c \<ge> 48 \<and> c \<le> 57 then makeint_loop p (10 * val + (ucast c - 48)) else val)"

definition makeint :: "u8 list \<Rightarrow> uint" where
  "makeint p = makeint_loop p 0"

definition chomp :: "u8 list \<Rightarrow> u8 list" where
  "chomp p = dropWhile (\<lambda>c. strncmp [c] [32] 1 = 0) p"

definition setbuiltin :: "u8 list \<Rightarrow> int uprog" where
  "setbuiltin p = (let p = chomp (drop (strlen (codes ''_set'')) p) in
     if strncmp (codes ''uid'') p 3 = 0 then sys (Setuid (makeint (chomp (drop (strlen (codes ''uid'')) p))))
     else if strncmp (codes ''gid'') p 3 = 0 then sys (Setgid (makeint (chomp (drop (strlen (codes ''gid'')) p))))
     else uthen (printf 2 ''Invalid _set parameter\<newline>'' []) (Done (- 1)))"

definition getbuiltin :: "u8 list \<Rightarrow> int uprog" where
  "getbuiltin p = (let p = chomp (drop (strlen (codes ''_get'')) p) in
     if strncmp (codes ''uid'') p 3 = 0 then ubind (sys Getuid) (\<lambda>r. uthen (printf 2 ''%d\<newline>'' [UInt (of_int r)]) (Done 0))
     else if strncmp (codes ''gid'') p 3 = 0 then ubind (sys Getgid) (\<lambda>r. uthen (printf 2 ''%d\<newline>'' [UInt (of_int r)]) (Done 0))
     else uthen (printf 2 ''Invalid _get parameter\<newline>'' []) (Done (- 1)))"

definition fdt :: "(u8 list \<times> (u8 list \<Rightarrow> int uprog)) list" where
  "fdt = [(codes ''_set'', setbuiltin), (codes ''_get'', getbuiltin)]"

definition dobuiltin :: "u8 list \<Rightarrow> unit uprog" where
  "dobuiltin c = useq (map (\<lambda>(name, f). if strncmp c name (strlen name) = 0 then ubind (f c) (\<lambda>_. Done ()) else Done ()) fdt) (Done ())"

fun open_console :: "nat \<Rightarrow> unit uprog" where
  "open_console 0 = Bounded"
| "open_console (Suc k) = ubind (sys (Open (codes ''console'') O_RDWR)) (\<lambda>fd.
     if fd < 0 then Done () else if fd \<ge> 3 then sys0 (Close fd) else open_console k)"

definition run_line :: "u8 list \<Rightarrow> unit uprog" where
  "run_line buf =
     (if take 3 buf = codes ''cd '' then
        let dir = drop 3 (take (strlen buf - 1) buf) in
        ubind (sys (Chdir dir)) (\<lambda>r. if r < 0 then printf 2 ''cannot cd %s\<newline>'' [UStr (Some dir)] else Done ())
      else if hd buf = 95 then dobuiltin buf
      else ubind fork1 (\<lambda>pid. uthen
        (if pid = 0 then (case parsecmd buf of Inl (Panic m) \<Rightarrow> sh_panic m | Inl (Fault m) \<Rightarrow> Faults m | Inl (Hang m) \<Rightarrow> Bounded
           | Inr (c, line) \<Rightarrow> runcmd line c) else Done ())
        (sys0 Wait)))"

fun sh_loop :: "nat \<Rightarrow> unit uprog" where
  "sh_loop 0 = Bounded"
| "sh_loop (Suc k) = ubind getcmd (\<lambda>r. case r of None \<Rightarrow> Exits | Some buf \<Rightarrow> uthen (run_line buf) (sh_loop k))"

definition sh_main :: "nat \<Rightarrow> nat \<Rightarrow> unit uprog" where
  "sh_main j k = uthen (open_console j) (sh_loop k)"

section \<open>The parser ends\<close>

text \<open>\<open>ok_parse s p\<close>: \<open>p\<close> is a message or a result whose position is not before \<open>s\<close>.\<close>

definition ok_parse :: "rest \<Rightarrow> ('a \<times> rest) parse \<Rightarrow> bool" where
  "ok_parse s p \<longleftrightarrow> (case p of Inr (x, s') \<Rightarrow> length s' \<le> length s | Inl e \<Rightarrow> (\<exists>m. e = Panic m))"

lemma ok_parse_simps [simp]: "ok_parse s (Inr (x, s')) \<longleftrightarrow> length s' \<le> length s" "ok_parse s (Inl e) \<longleftrightarrow> (\<exists>m. e = Panic m)"
  by (simp_all add: ok_parse_def)

lemma ok_parse_bind:
  "ok_parse s p \<Longrightarrow> (\<And>x s'. p = Inr (x, s') \<Longrightarrow> length s' \<le> length s \<Longrightarrow> ok_parse s (f (x, s'))) \<Longrightarrow> ok_parse s (pbind p f)"
  by (cases p) auto

lemma ok_parse_mono: "ok_parse s p \<Longrightarrow> length s \<le> length t \<Longrightarrow> ok_parse t p"
  by (auto simp: ok_parse_def split: sum.splits prod.splits)

lemma ok_bind_mono:
  "ok_parse s' p \<Longrightarrow> length s' \<le> length s \<Longrightarrow> (\<And>x t. length t \<le> length s' \<Longrightarrow> ok_parse s (f (x, t))) \<Longrightarrow> ok_parse s (pbind p f)"
  by (cases p) auto

lemma redirs_ok: "ok_parse ps (redirs ps)"
proof (induction ps rule: redirs.induct)
  case (1 ps)
  obtain s0 found where p: "peek ps [60, 62] = (s0, found)" by fastforce
  obtain tok q0 e0 s1 where g: "gettoken s0 = (tok, q0, e0, s1)" by (metis prod_cases4)
  obtain t q eq s2 where g': "gettoken s1 = (t, q, eq, s2)" by (metis prod_cases4)
  have len: "length s0 \<le> length ps" "length s2 \<le> length ps"
    using peek_shorter [OF p] gettoken_shorter [OF g] gettoken_shorter [OF g'] by auto
  have "found \<Longrightarrow> t = 97 \<Longrightarrow> ok_parse ps (redirs s2)"
    using 1 [OF p [symmetric] _ g [symmetric] refl refl g' [symmetric] refl refl] len(2) by (auto intro: ok_parse_mono)
  then show ?case using len(1)
    by (auto simp: redirs.simps [of ps] p g g' intro!: ok_parse_bind)
qed

lemma args_loop_ok: "case args_loop argc ps of Inr (as, rs, s) \<Rightarrow> length s \<le> length ps | Inl e \<Rightarrow> (\<exists>m. e = Panic m)"
proof (induction argc ps rule: args_loop.induct)
  case (1 argc ps)
  obtain s found where p: "peek ps [124, 41, 38, 59] = (s, found)" by fastforce
  obtain tok q eq s1 where g: "gettoken s = (tok, q, eq, s1)" by (metis prod_cases4)
  have len: "length s \<le> length ps" "length s1 \<le> length ps" using peek_shorter [OF p] gettoken_shorter [OF g] by auto
  show ?case
  proof (cases "\<not> found \<and> tok = 97 \<and> argc + 1 < MAXARGS")
    case False
    then show ?thesis using len by (auto simp: args_loop.simps [of argc ps] p g)
  next
    case True
    show ?thesis
    proof (cases "redirs s1")
      case (Inl e)
      then show ?thesis using True redirs_ok [of s1] by (auto simp: args_loop.simps [of argc ps] p g)
    next
      case (Inr r)
      obtain rs s2 where r: "r = (rs, s2)" by fastforce
      then have "length s2 \<le> length ps" using redirs_ok [of s1] Inr len by simp
      moreover have "case args_loop (argc + 1) s2 of Inr (as, rs, s) \<Rightarrow> length s \<le> length s2 | Inl e \<Rightarrow> (\<exists>m. e = Panic m)"
        using 1 [OF p [symmetric] _ g [symmetric] refl refl _ _ _ Inr] True r by simp
      ultimately show ?thesis using True Inr r
        by (cases "args_loop (argc + 1) s2") (auto simp: args_loop.simps [of argc ps] p g)
    qed
  qed
qed

lemma back_loop_shorter: "back_loop c ps = (c', s) \<Longrightarrow> length s \<le> length ps"
proof (induction c ps rule: back_loop.induct)
  case (1 c ps)
  obtain s0 found where p: "peek ps [38] = (s0, found)" by fastforce
  obtain tok q0 e0 s1 where g: "gettoken s0 = (tok, q0, e0, s1)" by (metis prod_cases4)
  show ?case
  proof (cases found)
    case True
    then have "length s \<le> length s1"
      using 1(1) [OF p [symmetric] _ g [symmetric] refl refl] 1(2) by (simp add: back_loop.simps [of c ps] p g)
    then show ?thesis using peek_shorter [OF p] gettoken_shorter [OF g] by auto
  next
    case False
    then show ?thesis using 1(2) peek_shorter [OF p] by (simp add: back_loop.simps [of c ps] p)
  qed
qed

text \<open>One step of each routine, on positions where the routines it calls are fine.\<close>

lemma parseline_step:
  assumes "ok_parse s (parsepipe n s)" and IH: "\<And>t. length t < length s \<Longrightarrow> ok_parse t (parseline n t)"
  shows "ok_parse s (parseline (Suc n) s)"
  unfolding parseline.simps
proof (rule ok_parse_bind [OF assms(1)])
  fix c and s1 :: rest assume s1: "length s1 \<le> length s"
  obtain c2 s2 where b: "back_loop c s1 = (c2, s2)" by fastforce
  obtain s3 found where p: "peek s2 [59] = (s3, found)" by fastforce
  obtain t q eq s4 where g: "gettoken s3 = (t, q, eq, s4)" by (metis prod_cases4)
  have l3: "length s3 \<le> length s" using back_loop_shorter [OF b] peek_shorter [OF p] s1 by simp
  have "ok_parse s (pbind (parseline n s4) (\<lambda>(r, s). Inr (LIST c2 r, s)))" if found
  proof -
    have l4: "length s4 < length s" using peek_gettoken [OF _ g, of s2 "[59]"] p that back_loop_shorter [OF b] s1 by simp
    then show ?thesis by - (rule ok_bind_mono [OF IH], auto)
  qed
  then show "ok_parse s ((\<lambda>(c, s). case back_loop c s of (c, s) \<Rightarrow> case peek s [59] of (s, found) \<Rightarrow>
      if found then case gettoken s of (_, _, _, s) \<Rightarrow> pbind (parseline n s) (\<lambda>(r, s). Inr (LIST c r, s)) else Inr (c, s)) (c, s1))"
    using l3 by (simp add: b p g)
qed

lemma parsepipe_step:
  assumes "ok_parse s (parseexec n s)" and IH: "\<And>t. length t < length s \<Longrightarrow> ok_parse t (parsepipe n t)"
  shows "ok_parse s (parsepipe (Suc n) s)"
  unfolding parsepipe.simps
proof (rule ok_parse_bind [OF assms(1)])
  fix c and s1 :: rest assume s1: "length s1 \<le> length s"
  obtain s3 found where p: "peek s1 [124] = (s3, found)" by fastforce
  obtain t q eq s4 where g: "gettoken s3 = (t, q, eq, s4)" by (metis prod_cases4)
  have l3: "length s3 \<le> length s" using peek_shorter [OF p] s1 by simp
  have "ok_parse s (pbind (parsepipe n s4) (\<lambda>(r, s). Inr (PIPE c r, s)))" if found
  proof -
    have l4: "length s4 < length s" using peek_gettoken [OF _ g, of s1 "[124]"] p that s1 by simp
    then show ?thesis by - (rule ok_bind_mono [OF IH], auto)
  qed
  then show "ok_parse s ((\<lambda>(c, s). case peek s [124] of (s, found) \<Rightarrow>
      if found then case gettoken s of (_, _, _, s) \<Rightarrow> pbind (parsepipe n s) (\<lambda>(r, s). Inr (PIPE c r, s)) else Inr (c, s)) (c, s1))"
    using l3 by (simp add: p g)
qed

lemma parseexec_step:
  assumes "\<And>t. length t \<le> length s \<Longrightarrow> ok_parse t (parseblock n t)"
  shows "ok_parse s (parseexec (Suc n) s)"
proof -
  obtain s1 found where p: "peek s [40] = (s1, found)" by fastforce
  have l1: "length s1 \<le> length s" by (rule peek_shorter [OF p])
  have "ok_parse s (pbind (redirs s1) (\<lambda>(rs, s). pbind (args_loop 0 s) (\<lambda>(as, rs', s). Inr (redircmds (EXEC as) (rs @ rs'), s))))"
  proof (rule ok_bind_mono [OF redirs_ok l1])
    fix rs and s2 :: rest assume s2: "length s2 \<le> length s1"
    show "ok_parse s ((\<lambda>(rs, s). pbind (args_loop 0 s) (\<lambda>(as, rs', s). Inr (redircmds (EXEC as) (rs @ rs'), s))) (rs, s2))"
      using args_loop_ok [of s2 0] s2 l1 by (cases "args_loop 0 s2") auto
  qed
  then show ?thesis using ok_parse_mono [OF assms l1] l1 by (simp add: parseexec.simps p)
qed

lemma parseblock_step:
  assumes IH: "\<And>t. length t < length s \<Longrightarrow> ok_parse t (parseline n t)"
  shows "ok_parse s (parseblock (Suc n) s)"
proof -
  obtain s1 found where p: "peek s [40] = (s1, found)" by fastforce
  obtain t q eq s2 where g: "gettoken s1 = (t, q, eq, s2)" by (metis prod_cases4)
  have "ok_parse s (pbind (parseline n s2) (\<lambda>(c, s). case peek s [41] of (s, found) \<Rightarrow>
      if \<not> found then Inl (Panic ''syntax - missing )'') else case gettoken s of (_, _, _, s) \<Rightarrow> parseredirs c s))" if found
  proof -
    have l2: "length s2 < length s" using peek_gettoken [OF _ g, of s "[40]"] p that by simp
    show ?thesis
    proof (rule ok_bind_mono [OF IH [OF l2] less_imp_le [OF l2]])
      fix c and s3 :: rest assume s3: "length s3 \<le> length s2"
      obtain s4 found' where p': "peek s3 [41] = (s4, found')" by fastforce
      obtain t q eq s5 where g': "gettoken s4 = (t, q, eq, s5)" by (metis prod_cases4)
      have "length s5 \<le> length s" using peek_shorter [OF p'] gettoken_shorter [OF g'] s3 l2 by linarith
      then show "ok_parse s ((\<lambda>(c, s). case peek s [41] of (s, found) \<Rightarrow>
          if \<not> found then Inl (Panic ''syntax - missing )'') else case gettoken s of (_, _, _, s) \<Rightarrow> parseredirs c s) (c, s3))"
        by (simp add: p' g' parseredirs_def) (rule impI, rule ok_bind_mono [OF redirs_ok], auto)
    qed
  qed
  then show ?thesis by (simp add: parseblock.simps p g)
qed

lemma parser_ok:
  "(4 * length s + 4 \<le> n \<longrightarrow> ok_parse s (parseline n s)) \<and> (4 * length s + 3 \<le> n \<longrightarrow> ok_parse s (parsepipe n s))
   \<and> (4 * length s + 2 \<le> n \<longrightarrow> ok_parse s (parseexec n s)) \<and> (4 * length s + 1 \<le> n \<longrightarrow> ok_parse s (parseblock n s))"
proof (induction n arbitrary: s)
  case (Suc n)
  have "4 * length s + 4 \<le> Suc n \<longrightarrow> ok_parse s (parseline (Suc n) s)"
    "4 * length s + 3 \<le> Suc n \<longrightarrow> ok_parse s (parsepipe (Suc n) s)"
    "4 * length s + 2 \<le> Suc n \<longrightarrow> ok_parse s (parseexec (Suc n) s)"
    "4 * length s + 1 \<le> Suc n \<longrightarrow> ok_parse s (parseblock (Suc n) s)"
    by (auto intro!: parseline_step parsepipe_step parseexec_step parseblock_step simp: Suc)
  then show ?case by blast
qed simp

section \<open>What the parser returns\<close>

text \<open>\<open>word_at s q eq\<close>: a word of \<open>s\<close> starts at \<open>q\<close> and ends at \<open>eq\<close>.\<close>

definition plain :: "u8 \<Rightarrow> bool" where
  "plain c \<longleftrightarrow> \<not> is_ws c \<and> \<not> is_sym c"

definition word_at :: "rest \<Rightarrow> rest \<Rightarrow> rest \<Rightarrow> bool" where
  "word_at s q eq \<longleftrightarrow> suffix q s \<and> (\<exists>w. q = w @ eq \<and> w \<noteq> [] \<and> (\<forall>c \<in> set w. plain c)) \<and> (eq \<noteq> [] \<longrightarrow> \<not> plain (hd eq))"

primrec wf_cmd :: "rest \<Rightarrow> cmd \<Rightarrow> bool" where
  "wf_cmd s (EXEC as) \<longleftrightarrow> length as < MAXARGS \<and> (\<forall>(q, eq) \<in> set as. word_at s q eq)"
| "wf_cmd s (REDIR c q eq mode fd) \<longleftrightarrow> wf_cmd s c \<and> word_at s q eq \<and> (mode, fd) \<in> {(0, 0), (or O_WRONLY O_CREATE, 1)}"
| "wf_cmd s (PIPE l r) \<longleftrightarrow> wf_cmd s l \<and> wf_cmd s r"
| "wf_cmd s (LIST l r) \<longleftrightarrow> wf_cmd s l \<and> wf_cmd s r"
| "wf_cmd s (BACK c) \<longleftrightarrow> wf_cmd s c"

lemma word_at_suffix: "word_at s q eq \<Longrightarrow> suffix s t \<Longrightarrow> word_at t q eq"
  unfolding word_at_def by (metis suffix_order.trans)

lemma wf_cmd_suffix: "wf_cmd s c \<Longrightarrow> suffix s t \<Longrightarrow> wf_cmd t c"
  by (induction c) (auto intro: word_at_suffix)

lemma peek_suffix: "peek ps toks = (s, b) \<Longrightarrow> suffix s ps"
  by (auto simp: peek_def Let_def suffix_dropWhile)

lemma gettoken_cases:
  assumes "gettoken ps = (t, q, eq, s)"
  shows "q = dropWhile is_ws ps \<and> s = dropWhile is_ws eq \<and> (q = [] \<and> t = 0 \<and> eq = []
    \<or> (\<exists>c r. q = c # r \<and> (t \<noteq> 97 \<and> suffix eq r \<or> t = 97 \<and> plain c \<and> eq = dropWhile plain q)))"
proof -
  define q0 where "q0 = dropWhile is_ws ps"
  have dw: "dropWhile (\<lambda>c. \<not> is_ws c \<and> \<not> is_sym c) = dropWhile plain" by (simp add: plain_def [abs_def])
  note g = assms [unfolded gettoken_def, folded q0_def, unfolded dw]
  show ?thesis
  proof (cases q0)
    case Nil
    then show ?thesis using g by (simp add: q0_def [symmetric])
  next
    case (Cons c r)
    then have c: "\<not> is_ws c" using hd_dropWhile [of is_ws ps] by (simp add: q0_def)
    show ?thesis
    proof (cases r)
      case Nil
      then show ?thesis using g c Cons by (auto simp: q0_def [symmetric] Let_def plain_def is_sym_iff split: if_splits)
    next
      fix d r' assume "r = d # r'"
      then show ?thesis using g c Cons
        by (auto simp: q0_def [symmetric] Let_def plain_def is_sym_iff suffix_def split: if_splits)
    qed
  qed
qed

lemma gettoken_suffix: "gettoken ps = (t, q, eq, s) \<Longrightarrow> suffix s ps"
proof -
  assume g: "gettoken ps = (t, q, eq, s)"
  have "suffix eq q" using gettoken_cases [OF g] by (auto intro: suffix_ConsI suffix_dropWhile)
  then show ?thesis using gettoken_cases [OF g] by (metis suffix_dropWhile suffix_order.trans)
qed

lemma gettoken_word_at: "gettoken ps = (97, q, eq, s) \<Longrightarrow> word_at ps q eq"
proof -
  assume g: "gettoken ps = (97, q, eq, s)"
  obtain c r where q: "q = dropWhile is_ws ps" "q = c # r" "plain c" "eq = dropWhile plain q" using gettoken_cases [OF g] by auto
  have "q = takeWhile plain q @ eq" "takeWhile plain q \<noteq> []" using q(2-4) by simp_all
  moreover have "\<forall>x \<in> set (takeWhile plain q). plain x" by (auto dest: set_takeWhileD)
  moreover have "eq \<noteq> [] \<longrightarrow> \<not> plain (hd eq)" using q(4) hd_dropWhile [of plain q] by simp
  moreover have "suffix q ps" using q(1) suffix_dropWhile by simp
  ultimately show ?thesis unfolding word_at_def by blast
qed

definition good_redir :: "rest \<Rightarrow> rest \<times> rest \<times> uint \<times> int \<Rightarrow> bool" where
  "good_redir s = (\<lambda>(q, eq, mode, fd). word_at s q eq \<and> (mode, fd) \<in> {(0, 0), (or O_WRONLY O_CREATE, 1)})"

definition good_parse :: "rest \<Rightarrow> (cmd \<times> rest) parse \<Rightarrow> bool" where
  "good_parse s p \<longleftrightarrow> (\<forall>c s'. p = Inr (c, s') \<longrightarrow> wf_cmd s c \<and> suffix s' s)"

lemma good_parseI: "(\<And>c s'. p = Inr (c, s') \<Longrightarrow> wf_cmd s c \<and> suffix s' s) \<Longrightarrow> good_parse s p"
  by (simp add: good_parse_def)

lemma good_parseD: "good_parse s p \<Longrightarrow> p = Inr (c, s') \<Longrightarrow> suffix s t \<Longrightarrow> wf_cmd t c \<and> suffix s' t"
  unfolding good_parse_def by (metis wf_cmd_suffix suffix_order.trans)

lemma pbind_Inr: "pbind p f = Inr y \<longleftrightarrow> (\<exists>x. p = Inr x \<and> f x = Inr y)"
  by (cases p) auto

lemma good_redir_suffix: "good_redir s r \<Longrightarrow> suffix s t \<Longrightarrow> good_redir t r"
  by (auto simp: good_redir_def intro: word_at_suffix)

lemma redirs_good: "redirs ps = Inr (rs, s) \<Longrightarrow> (\<forall>r \<in> set rs. good_redir ps r) \<and> suffix s ps"
proof (induction ps arbitrary: rs s rule: redirs.induct)
  case (1 ps)
  obtain s0 found where p: "peek ps [60, 62] = (s0, found)" by fastforce
  obtain tok q0 e0 s1 where g: "gettoken s0 = (tok, q0, e0, s1)" by (metis prod_cases4)
  obtain t q eq s2 where g': "gettoken s1 = (t, q, eq, s2)" by (metis prod_cases4)
  have s01: "suffix s0 ps" "suffix s1 ps" "suffix s2 ps"
    using peek_suffix [OF p] gettoken_suffix [OF g] gettoken_suffix [OF g'] by (metis suffix_order.trans)+
  show ?case
  proof (cases "found \<and> t = 97")
    case True
    have "\<exists>rs'. redirs s2 = Inr (rs', s) \<and> (rs = rs' \<or> rs = (q, eq, 0, 0) # rs' \<or> rs = (q, eq, or O_WRONLY O_CREATE, 1) # rs')"
      using 1(2) True by (auto simp: redirs.simps [of ps] p g g' pbind_Inr split: if_splits)
    then obtain rs' where r: "redirs s2 = Inr (rs', s)" "rs = rs' \<or> rs = (q, eq, 0, 0) # rs' \<or> rs = (q, eq, or O_WRONLY O_CREATE, 1) # rs'"
      by blast
    have rest: "(\<forall>r \<in> set rs'. good_redir s2 r) \<and> suffix s s2"
      using 1(1) [OF p [symmetric] _ g [symmetric] refl refl g' [symmetric] refl refl] True r(1) by simp
    have "word_at ps q eq" using gettoken_word_at [of s1 q eq s2] g' True s01(2) by (auto intro: word_at_suffix)
    then have "good_redir ps (q, eq, 0, 0)" "good_redir ps (q, eq, or O_WRONLY O_CREATE, 1)" by (simp_all add: good_redir_def)
    moreover have "\<forall>r \<in> set rs'. good_redir ps r" using rest s01(3) by (blast intro: good_redir_suffix)
    ultimately show ?thesis using r(2) rest s01(3) suffix_order.trans by auto
  next
    case False
    then show ?thesis using 1(2) s01 by (auto simp: redirs.simps [of ps] p g g' split: if_splits)
  qed
qed

lemma redircmds_wf: "wf_cmd s c \<Longrightarrow> \<forall>r \<in> set rs. good_redir s r \<Longrightarrow> wf_cmd s (redircmds c rs)"
  unfolding redircmds_def by (induction rs arbitrary: c) (auto simp: good_redir_def)

lemma args_loop_good:
  "args_loop argc ps = Inr (as, rs, s) \<Longrightarrow> argc < MAXARGS \<Longrightarrow>
     argc + length as < MAXARGS \<and> (\<forall>(q, eq) \<in> set as. word_at ps q eq) \<and> (\<forall>r \<in> set rs. good_redir ps r) \<and> suffix s ps"
proof (induction argc ps arbitrary: as rs s rule: args_loop.induct)
  case (1 argc ps)
  obtain s0 found where p: "peek ps [124, 41, 38, 59] = (s0, found)" by fastforce
  obtain tok q eq s1 where g: "gettoken s0 = (tok, q, eq, s1)" by (metis prod_cases4)
  have s01: "suffix s0 ps" "suffix s1 ps" using peek_suffix [OF p] gettoken_suffix [OF g] by (metis suffix_order.trans)+
  show ?case
  proof (cases "\<not> found \<and> tok = 97 \<and> argc + 1 < MAXARGS")
    case True
    then obtain rs1 s2 as' rs2 where r: "redirs s1 = Inr (rs1, s2)" "args_loop (argc + 1) s2 = Inr (as', rs2, s)"
      "as = (q, eq) # as'" "rs = rs1 @ rs2"
      using 1(2) by (auto simp: args_loop.simps [of argc ps] p g pbind_Inr)
    have "argc + 1 + length as' < MAXARGS \<and> (\<forall>(q, eq) \<in> set as'. word_at s2 q eq) \<and> (\<forall>r \<in> set rs2. good_redir s2 r) \<and> suffix s s2"
      using 1(1) [OF p [symmetric] _ g [symmetric] refl refl _ _ _ r(1) refl r(2)] True by simp
    moreover have "(\<forall>r \<in> set rs1. good_redir s1 r) \<and> suffix s2 s1" by (rule redirs_good [OF r(1)])
    moreover have "word_at ps q eq" using gettoken_word_at [of s0 q eq s1] g True s01(1) by (auto intro: word_at_suffix)
    ultimately show ?thesis using s01(2) r(3,4)
      by (auto intro: word_at_suffix good_redir_suffix suffix_order.trans)
  next
    case False
    then show ?thesis using 1(2,3) s01 by (auto simp: args_loop.simps [of argc ps] p g split: if_splits)
  qed
qed

lemma back_loop_good: "back_loop c ps = (c', s) \<Longrightarrow> wf_cmd t c \<Longrightarrow> wf_cmd t c' \<and> suffix s ps"
proof (induction c ps rule: back_loop.induct)
  case (1 c ps)
  obtain s0 found where p: "peek ps [38] = (s0, found)" by fastforce
  obtain tok q0 e0 s1 where g: "gettoken s0 = (tok, q0, e0, s1)" by (metis prod_cases4)
  show ?case
  proof (cases found)
    case True
    then have "wf_cmd t c' \<and> suffix s s1"
      using 1(1) [OF p [symmetric] _ g [symmetric] refl refl] 1(2,3) by (simp add: back_loop.simps [of c ps] p g)
    then show ?thesis using peek_suffix [OF p] gettoken_suffix [OF g] by (metis suffix_order.trans)
  next
    case False
    then show ?thesis using 1(2,3) peek_suffix [OF p] by (simp add: back_loop.simps [of c ps] p)
  qed
qed

lemmas sfx = suffix_order.trans

lemma parseline_good:
  assumes IH1: "\<And>t. good_parse t (parseline n t)" and IH2: "\<And>t. good_parse t (parsepipe n t)"
  shows "good_parse s (parseline (Suc n) s)"
proof (rule good_parseI)
  fix c' s' assume a: "parseline (Suc n) s = Inr (c', s')"
  then obtain c s1 where 1: "parsepipe n s = Inr (c, s1)" by (auto simp: parseline.simps pbind_Inr)
  obtain c2 s2 where b: "back_loop c s1 = (c2, s2)" by fastforce
  obtain s3 found where p: "peek s2 [59] = (s3, found)" by fastforce
  obtain t q eq s4 where g: "gettoken s3 = (t, q, eq, s4)" by (metis prod_cases4)
  have c: "wf_cmd s c" "suffix s1 s" using good_parseD [OF IH2 1] by auto
  have c2: "wf_cmd s c2" "suffix s2 s" using back_loop_good [OF b c(1)] c(2) by (auto intro: sfx)
  have s34: "suffix s3 s" "suffix s4 s" using peek_suffix [OF p] gettoken_suffix [OF g] c2(2) by (metis sfx)+
  show "wf_cmd s c' \<and> suffix s' s"
  proof (cases found)
    case True
    then obtain r where r: "parseline n s4 = Inr (r, s')" "c' = LIST c2 r"
      using a by (auto simp: parseline.simps pbind_Inr 1 b p g)
    then show ?thesis using good_parseD [OF IH1 r(1) s34(2)] c2 by simp
  next
    case False
    then show ?thesis using a c2 s34 by (simp add: parseline.simps 1 b p)
  qed
qed

lemma parsepipe_good:
  assumes IH2: "\<And>t. good_parse t (parsepipe n t)" and IH3: "\<And>t. good_parse t (parseexec n t)"
  shows "good_parse s (parsepipe (Suc n) s)"
proof (rule good_parseI)
  fix c' s' assume a: "parsepipe (Suc n) s = Inr (c', s')"
  then obtain c s1 where 1: "parseexec n s = Inr (c, s1)" by (auto simp: parsepipe.simps pbind_Inr)
  obtain s3 found where p: "peek s1 [124] = (s3, found)" by fastforce
  obtain t q eq s4 where g: "gettoken s3 = (t, q, eq, s4)" by (metis prod_cases4)
  have c: "wf_cmd s c" "suffix s1 s" using good_parseD [OF IH3 1] by auto
  have s34: "suffix s3 s" "suffix s4 s" using peek_suffix [OF p] gettoken_suffix [OF g] c(2) by (metis sfx)+
  show "wf_cmd s c' \<and> suffix s' s"
  proof (cases found)
    case True
    then obtain r where r: "parsepipe n s4 = Inr (r, s')" "c' = PIPE c r"
      using a by (auto simp: parsepipe.simps pbind_Inr 1 p g)
    then show ?thesis using good_parseD [OF IH2 r(1) s34(2)] c by simp
  next
    case False
    then show ?thesis using a c s34 by (simp add: parsepipe.simps 1 p)
  qed
qed

lemma parseexec_good:
  assumes IH4: "\<And>t. good_parse t (parseblock n t)"
  shows "good_parse s (parseexec (Suc n) s)"
proof (rule good_parseI)
  fix c' s' assume a: "parseexec (Suc n) s = Inr (c', s')"
  obtain s1 found where p: "peek s [40] = (s1, found)" by fastforce
  show "wf_cmd s c' \<and> suffix s' s"
  proof (cases found)
    case True
    then have "parseblock n s1 = Inr (c', s')" using a by (simp add: parseexec.simps p)
    then show ?thesis using good_parseD [OF IH4 _ peek_suffix [OF p]] by simp
  next
    case False
    then obtain rs s2 as rs' where r: "redirs s1 = Inr (rs, s2)" "args_loop 0 s2 = Inr (as, rs', s')" "c' = redircmds (EXEC as) (rs @ rs')"
      using a by (auto simp: parseexec.simps p pbind_Inr)
    have s2: "suffix s2 s" "\<forall>r \<in> set rs. good_redir s r"
      using redirs_good [OF r(1)] peek_suffix [OF p] by (auto intro: sfx good_redir_suffix)
    have "length as < MAXARGS \<and> (\<forall>(q, eq) \<in> set as. word_at s q eq) \<and> (\<forall>r \<in> set rs'. good_redir s r) \<and> suffix s' s"
      using args_loop_good [OF r(2)] s2(1) by (auto simp: MAXARGS_def intro: sfx word_at_suffix good_redir_suffix)
    then show ?thesis using s2 r(3) by (auto intro!: redircmds_wf)
  qed
qed

lemma parseblock_good:
  assumes IH1: "\<And>t. good_parse t (parseline n t)"
  shows "good_parse s (parseblock (Suc n) s)"
proof (rule good_parseI)
  fix c' s' assume a: "parseblock (Suc n) s = Inr (c', s')"
  obtain s1 found where p: "peek s [40] = (s1, found)" by fastforce
  obtain t q eq s2 where g: "gettoken s1 = (t, q, eq, s2)" by (metis prod_cases4)
  obtain c s3 where 1: "parseline n s2 = Inr (c, s3)" using a by (auto simp: parseblock.simps p g pbind_Inr split: if_splits)
  obtain s4 found' where p': "peek s3 [41] = (s4, found')" by fastforce
  obtain t' q' eq' s5 where g': "gettoken s4 = (t', q', eq', s5)" by (metis prod_cases4)
  obtain rs where r: "redirs s5 = Inr (rs, s')" "c' = redircmds c rs"
    using a by (auto simp: parseblock.simps p g 1 p' g' parseredirs_def pbind_Inr split: if_splits)
  have c: "wf_cmd s c" "suffix s3 s"
    using good_parseD [OF IH1 1 sfx [OF gettoken_suffix [OF g] peek_suffix [OF p]]] by auto
  have "suffix s5 s" using gettoken_suffix [OF g'] peek_suffix [OF p'] c(2) by (metis sfx)
  then show "wf_cmd s c' \<and> suffix s' s"
    using redirs_good [OF r(1)] r(2) c(1) by (auto intro!: redircmds_wf intro: sfx good_redir_suffix)
qed

lemma parser_good:
  "good_parse s (parseline n s) \<and> good_parse s (parsepipe n s) \<and> good_parse s (parseexec n s) \<and> good_parse s (parseblock n s)"
proof (induction n arbitrary: s)
  case 0
  show ?case by (simp add: good_parse_def parseline.simps parsepipe.simps parseexec.simps parseblock.simps)
next
  case (Suc n)
  then show ?case by (intro conjI parseline_good parsepipe_good parseexec_good parseblock_good) blast+
qed

text \<open>The strings of a command, and the positions at which the line is cut.\<close>

primrec strings_of :: "cmd \<Rightarrow> (rest \<times> rest) set" where
  "strings_of (EXEC as) = set as"
| "strings_of (REDIR c q eq mode fd) = insert (q, eq) (strings_of c)"
| "strings_of (PIPE l r) = strings_of l \<union> strings_of r"
| "strings_of (LIST l r) = strings_of l \<union> strings_of r"
| "strings_of (BACK c) = strings_of c"

definition tok_text :: "rest \<times> rest \<Rightarrow> u8 list" where
  "tok_text = (\<lambda>(q, eq). take (length q - length eq) q)"

lemma wf_cmd_strings: "wf_cmd s c \<Longrightarrow> (q, eq) \<in> strings_of c \<Longrightarrow> word_at s q eq"
  by (induction c) auto

lemma cut_at_length [simp]: "length (cut_at eq line) = length line"
  by (simp add: cut_at_def)

lemma cut_at_nth: "i < length line \<Longrightarrow> cut_at eq line ! i = (if i = length line - 1 - length eq then 0 else line ! i)"
  by (simp add: cut_at_def nth_list_update)

lemma fold_cut_at:
  "length (fold (\<lambda>(q, eq). cut_at eq) as line) = length line \<and> (i < length line \<longrightarrow>
   fold (\<lambda>(q, eq). cut_at eq) as line ! i = (if \<exists>(q, eq) \<in> set as. i = length line - 1 - length eq then 0 else line ! i))"
  by (induction as arbitrary: line) (auto simp: cut_at_nth)

lemma nulterminate_cells:
  "length (nulterminate c line) = length line \<and> (i < length line \<longrightarrow>
   nulterminate c line ! i = (if \<exists>(q, eq) \<in> strings_of c. i = length line - 1 - length eq then 0 else line ! i))"
proof (induction c arbitrary: line)
  case (EXEC as)
  show ?case using fold_cut_at [of as line i] by simp
next
  case (REDIR c q eq mode fd)
  then show ?case by (auto simp: cut_at_nth)
qed auto

lemma nulterminate_keeps_words:
  assumes wf: "wf_cmd s c" and nz: "0 \<notin> set s" and st: "(q, eq) \<in> strings_of c"
  shows "str_at (nulterminate c (s @ [0])) q = tok_text (q, eq)"
proof -
  let ?line = "nulterminate c (s @ [0])"
  have len: "length ?line = Suc (length s)" using nulterminate_cells [of c "s @ [0]"] by simp
  obtain w pre where w: "q = w @ eq" "\<forall>x \<in> set w. plain x" and s: "s = pre @ w @ eq"
    using wf_cmd_strings [OF wf st] by (auto simp: word_at_def suffix_def)
  have cell: "?line ! i = (if \<exists>(q, eq) \<in> strings_of c. i = length s - length eq then 0 else (s @ [0]) ! i)" if "i \<le> length s" for i
    using nulterminate_cells [of c "s @ [0]" i] that by simp
  have keep: "?line ! (length pre + i) = w ! i" if i: "i < length w" for i
  proof -
    have wi: "(s @ [0]) ! (length pre + i) = w ! i" "plain (w ! i)" using i w(2) by (simp_all add: s nth_append)
    have "length pre + i \<noteq> length s - length eq'" if st': "(q', eq') \<in> strings_of c" for q' eq'
    proof
      assume at: "length pre + i = length s - length eq'"
      obtain pre' where s': "s = pre' @ eq'" "eq' \<noteq> [] \<longrightarrow> \<not> plain (hd eq')"
        using wf_cmd_strings [OF wf st'] by (auto simp: word_at_def suffix_def)
      then have "length pre' = length pre + i" "eq' \<noteq> []" using at i s by auto
      then have "hd eq' = w ! i" using s' wi(1) by (simp add: nth_append hd_conv_nth)
      then show False using s' wi(2) \<open>eq' \<noteq> []\<close> by simp
    qed
    then show ?thesis using cell [of "length pre + i"] wi(1) i s by auto
  qed
  have cut: "?line ! (length pre + length w) = 0"
    using cell [of "length pre + length w"] st s by auto
  have drop: "drop (length pre) ?line = w @ 0 # drop (Suc (length pre + length w)) ?line"
  proof (rule nth_equalityI)
    show "length (drop (length pre) ?line) = length (w @ 0 # drop (Suc (length pre + length w)) ?line)" using len s by simp
  next
    fix i assume "i < length (drop (length pre) ?line)"
    then have i: "i \<le> length w + length eq" using len s by simp
    then have "i < length w \<or> i = length w \<or> (\<exists>k. i = Suc (length w + k) \<and> k < length eq)" by presburger
    then consider "i < length w" | "i = length w" | k where "i = Suc (length w + k)" "k < length eq" by blast
    then show "drop (length pre) ?line ! i = (w @ 0 # drop (Suc (length pre + length w)) ?line) ! i"
      using keep cut len s by cases (auto simp: nth_append algebra_simps)
  qed
  have "0 \<notin> set w" using nz s by simp
  then have "takeWhile (\<lambda>x. x \<noteq> 0) (w @ 0 # drop (Suc (length pre + length w)) ?line) = w"
    by (subst takeWhile_append2) auto
  moreover have "length ?line - 1 - length q = length pre" using len s w(1) by simp
  ultimately show ?thesis using drop by (simp add: str_at_def tok_text_def w(1))
qed

section \<open>Commands as text\<close>

text \<open>The abstract command, its text, and the command a parsed tree stands for. Parentheses leave no trace in the tree.\<close>

datatype scmd = Words "u8 list list" | From scmd "u8 list" | To scmd "u8 list" | Piped scmd scmd | Seq scmd scmd | Background scmd

primrec show_cmd :: "scmd \<Rightarrow> u8 list" where
  "show_cmd (Words ws) = concat (map (\<lambda>w. w @ [32]) ws)"
| "show_cmd (From c f) = 40 # show_cmd c @ [41, 60] @ f @ [32]"
| "show_cmd (To c f) = 40 # show_cmd c @ [41, 62] @ f @ [32]"
| "show_cmd (Piped l r) = 40 # show_cmd l @ [41, 124, 40] @ show_cmd r @ [41]"
| "show_cmd (Seq l r) = 40 # show_cmd l @ [41, 59, 40] @ show_cmd r @ [41]"
| "show_cmd (Background c) = 40 # show_cmd c @ [41, 38]"

definition is_word :: "u8 list \<Rightarrow> bool" where
  "is_word w \<longleftrightarrow> w \<noteq> [] \<and> (\<forall>c \<in> set w. plain c \<and> c \<noteq> 0)"

primrec wf_scmd :: "scmd \<Rightarrow> bool" where
  "wf_scmd (Words ws) \<longleftrightarrow> length ws < MAXARGS \<and> (\<forall>w \<in> set ws. is_word w)"
| "wf_scmd (From c f) \<longleftrightarrow> wf_scmd c \<and> is_word f"
| "wf_scmd (To c f) \<longleftrightarrow> wf_scmd c \<and> is_word f"
| "wf_scmd (Piped l r) \<longleftrightarrow> wf_scmd l \<and> wf_scmd r"
| "wf_scmd (Seq l r) \<longleftrightarrow> wf_scmd l \<and> wf_scmd r"
| "wf_scmd (Background c) \<longleftrightarrow> wf_scmd c"

primrec cmd_of :: "cmd \<Rightarrow> scmd" where
  "cmd_of (EXEC as) = Words (map tok_text as)"
| "cmd_of (REDIR c q eq mode fd) = (if fd = 0 then From (cmd_of c) (tok_text (q, eq)) else To (cmd_of c) (tok_text (q, eq)))"
| "cmd_of (PIPE l r) = Piped (cmd_of l) (cmd_of r)"
| "cmd_of (LIST l r) = Seq (cmd_of l) (cmd_of r)"
| "cmd_of (BACK c) = Background (cmd_of c)"

lemma ws_facts [simp]:
  "is_ws 32" "\<not> is_ws 40" "\<not> is_ws 41" "\<not> is_ws 60" "\<not> is_ws 62" "\<not> is_ws 124" "\<not> is_ws 59" "\<not> is_ws 38"
  "\<not> plain 32" "\<not> plain 40" "\<not> plain 41"
  by (simp_all add: is_ws_iff is_sym_iff plain_def)

lemma peek_at: "\<not> is_ws c \<Longrightarrow> peek (c # s) toks = (c # s, c \<in> set toks)"
  by (simp add: peek_def strchr_None_iff)

lemma peek_end [simp]: "peek [] toks = ([], False)"
  by (simp add: peek_def)

lemma gettoken_symbol: "c \<in> {124, 40, 41, 59, 38, 60} \<Longrightarrow> gettoken (c # s) = (c, c # s, s, dropWhile is_ws s)"
  by (auto simp: gettoken_def)

lemma gettoken_gt: "s = [] \<or> hd s \<noteq> 62 \<Longrightarrow> gettoken (62 # s) = (62, 62 # s, s, dropWhile is_ws s)"
  by (cases s) (auto simp: gettoken_def)

lemma word_hd: "is_word w \<Longrightarrow> \<exists>c v. w = c # v \<and> plain c \<and> \<not> is_ws c \<and> c \<notin> {124, 40, 41, 59, 38, 60, 62}"
  by (cases w) (auto simp: is_word_def plain_def is_sym_iff)

lemma gettoken_word: "is_word w \<Longrightarrow> gettoken (w @ 32 # r) = (97, w @ 32 # r, 32 # r, dropWhile is_ws r)"
proof -
  assume w: "is_word w"
  obtain c v where cv: "w = c # v" "plain c" "\<not> is_ws c" "c \<notin> {124, 40, 41, 59, 38, 60, 62}" using word_hd [OF w] by blast
  have "dropWhile (\<lambda>c. \<not> is_ws c \<and> \<not> is_sym c) (w @ 32 # r) = 32 # r"
    using w by (subst dropWhile_append2) (auto simp: is_word_def plain_def)
  then show ?thesis using cv by (simp add: gettoken_def Let_def)
qed

lemma tok_text_word [simp]: "tok_text (w @ 32 # r, 32 # r) = w"
  by (simp add: tok_text_def)

text \<open>Where the loops of the parser stop.\<close>

definition at_stop :: "rest \<Rightarrow> bool" where
  "at_stop r \<longleftrightarrow> r = [] \<or> (\<exists>s. r = 41 # s)"

lemma at_stop_facts:
  assumes "at_stop r"
  shows "dropWhile is_ws r = r" "redirs r = Inr ([], r)" "peek r [59] = (r, False)" "peek r [124] = (r, False)" "peek r [38] = (r, False)"
  using assms by (auto simp: at_stop_def peek_at redirs.simps [of r])

lemma redirs_none: "r = [] \<or> \<not> is_ws (hd r) \<and> hd r \<notin> {60, 62} \<Longrightarrow> redirs r = Inr ([], r)"
  unfolding redirs.simps [of r] by (cases r) (auto simp: peek_at)

lemma args_loop_words:
  assumes "\<forall>w \<in> set ws. is_word w" "at_stop r" "argc + length ws < MAXARGS"
  shows "\<exists>as. args_loop argc (concat (map (\<lambda>w. w @ [32]) ws) @ r) = Inr (as, [], r) \<and> map tok_text as = ws"
  using assms
proof (induction ws arbitrary: argc)
  case Nil
  then show ?case by (auto simp: at_stop_def args_loop.simps [of argc r] peek_at gettoken_def)
next
  case (Cons w ws)
  let ?r = "concat (map (\<lambda>w. w @ [32]) ws) @ r" and ?s = "concat (map (\<lambda>w. w @ [32]) (w # ws)) @ r"
  obtain c v where cv: "w = c # v" "\<not> is_ws c" "c \<notin> {124, 40, 41, 59, 38, 60, 62}" using word_hd [of w] Cons.prems by auto
  have hd_r: "?r = [] \<or> \<not> is_ws (hd ?r) \<and> hd ?r \<notin> {60, 62}"
    using Cons.prems by (cases ws) (auto simp: at_stop_def dest!: word_hd)
  then have dw: "dropWhile is_ws ?r = ?r" by (cases ?r) auto
  have p: "peek ?s [124, 41, 38, 59] = (?s, False)" using cv by (simp add: peek_at)
  obtain as where as: "args_loop (argc + 1) ?r = Inr (as, [], r)" "map tok_text as = ws" using Cons.IH [of "argc + 1"] Cons.prems by auto
  have "args_loop argc ?s = Inr ((?s, 32 # ?r) # as, [], r)"
    unfolding args_loop.simps [of argc ?s] p using Cons.prems redirs_none [OF hd_r] as(1) gettoken_word [of w ?r] dw by simp
  moreover have "tok_text (?s, 32 # ?r) = w" using tok_text_word [of w ?r] by simp
  ultimately show ?case using as(2) by auto
qed

text \<open>\<open>reads c\<close>: the parser reads the text of \<open>c\<close>, wherever it stands before a stop.\<close>

definition reads :: "scmd \<Rightarrow> bool" where
  "reads c \<longleftrightarrow> (\<forall>n r. at_stop r \<longrightarrow> 4 * length (show_cmd c @ r) + 4 \<le> n \<longrightarrow>
     (\<exists>c'. parseline n (show_cmd c @ r) = Inr (c', r) \<and> cmd_of c' = c))"

lemma show_cmd_hd: "wf_scmd c \<Longrightarrow> at_stop r \<Longrightarrow> dropWhile is_ws (show_cmd c @ r) = show_cmd c @ r"
proof (cases c)
  case (Words ws)
  assume "wf_scmd c" "at_stop r"
  then show ?thesis using Words by (cases ws) (auto simp: at_stop_def dest!: word_hd)
qed simp_all

text \<open>A parenthesised command in the position of a simple one.\<close>

lemma exec_block:
  assumes "reads c" "wf_scmd c" "4 * length (40 # show_cmd c @ 41 # t) + 2 \<le> n"
  shows "\<exists>c'. cmd_of c' = c \<and> parseexec n (40 # show_cmd c @ 41 # t) = parseredirs c' (dropWhile is_ws t)"
proof -
  let ?s = "40 # show_cmd c @ 41 # t" and ?r = "41 # t"
  obtain k where n: "n = Suc (Suc k)" "4 * length (show_cmd c @ ?r) + 4 \<le> k" using assms(3) by (cases n; cases "n - 1") auto
  have stop: "at_stop ?r" by (simp add: at_stop_def)
  obtain c' where c': "parseline k (show_cmd c @ ?r) = Inr (c', ?r)" "cmd_of c' = c"
    using assms(1) [unfolded reads_def, rule_format, OF stop n(2)] by blast
  have "parseexec n ?s = parseblock (Suc k) ?s" by (simp add: n(1) parseexec.simps peek_at)
  also have "\<dots> = parseredirs c' (dropWhile is_ws t)"
    using show_cmd_hd [OF assms(2) stop] c'(1) by (simp add: parseblock.simps peek_at gettoken_symbol)
  finally show ?thesis using c'(2) by blast
qed

lemma exec_block_plain:
  assumes "reads c" "wf_scmd c" "4 * length (40 # show_cmd c @ 41 # t) + 2 \<le> n" "t = [] \<or> hd t \<notin> {60, 62} \<and> \<not> is_ws (hd t)"
  shows "\<exists>c'. cmd_of c' = c \<and> parseexec n (40 # show_cmd c @ 41 # t) = Inr (c', t)"
proof -
  obtain c' where "cmd_of c' = c" "parseexec n (40 # show_cmd c @ 41 # t) = parseredirs c' (dropWhile is_ws t)"
    using exec_block [OF assms(1-3)] by blast
  moreover have "dropWhile is_ws t = t" using assms(4) by (cases t) auto
  ultimately show ?thesis using redirs_none [of t] assms(4) by (auto simp: parseredirs_def redircmds_def)
qed

lemma back_loop_none: "r = [] \<or> \<not> is_ws (hd r) \<and> hd r \<noteq> 38 \<Longrightarrow> back_loop c r = (c, r)"
  unfolding back_loop.simps [of c r] by (cases r) (auto simp: peek_at)

lemma line_of_exec:
  assumes "parseexec n s = Inr (c, r)" "at_stop r"
  shows "parseline (Suc (Suc n)) s = Inr (c, r)"
  using assms at_stop_facts [OF assms(2)] back_loop_none [of r c]
  by (auto simp: parseline.simps parsepipe.simps at_stop_def)

lemma reads_Words: "wf_scmd (Words ws) \<Longrightarrow> reads (Words ws)"
  unfolding reads_def
proof (intro allI impI)
  fix n r assume wf: "wf_scmd (Words ws)" and r: "at_stop r" and n: "4 * length (show_cmd (Words ws) @ r) + 4 \<le> n"
  let ?s = "show_cmd (Words ws) @ r"
  obtain k where k: "n = Suc (Suc (Suc k))" using n by (cases n; cases "n - 1"; cases "n - 2") auto
  obtain as where as: "args_loop 0 ?s = Inr (as, [], r)" "map tok_text as = ws" using args_loop_words [of ws r 0] wf r by auto
  have hd_s: "?s = [] \<or> \<not> is_ws (hd ?s) \<and> hd ?s \<notin> {60, 62, 40}"
    using wf r by (cases ws) (auto simp: at_stop_def dest!: word_hd)
  then have "peek ?s [40] = (?s, False)" by (cases ?s) (auto simp: peek_at)
  then have "parseexec (Suc k) ?s = Inr (EXEC as, r)" using redirs_none [of ?s] hd_s as(1)
    unfolding parseexec.simps by (auto simp: redircmds_def)
  then show "\<exists>c'. parseline n ?s = Inr (c', r) \<and> cmd_of c' = Words ws" using line_of_exec [OF _ r] as(2) k by auto
qed

lemma reads_redir:
  assumes "reads c" "wf_scmd c" "is_word f" "op \<in> {60, 62}" "at_stop r" "4 * length (40 # show_cmd c @ [41, op] @ f @ 32 # r) + 4 \<le> n"
  shows "\<exists>c'. parseline n (40 # show_cmd c @ [41, op] @ f @ 32 # r) = Inr (c', r) \<and> cmd_of c' = (if op = 60 then From c f else To c f)"
proof -
  let ?t = "op # f @ 32 # r"
  obtain k where k: "n = Suc (Suc k)" using assms(6) by (cases n; cases "n - 1") auto
  have "4 * length (40 # show_cmd c @ 41 # ?t) + 2 \<le> k" using assms(6) k by simp
  then obtain c' where c': "cmd_of c' = c" "parseexec k (40 # show_cmd c @ 41 # ?t) = parseredirs c' (dropWhile is_ws ?t)"
    using exec_block [OF assms(1,2)] by blast
  obtain x v where f: "f = x # v" "\<not> is_ws x" "x \<noteq> 62" using word_hd [OF assms(3)] by auto
  have g: "gettoken ?t = (op, ?t, f @ 32 # r, f @ 32 # r)"
    using assms(4) f gettoken_symbol [of 60 "f @ 32 # r"] gettoken_gt [of "f @ 32 # r"] by auto
  have p: "peek ?t [60, 62] = (?t, True)" using assms(4) by (auto simp: peek_at)
  have "redirs ?t = Inr ([(f @ 32 # r, 32 # r, if op = 60 then (0, 0) else (or O_WRONLY O_CREATE, 1))], r)"
    unfolding redirs.simps [of ?t] p using assms(4) g gettoken_word [OF assms(3), of r] at_stop_facts [OF assms(5)] by auto
  moreover have "dropWhile is_ws ?t = ?t" using assms(4) by auto
  ultimately have "parseexec k (40 # show_cmd c @ 41 # ?t) =
      Inr (if op = 60 then REDIR c' (f @ 32 # r) (32 # r) 0 0 else REDIR c' (f @ 32 # r) (32 # r) (or O_WRONLY O_CREATE) 1, r)"
    using c'(2) by (simp add: parseredirs_def redircmds_def)
  from line_of_exec [OF this assms(5)] show ?thesis using k c'(1) by auto
qed

lemma reads_Piped:
  assumes "reads c" "wf_scmd c" "reads d" "wf_scmd d"
  shows "reads (Piped c d)"
  unfolding reads_def
proof (intro allI impI)
  fix n r assume r: "at_stop r" and n: "4 * length (show_cmd (Piped c d) @ r) + 4 \<le> n"
  obtain k where k: "n = Suc (Suc (Suc k))" using n by (cases n; cases "n - 1"; cases "n - 2") auto
  let ?t = "40 # show_cmd d @ 41 # r"
  obtain c' where c': "cmd_of c' = c" "parseexec (Suc k) (40 # show_cmd c @ 41 # 124 # ?t) = Inr (c', 124 # ?t)"
    using exec_block_plain [OF assms(1,2), of "124 # ?t" "Suc k"] n k by auto
  obtain d' where d': "cmd_of d' = d" "parseexec k ?t = Inr (d', r)"
    using exec_block_plain [OF assms(3,4), of r k] n k r by (auto simp: at_stop_def)
  have "parsepipe (Suc k) ?t = Inr (d', r)" using d'(2) at_stop_facts [OF r] by (simp add: parsepipe.simps)
  then have "parsepipe (Suc (Suc k)) (40 # show_cmd c @ 41 # 124 # ?t) = Inr (PIPE c' d', r)"
    using c'(2) by (simp add: parsepipe.simps peek_at gettoken_symbol)
  then have "parseline n (show_cmd (Piped c d) @ r) = Inr (PIPE c' d', r)"
    using at_stop_facts [OF r] back_loop_none [of r] r by (auto simp: parseline.simps k at_stop_def)
  then show "\<exists>c'. parseline n (show_cmd (Piped c d) @ r) = Inr (c', r) \<and> cmd_of c' = Piped c d" using c'(1) d'(1) by auto
qed

lemma reads_Seq:
  assumes "reads c" "wf_scmd c" "reads d" "wf_scmd d"
  shows "reads (Seq c d)"
  unfolding reads_def
proof (intro allI impI)
  fix n r assume r: "at_stop r" and n: "4 * length (show_cmd (Seq c d) @ r) + 4 \<le> n"
  obtain k where k: "n = Suc (Suc (Suc k))" using n by (cases n; cases "n - 1"; cases "n - 2") auto
  let ?t = "40 # show_cmd d @ 41 # r"
  obtain c' where c': "cmd_of c' = c" "parseexec (Suc k) (40 # show_cmd c @ 41 # 59 # ?t) = Inr (c', 59 # ?t)"
    using exec_block_plain [OF assms(1,2), of "59 # ?t" "Suc k"] n k by auto
  obtain d' where d': "cmd_of d' = d" "parseexec k ?t = Inr (d', r)"
    using exec_block_plain [OF assms(3,4), of r k] n k r by (auto simp: at_stop_def)
  have "parseline (Suc (Suc k)) ?t = Inr (d', r)" using line_of_exec [OF d'(2) r] .
  moreover have "parsepipe (Suc (Suc k)) (40 # show_cmd c @ 41 # 59 # ?t) = Inr (c', 59 # ?t)"
    using c'(2) by (simp add: parsepipe.simps peek_at)
  ultimately have "parseline n (show_cmd (Seq c d) @ r) = Inr (LIST c' d', r)"
    using back_loop_none [of "59 # ?t"] by (simp add: parseline.simps(2) [of "Suc (Suc k)"] k peek_at gettoken_symbol)
  then show "\<exists>c'. parseline n (show_cmd (Seq c d) @ r) = Inr (c', r) \<and> cmd_of c' = Seq c d" using c'(1) d'(1) by auto
qed

lemma reads_Background:
  assumes "reads c" "wf_scmd c"
  shows "reads (Background c)"
  unfolding reads_def
proof (intro allI impI)
  fix n r assume r: "at_stop r" and n: "4 * length (show_cmd (Background c) @ r) + 4 \<le> n"
  obtain k where k: "n = Suc (Suc k)" using n by (cases n; cases "n - 1") auto
  obtain c' where c': "cmd_of c' = c" "parseexec k (40 # show_cmd c @ 41 # 38 # r) = Inr (c', 38 # r)"
    using exec_block_plain [OF assms, of "38 # r" k] n k by auto
  have "back_loop c' (38 # r) = (BACK c', r)"
    unfolding back_loop.simps [of c' "38 # r"] using at_stop_facts [OF r] back_loop_none [of r "BACK c'"] r
    by (auto simp: peek_at gettoken_symbol at_stop_def)
  then have "parseline n (show_cmd (Background c) @ r) = Inr (BACK c', r)"
    using c'(2) at_stop_facts [OF r] by (simp add: parseline.simps parsepipe.simps k peek_at)
  then show "\<exists>c'. parseline n (show_cmd (Background c) @ r) = Inr (c', r) \<and> cmd_of c' = Background c" using c'(1) by auto
qed

lemma reads_all: "wf_scmd c \<Longrightarrow> reads c"
proof (induction c)
  case (Words ws)
  then show ?case by (rule reads_Words)
next
  case (From c f)
  then show ?case using reads_redir [of c f 60] unfolding reads_def by simp
next
  case (To c f)
  then show ?case using reads_redir [of c f 62] unfolding reads_def by simp
qed (auto intro: reads_Piped reads_Seq reads_Background)

lemma show_cmd_nz: "wf_scmd c \<Longrightarrow> 0 \<notin> set (show_cmd c)"
  by (induction c) (auto simp: is_word_def)

text \<open>The command that \<open>runcmd\<close> finds in the tree and the terminated line.\<close>

primrec cmd_in :: "u8 list \<Rightarrow> cmd \<Rightarrow> scmd" where
  "cmd_in line (EXEC as) = Words (map (\<lambda>(q, eq). str_at line q) as)"
| "cmd_in line (REDIR c q eq mode fd) = (if fd = 0 then From (cmd_in line c) (str_at line q) else To (cmd_in line c) (str_at line q))"
| "cmd_in line (PIPE l r) = Piped (cmd_in line l) (cmd_in line r)"
| "cmd_in line (LIST l r) = Seq (cmd_in line l) (cmd_in line r)"
| "cmd_in line (BACK c) = Background (cmd_in line c)"

lemma cmd_in_cmd_of: "\<forall>x \<in> strings_of c. str_at line (fst x) = tok_text x \<Longrightarrow> cmd_in line c = cmd_of c"
  by (induction c) (auto simp: split_beta)

lemma parsecmd_Inr:
  assumes "parsecmd s = Inr (c, line)" "0 \<notin> set s"
  shows "wf_cmd s c" "length line = Suc (length s)" "\<And>q eq. (q, eq) \<in> strings_of c \<Longrightarrow> str_at line q = tok_text (q, eq)"
proof -
  obtain c0 s' where p: "parseline (4 * length s + 4) s = Inr (c0, s')"
    using assms(1) by (cases "parseline (4 * length s + 4) s") (auto simp: parsecmd_def)
  obtain s2 b where k: "peek s' [] = (s2, b)" by fastforce
  have c0: "c0 = c" and line: "line = nulterminate c (s @ [0])" using assms(1) by (auto simp: parsecmd_def p k split: if_splits)
  have "good_parse s (parseline (4 * length s + 4) s)" using parser_good by blast
  then show wf: "wf_cmd s c" using p c0 by (simp add: good_parse_def)
  show "length line = Suc (length s)" using nulterminate_cells [of c "s @ [0]"] line by simp
  show "str_at line q = tok_text (q, eq)" if "(q, eq) \<in> strings_of c" for q eq
    using nulterminate_keeps_words [OF wf assms(2) that] line by simp
qed

section \<open>Properties\<close>

text \<open>C33. The parser ends on every line: it returns a command and the line with its strings terminated, or prints a message and
  exits. The nesting of its routines never exceeds four times the length of the line.\<close>

theorem parsecmd_terminates: "(\<exists>c line. parsecmd s = Inr (c, line)) \<or> (\<exists>m. parsecmd s = Inl (Panic m))"
proof -
  have "ok_parse s (parseline (4 * length s + 4) s)" using parser_ok [of s "4 * length s + 4"] by simp
  then show ?thesis by (cases "parseline (4 * length s + 4) s") (auto simp: parsecmd_def split: prod.splits)
qed

text \<open>C34. What the parser returns is well formed: every command has fewer than \<open>MAXARGS\<close> arguments, every string starts and ends
  at the bounds of a word of the line, every redirection has a mode and descriptor that fit. \<open>nulterminate\<close> overwrites only the
  byte behind each word, so that the terminated line shows each string as exactly its word.\<close>

theorem parsecmd_wellformed:
  assumes "parsecmd s = Inr (c, line)" "0 \<notin> set s"
  shows "wf_cmd s c \<and> length line = Suc (length s) \<and> (\<forall>(q, eq) \<in> strings_of c. str_at line q = tok_text (q, eq))"
  using parsecmd_Inr [OF assms] by auto

theorem parsecmd_wellformed_witness:
  "\<exists>c line. parsecmd [97, 62, 98, 10] = Inr (c, line) \<and> wf_cmd [97, 62, 98, 10] c"
proof -
  have g: "gettoken [97, 62, 98, 10] = (97, [97, 62, 98, 10], [62, 98, 10], [62, 98, 10])"
    "gettoken [62, 98, 10] = (62, [62, 98, 10], [98, 10], [98, 10])" "gettoken [98, 10] = (97, [98, 10], [10], [])"
    by (simp_all add: gettoken_def is_ws_iff is_sym_iff)
  have k: "peek [97, 62, 98, 10] t = ([97, 62, 98, 10], 97 \<in> set t)" "peek [62, 98, 10] t = ([62, 98, 10], 62 \<in> set t)" for t
    by (simp_all add: peek_def is_ws_iff strchr_None_iff)
  have r: "redirs [62, 98, 10] = Inr ([([98, 10], [10], or O_WRONLY O_CREATE, 1)], [])" "redirs [97, 62, 98, 10] = Inr ([], [97, 62, 98, 10])"
    by (simp_all add: redirs.simps [of "[62, 98, 10]"] redirs.simps [of "[]"] redirs.simps [of "[97, 62, 98, 10]"] g k)
  have a: "args_loop 0 [97, 62, 98, 10] = Inr ([([97, 62, 98, 10], [62, 98, 10])], [([98, 10], [10], or O_WRONLY O_CREATE, 1)], [])"
    by (simp add: args_loop.simps [of 0] args_loop.simps [of "Suc 0" "[]"] g k r MAXARGS_def) (simp add: gettoken_def)
  have "parseexec (Suc 17) [97, 62, 98, 10] = Inr (redircmds (EXEC [([97, 62, 98, 10], [62, 98, 10])]) [([98, 10], [10], or O_WRONLY O_CREATE, 1)], [])"
    unfolding parseexec.simps(2) by (simp add: k r a)
  from line_of_exec [OF this] have "\<exists>c line. parsecmd [97, 62, 98, 10] = Inr (c, line)" by (simp add: parsecmd_def at_stop_def)
  then obtain c line where "parsecmd [97, 62, 98, 10] = Inr (c, line)" by blast
  moreover from parsecmd_wellformed [OF this] have "wf_cmd [97, 62, 98, 10] c" by simp
  ultimately show ?thesis by blast
qed

text \<open>C35. Reading back: the parser takes the text of any abstract command, with at most nine words per simple command, to a tree
  which, with the terminated line, shows that command.\<close>

theorem parsecmd_reads_back:
  assumes "wf_scmd c"
  shows "\<exists>t line. parsecmd (show_cmd c) = Inr (t, line) \<and> cmd_in line t = c"
proof -
  obtain t where t: "parseline (4 * length (show_cmd c) + 4) (show_cmd c) = Inr (t, [])" "cmd_of t = c"
    using reads_all [OF assms] unfolding reads_def by (metis append_Nil2 at_stop_def order_refl)
  then have p: "parsecmd (show_cmd c) = Inr (t, nulterminate t (show_cmd c @ [0]))" by (simp add: parsecmd_def)
  from parsecmd_Inr(3) [OF p show_cmd_nz [OF assms]] have "cmd_in (nulterminate t (show_cmd c @ [0])) t = c"
    using cmd_in_cmd_of [of t] t(2) by fastforce
  then show ?thesis using p by blast
qed

theorem parsecmd_reads_back_witness:
  "\<exists>t line. parsecmd [40, 97, 32, 98, 32, 41, 124, 40, 99, 32, 41] = Inr (t, line) \<and> cmd_in line t = Piped (Words [[97], [98]]) (Words [[99]])"
  using parsecmd_reads_back [of "Piped (Words [[97], [98]]) (Words [[99]])"]
  by (simp add: is_word_def plain_def is_ws_iff is_sym_iff MAXARGS_def)

end
