(* ===== verification/Umalloc.thy ===== *)
theory Umalloc
  imports User_Prog
begin

text \<open>
  The heap of user programs, \<open>umalloc.c\<close>: a circular list of free blocks, each with a header of a link and a size in
  units of eight bytes. The model holds the two fields of the headers by address; the contents of the blocks are not
  touched by the routines. Addresses are 32-bit words, and \<open>bp + n\<close> of the code on headers is \<open>bp + 8 * n\<close>. More memory comes
  from the system call \<open>sbrk\<close>.

  The main lemmas relate \<open>free\<close> and \<open>malloc\<close> to sets of bytes: \<open>free\<close> adds exactly its block to the free bytes, \<open>malloc\<close>
  takes exactly the block it returns away from them.
\<close>

section \<open>The routines\<close>

record uheap =
  h_ptr :: "uint \<Rightarrow> uint"
  h_size :: "uint \<Rightarrow> uint"
  h_freep :: uint

partial_function (option) free_find :: "(uint \<Rightarrow> uint) \<Rightarrow> uint \<Rightarrow> uint \<Rightarrow> uint option" where
  "free_find nx bp p =
     (if bp > p \<and> bp < nx p then Some p
      else if p \<ge> nx p \<and> (bp > p \<or> bp < nx p) then Some p
      else free_find nx bp (nx p))"

definition free_join_next :: "uint \<Rightarrow> uint \<Rightarrow> uheap \<Rightarrow> uheap" where
  "free_join_next bp p h = (let n = h_ptr h p in
     if bp + 8 * h_size h bp = n
     then h\<lparr>h_size := (h_size h)(bp := h_size h bp + h_size h n), h_ptr := (h_ptr h)(bp := h_ptr h n)\<rparr>
     else h\<lparr>h_ptr := (h_ptr h)(bp := n)\<rparr>)"

definition free_join_prev :: "uint \<Rightarrow> uint \<Rightarrow> uheap \<Rightarrow> uheap" where
  "free_join_prev bp p h =
     (if p + 8 * h_size h p = bp
      then h\<lparr>h_size := (h_size h)(p := h_size h p + h_size h bp), h_ptr := (h_ptr h)(p := h_ptr h bp)\<rparr>
      else h\<lparr>h_ptr := (h_ptr h)(p := bp)\<rparr>)"

definition free :: "uint \<Rightarrow> uheap \<Rightarrow> uheap option" where
  "free ap h = (let bp = ap - 8 in case free_find (h_ptr h) bp (h_freep h) of
     None \<Rightarrow> None
   | Some p \<Rightarrow> Some ((free_join_prev bp p (free_join_next bp p h))\<lparr>h_freep := p\<rparr>))"

definition morecore :: "uint \<Rightarrow> uheap \<Rightarrow> (uint \<times> uheap) uprog" where
  "morecore nu h = (let nu = (if nu < 4096 then 4096 else nu) in
     ubind (sys (Sbrk (nu * 8))) (\<lambda>p.
       if p = - 1 then Done (0, h)
       else let hp = of_int p in
         case free (hp + 8) (h\<lparr>h_size := (h_size h)(hp := nu)\<rparr>) of
           None \<Rightarrow> Bounded
         | Some h \<Rightarrow> Done (h_freep h, h)))"

text \<open>A block that fits: the whole of it is unlinked, or its tail is split off.\<close>

definition take_block :: "uint \<Rightarrow> uint \<Rightarrow> uint \<Rightarrow> uheap \<Rightarrow> uint \<times> uheap" where
  "take_block nunits prevp p h =
     (if h_size h p = nunits then (p, h\<lparr>h_ptr := (h_ptr h)(prevp := h_ptr h p), h_freep := prevp\<rparr>)
      else let rem = h_size h p - nunits; q = p + 8 * rem in
        (q, h\<lparr>h_size := (h_size h)(p := rem, q := nunits), h_freep := prevp\<rparr>))"

fun malloc_loop :: "nat \<Rightarrow> uint \<Rightarrow> uint \<Rightarrow> uint \<Rightarrow> uheap \<Rightarrow> (uint \<times> uheap) uprog" where
  "malloc_loop 0 nunits prevp p h = Bounded"
| "malloc_loop (Suc k) nunits prevp p h =
     (if h_size h p \<ge> nunits then (case take_block nunits prevp p h of (b, h) \<Rightarrow> Done (b + 8, h))
      else if p = h_freep h then ubind (morecore nunits h) (\<lambda>(q, h).
        if q = 0 then Done (0, h) else malloc_loop k nunits q (h_ptr h q) h)
      else malloc_loop k nunits p (h_ptr h p) h)"

definition malloc :: "nat \<Rightarrow> uint \<Rightarrow> uint \<Rightarrow> uheap \<Rightarrow> (uint \<times> uheap) uprog" where
  "malloc k base nbytes h = (let nunits = (nbytes + 8 - 1) div 8 + 1;
       h = (if h_freep h = 0 then h\<lparr>h_ptr := (h_ptr h)(base := base), h_freep := base, h_size := (h_size h)(base := 0)\<rparr> else h)
     in malloc_loop k nunits (h_freep h) (h_ptr h (h_freep h)) h)"

section \<open>The circular order\<close>

text \<open>\<open>b\<close> lies between \<open>p\<close> and its successor \<open>q\<close> on the circle of addresses.\<close>

definition betw :: "uint \<Rightarrow> uint \<Rightarrow> uint \<Rightarrow> bool" where
  "betw p b q \<longleftrightarrow> p < b \<and> b < q \<or> q \<le> p \<and> (p < b \<or> b < q)"

lemma unat_diff32: "unat (a - b :: uint) = (if b \<le> a then unat a - unat b else unat a + 4294967296 - unat b)"
  using unat_sub_if' [of a b] by (simp add: word_le_nat_alt)

lemma betw_dist:
  assumes "b \<noteq> p" shows "betw p b q \<longleftrightarrow> q = p \<or> unat (b - p) < unat (q - p)"
proof -
  obtain x y z where xyz: "x = unat p" "y = unat b" "z = unat q" by blast
  have "x < 4294967296" "y < 4294967296" "z < 4294967296" unfolding xyz by simp_all
  moreover have "y \<noteq> x" using assms unfolding xyz by (simp add: word_unat_eq_iff)
  ultimately show ?thesis
    unfolding betw_def unat_diff32 word_le_nat_alt word_less_nat_alt word_unat_eq_iff xyz [symmetric] by auto
qed

text \<open>The walk along the links ends: every step brings \<open>p\<close> nearer to \<open>bp\<close>.\<close>

lemma free_find_eq: "free_find nx bp p = (if betw p bp (nx p) then Some p else free_find nx bp (nx p))"
  unfolding betw_def by (subst free_find.simps) auto

lemma free_find_returns:
  assumes "\<And>a. a \<in> S \<Longrightarrow> nx a \<in> S" "bp \<notin> S" "p \<in> S"
  shows "\<exists>r \<in> S. free_find nx bp p = Some r \<and> betw r bp (nx r)"
  using assms(3)
proof (induction "unat (bp - p)" arbitrary: p rule: less_induct)
  case less
  show ?case
  proof (cases "betw p bp (nx p)")
    case True
    then show ?thesis using less.prems by (subst free_find_eq) auto
  next
    case False
    have ne: "bp \<noteq> p" "bp \<noteq> nx p" using assms less.prems by auto
    have "nx p \<noteq> p" "unat (nx p - p) \<le> unat (bp - p)" using False betw_dist [OF ne(1)] by auto
    moreover have "bp - nx p = (bp - p) - (nx p - p)" by simp
    moreover have "unat (nx p - p) \<noteq> 0" using \<open>nx p \<noteq> p\<close> by (simp add: unat_eq_0)
    ultimately have "unat (bp - nx p) < unat (bp - p)"
      by (metis (no_types, lifting) word_le_nat_alt diff_less unat_sub linorder_not_le not_less_zero le_zero_eq gr_zeroI)
    then show ?thesis using less.hyps [of "nx p"] assms(1) [OF less.prems] False by (subst free_find_eq) auto
  qed
qed

lemma betw_trans1: "betw p b bp \<Longrightarrow> betw p bp n \<Longrightarrow> betw p b n"
  unfolding betw_def by auto

lemma betw_trans2: "betw bp b n \<Longrightarrow> betw p bp n \<Longrightarrow> b \<noteq> p \<Longrightarrow> betw p b n"
  unfolding betw_def by auto

lemma betw_back: "betw p bp n \<Longrightarrow> \<not> betw bp p n"
  unfolding betw_def by auto

lemma betw_ends [simp]: "\<not> betw a a q" "\<not> betw a q q"
  unfolding betw_def by auto

lemma betw_unique:
  "betw p bp n \<Longrightarrow> betw a bp m \<Longrightarrow> a \<noteq> p \<Longrightarrow> \<not> betw p a n \<Longrightarrow> \<not> betw a p m \<Longrightarrow> False"
  unfolding betw_def by (cases "a < p"; cases "p < n"; cases "a < m") auto

lemma betw_split: "betw a b m \<Longrightarrow> b \<noteq> n \<Longrightarrow> betw a n m \<or> n = a \<Longrightarrow> betw a b n \<or> betw n b m"
  unfolding betw_def by auto

definition cyc :: "(uint \<Rightarrow> uint) \<Rightarrow> uint set \<Rightarrow> bool" where
  "cyc nx S \<longleftrightarrow> (\<forall>a \<in> S. nx a \<in> S \<and> (\<forall>b \<in> S. \<not> betw a b (nx a)))"

lemma cyc_insert:
  assumes c: "cyc nx S" and p: "p \<in> S" and bp: "bp \<notin> S" and b: "betw p bp (nx p)"
  shows "cyc (nx(bp := nx p, p := bp)) (insert bp S)"
proof -
  have np: "bp \<noteq> p" using p bp by blast
  have old: "\<not> betw a x (nx a)" if "a \<in> S" "x \<in> S" for a x using c that by (auto simp: cyc_def)
  have "\<not> betw p x bp" if "x \<in> insert bp S" for x using that betw_trans1 [OF _ b] old [OF p] by auto
  moreover have "\<not> betw bp x (nx p)" if "x \<in> insert bp S" for x
    using that betw_trans2 [OF _ b] old [OF p] betw_back [OF b] by auto
  moreover have "\<not> betw a x (nx a)" if "a \<in> S" "a \<noteq> p" "x \<in> insert bp S" for a x
    using that old betw_unique [OF b, of a "nx a"] p by auto
  ultimately show ?thesis using c p bp np by (auto simp: cyc_def)
qed

lemma betw_triangle: "a \<noteq> b \<Longrightarrow> \<not> betw b a m \<Longrightarrow> m \<noteq> b \<Longrightarrow> betw a b m"
  unfolding betw_def by auto

lemma betw_same_end: "x \<noteq> a \<Longrightarrow> \<not> betw x a b \<Longrightarrow> \<not> betw a x b \<Longrightarrow> x = b \<or> a = b"
  unfolding betw_def by auto

lemma betw_self: "a \<noteq> b \<Longrightarrow> betw b a b"
  unfolding betw_def by auto

lemma cyc_pred: "cyc nx S \<Longrightarrow> a \<in> S \<Longrightarrow> x \<in> S \<Longrightarrow> nx x = nx a \<Longrightarrow> nx a \<noteq> a \<Longrightarrow> x = a"
  unfolding cyc_def using betw_same_end [of x a "nx a"] betw_self [of a x] by metis

lemma cyc_remove:
  assumes c: "cyc nx S" and a: "a \<in> S" and ne: "nx a \<noteq> a"
  shows "cyc (nx(a := nx (nx a))) (S - {nx a})"
proof -
  let ?b = "nx a" and ?m = "nx (nx a)"
  have old: "\<not> betw x y (nx x)" if "x \<in> S" "y \<in> S" for x y using c that by (auto simp: cyc_def)
  have mem: "?b \<in> S" "?m \<in> S" using c a by (auto simp: cyc_def)
  have m: "?m \<noteq> ?b" using betw_self [of a ?b] old [OF mem(1) a] ne by auto
  have tri: "betw a ?b ?m" using betw_triangle [of a ?b ?m] old [OF mem(1) a] ne m by auto
  have "\<not> betw a x ?m" if "x \<in> S - {?b}" for x
    using that betw_split [of a x ?m ?b] tri old [OF a] old [OF mem(1)] by auto
  moreover have "nx x \<in> S - {?b}" if "x \<in> S" "x \<noteq> a" for x using that c cyc_pred [OF c a that(1)] ne by (auto simp: cyc_def)
  ultimately show ?thesis using old mem m by (auto simp: cyc_def)
qed

lemma cyc_cong: "cyc nx S \<Longrightarrow> (\<And>a. a \<in> S \<Longrightarrow> nx' a = nx a) \<Longrightarrow> cyc nx' S"
  by (auto simp: cyc_def)

section \<open>Blocks\<close>

definition sep :: "uint \<Rightarrow> (uint \<Rightarrow> uint) \<Rightarrow> uint set \<Rightarrow> bool" where
  "sep base sz S \<longleftrightarrow>
     (\<forall>a \<in> S. base \<le> a \<and> unat a + 8 * unat (sz a) < 4294967296 \<and> (a \<noteq> base \<longrightarrow> 0 < unat (sz a)))
     \<and> (\<forall>a \<in> S. \<forall>b \<in> S. a < b \<longrightarrow> unat a + 8 * max 1 (unat (sz a)) \<le> unat b)"

definition heap_ok :: "uint \<Rightarrow> uheap \<Rightarrow> uint set \<Rightarrow> bool" where
  "heap_ok base h S \<longleftrightarrow> base \<noteq> 0 \<and> base \<in> S \<and> h_size h base = 0 \<and> finite S \<and> h_freep h \<in> S
     \<and> cyc (h_ptr h) S \<and> sep base (h_size h) S"

definition block :: "uint \<Rightarrow> uint \<Rightarrow> nat set" where
  "block a n = {unat a ..< unat a + 8 * unat n}"

definition free_bytes :: "uheap \<Rightarrow> uint set \<Rightarrow> nat set" where
  "free_bytes h S = (\<Union>a \<in> S. block a (h_size h a))"

text \<open>A block apart from the free ones.\<close>

definition apart :: "uint \<Rightarrow> (uint \<Rightarrow> uint) \<Rightarrow> uint set \<Rightarrow> uint \<Rightarrow> uint \<Rightarrow> bool" where
  "apart base sz S bp n \<longleftrightarrow> base < bp \<and> 0 < unat n \<and> unat bp + 8 * unat n < 4294967296 \<and> bp \<notin> S
     \<and> (\<forall>a \<in> S. (a < bp \<longrightarrow> unat a + 8 * max 1 (unat (sz a)) \<le> unat bp) \<and> (bp < a \<longrightarrow> unat bp + 8 * unat n \<le> unat a))"

lemma unat_times8: "unat a + 8 * unat n < 4294967296 \<Longrightarrow> unat (a + 8 * n :: uint) = unat a + 8 * unat n"
proof -
  assume a: "unat a + 8 * unat n < 4294967296"
  have "unat (8 * n :: uint) = 8 * unat n" using a by (subst unat_mult_lem [THEN iffD1]) simp_all
  then show ?thesis using a by (subst unat_add_lem [THEN iffD1]) simp_all
qed

lemma sep_insert: "sep base sz S \<Longrightarrow> apart base sz S bp (sz bp) \<Longrightarrow> sep base sz (insert bp S)"
  unfolding sep_def apart_def by (auto simp: max_def)

lemma sep_subset: "sep base sz S \<Longrightarrow> T \<subseteq> S \<Longrightarrow> sep base sz T"
  unfolding sep_def by blast

lemma sep_cong: "sep base sz S \<Longrightarrow> (\<And>a. a \<in> S \<Longrightarrow> sz' a = sz a) \<Longrightarrow> sep base sz' S"
  unfolding sep_def by simp

text \<open>A block with its neighbour joined to it.\<close>

lemma sep_join:
  assumes s: "sep base sz S" and a: "a \<in> S" and b: "b \<in> S" "b = a + 8 * sz a" "b \<noteq> a"
  shows "sep base (sz(a := sz a + sz b)) (S - {b}) \<and> block a (sz a + sz b) = block a (sz a) \<union> block b (sz b)"
proof -
  have lim: "unat a + 8 * unat (sz a) < 4294967296" "unat b + 8 * unat (sz b) < 4294967296" using s a b(1) by (auto simp: sep_def)
  have ub: "unat b = unat a + 8 * unat (sz a)" using unat_times8 [OF lim(1)] b(2) by simp
  have sum: "unat (sz a + sz b) = unat (sz a) + unat (sz b)" using ub lim by (subst unat_add_lem [THEN iffD1]) simp_all
  have "0 < unat (sz a)" using ub b(3) by (auto simp: word_unat_eq_iff)
  then have ab: "a < b" using ub by (simp add: word_less_nat_alt)
  have gap: "unat a + 8 * max 1 (unat (sz a + sz b)) \<le> unat c" if "c \<in> S - {b}" "a < c" for c
  proof -
    have c: "unat a + 8 * max 1 (unat (sz a)) \<le> unat c" using s a that by (auto simp: sep_def)
    then have "b < c" using ub \<open>0 < unat (sz a)\<close> that by (simp add: word_less_nat_alt max_def word_unat_eq_iff split: if_splits)
    then have "unat b + 8 * max 1 (unat (sz b)) \<le> unat c" using s b(1) that by (auto simp: sep_def)
    then show ?thesis using ub sum \<open>0 < unat (sz a)\<close> by (simp add: max_def split: if_splits)
  qed
  have "sep base (sz(a := sz a + sz b)) (S - {b})"
    using s gap lim ub sum \<open>0 < unat (sz a)\<close> a unfolding sep_def by auto
  moreover have "block a (sz a + sz b) = block a (sz a) \<union> block b (sz b)" unfolding block_def ub sum by auto
  ultimately show ?thesis by blast
qed

lemma free_bytes_remove:
  "b \<in> S \<Longrightarrow> a \<in> S \<Longrightarrow> a \<noteq> b \<Longrightarrow> block a n = block a (h_size h a) \<union> block b (h_size h b) \<Longrightarrow>
     (\<Union>x \<in> S - {b}. block x (((h_size h)(a := n)) x)) = free_bytes h S"
proof -
  assume a: "b \<in> S" "a \<in> S" "a \<noteq> b" "block a n = block a (h_size h a) \<union> block b (h_size h b)"
  define R where "R = S - {a, b}"
  have S: "S - {b} = insert a R" "S = insert a (insert b R)" using a by (auto simp: R_def)
  have "(\<Union>x \<in> R. block x (((h_size h)(a := n)) x)) = (\<Union>x \<in> R. block x (h_size h x))" by (auto simp: R_def)
  moreover have "free_bytes h S = block a (h_size h a) \<union> block b (h_size h b) \<union> (\<Union>x \<in> R. block x (h_size h x))"
    unfolding free_bytes_def by (subst S(2)) auto
  ultimately show ?thesis unfolding S(1) using a(4) by simp
qed

text \<open>The two joins of \<open>free\<close>, on a list in which the block is already linked.\<close>

lemma join_next_spec:
  assumes ok: "heap_ok base h S" and ap: "apart base (h_size h) S bp (h_size h bp)"
    and p: "p \<in> S" "betw p bp (h_ptr h p)"
  obtains h1 T where "h1 = free_join_next bp p h" "cyc ((h_ptr h1)(p := bp)) T" "sep base (h_size h1) T" "finite T"
    "base \<in> T" "p \<in> T" "bp \<in> T" "T \<subseteq> insert bp S" "h_size h1 base = 0" "h_size h bp \<le> h_size h1 bp" "h_size h1 p = h_size h p"
    "free_bytes h1 T = free_bytes h S \<union> block bp (h_size h bp)"
proof -
  let ?n = "h_ptr h p" and ?S = "insert bp S"
  let ?nx = "(h_ptr h)(bp := ?n, p := bp)"
  have ok': "base \<in> S" "h_size h base = 0" "finite S" "cyc (h_ptr h) S" "sep base (h_size h) S" using ok by (auto simp: heap_ok_def)
  have bp: "bp \<notin> S" "base < bp" "unat bp + 8 * unat (h_size h bp) < 4294967296" "0 < unat (h_size h bp)"
    using ap by (auto simp: apart_def)
  have pb: "p \<noteq> bp" "base \<noteq> bp" using p bp ok' by auto
  have cyc1: "cyc ?nx ?S" by (rule cyc_insert [OF ok'(4) p(1) bp(1) p(2)])
  have sep1: "sep base (h_size h) ?S" by (rule sep_insert [OF ok'(5) ap])
  have bytes1: "free_bytes h ?S = free_bytes h S \<union> block bp (h_size h bp)" by (auto simp: free_bytes_def)
  show ?thesis
  proof (cases "bp + 8 * h_size h bp = ?n")
    case True
    let ?h = "h\<lparr>h_size := (h_size h)(bp := h_size h bp + h_size h ?n), h_ptr := (h_ptr h)(bp := h_ptr h ?n)\<rparr>"
    have n: "unat ?n = unat bp + 8 * unat (h_size h bp)" using unat_times8 [OF bp(3)] True by simp
    have nS: "?n \<in> S" using ok'(4) p by (auto simp: cyc_def)
    have nbp: "?n \<noteq> bp" "base < ?n" using nS bp n by (auto simp: word_less_nat_alt)
    have np: "?n \<noteq> p"
    proof
      assume "?n = p"
      then have "\<not> betw p base p" using ok'(1,4) p(1) by (auto simp: cyc_def)
      then show False using betw_self [of base p] \<open>?n = p\<close> nbp by auto
    qed
    note join = sep_join [OF sep1, of bp ?n, OF _ _ True [symmetric] nbp(1)]
    have "cyc (?nx(bp := ?nx ?n)) (?S - {?n})" using cyc_remove [OF cyc1, of bp] nbp pb by simp
    moreover have "?nx(bp := ?nx ?n) = (h_ptr ?h)(p := bp)" using np nbp pb by auto
    moreover have "free_bytes ?h (?S - {?n}) = free_bytes h S \<union> block bp (h_size h bp)"
      using free_bytes_remove [of ?n ?S bp "h_size h bp + h_size h ?n" h] join nS nbp bytes1 by (simp add: free_bytes_def)
    moreover have "h_size h bp \<le> h_size h bp + h_size h ?n"
    proof -
      have "unat ?n + 8 * unat (h_size h ?n) < 4294967296" using ok'(5) nS by (auto simp: sep_def)
      then show ?thesis using n by (simp add: word_le_nat_alt unat_add_lem [THEN iffD1])
    qed
    ultimately show ?thesis
      using that [of ?h "?S - {?n}"] join ok' p nS np nbp pb True by (auto simp: free_join_next_def Let_def)
  next
    case False
    let ?h = "h\<lparr>h_ptr := (h_ptr h)(bp := ?n)\<rparr>"
    show ?thesis using that [of ?h ?S] cyc1 sep1 ok' p pb False bytes1
      by (auto simp: free_join_next_def Let_def free_bytes_def fun_upd_twist)
  qed
qed

lemma free_spec:
  assumes ok: "heap_ok base h S" and ap: "apart base (h_size h) S bp (h_size h bp)"
  shows "\<exists>h' S'. free (bp + 8) h = Some h' \<and> heap_ok base h' S' \<and> S' \<subseteq> insert bp S \<and> (\<exists>a \<in> S'. h_size h bp \<le> h_size h' a)
    \<and> free_bytes h' S' = free_bytes h S \<union> block bp (h_size h bp)"
proof -
  have ok': "h_freep h \<in> S" "cyc (h_ptr h) S" "base \<noteq> 0" using ok by (auto simp: heap_ok_def)
  have "bp \<notin> S" using ap by (simp add: apart_def)
  then obtain p where p: "p \<in> S" "free_find (h_ptr h) bp (h_freep h) = Some p" "betw p bp (h_ptr h p)"
    using free_find_returns [of S "h_ptr h" bp "h_freep h"] ok' by (auto simp: cyc_def)
  obtain h1 T where h1: "h1 = free_join_next bp p h" "cyc ((h_ptr h1)(p := bp)) T" "sep base (h_size h1) T" "finite T"
    "base \<in> T" "p \<in> T" "bp \<in> T" "T \<subseteq> insert bp S" "h_size h1 base = 0" "h_size h bp \<le> h_size h1 bp" "h_size h1 p = h_size h p"
    "free_bytes h1 T = free_bytes h S \<union> block bp (h_size h bp)"
    by (rule join_next_spec [OF ok ap p(1,3)])
  have pb: "p \<noteq> bp" "bp \<noteq> base" using p(1) \<open>bp \<notin> S\<close> ap by (auto simp: apart_def)
  let ?h' = "(free_join_prev bp p h1)\<lparr>h_freep := p\<rparr>"
  have "free (bp + 8) h = Some ?h'" using p(2) h1(1) by (simp add: free_def)
  moreover have "\<exists>S'. heap_ok base ?h' S' \<and> S' \<subseteq> insert bp S \<and> (\<exists>a \<in> S'. h_size h bp \<le> h_size ?h' a) \<and> free_bytes ?h' S' = free_bytes h1 T"
  proof (cases "p + 8 * h_size h1 p = bp")
    case True
    note join = sep_join [OF h1(3) h1(6) h1(7) True [symmetric] pb(1) [symmetric]]
    have "cyc (((h_ptr h1)(p := bp))(p := ((h_ptr h1)(p := bp)) bp)) (T - {bp})"
      using cyc_remove [OF h1(2,6)] pb by simp
    then have "cyc ((h_ptr h1)(p := h_ptr h1 bp)) (T - {bp})" using pb by simp
    moreover have "p \<noteq> base" using True h1(9) pb by auto
    moreover have "h_size h1 bp \<le> h_size h1 p + h_size h1 bp"
    proof -
      have "unat p + 8 * unat (h_size h1 p) < 4294967296" "unat bp + 8 * unat (h_size h1 bp) < 4294967296"
        using h1(3,6,7) by (auto simp: sep_def)
      moreover have "unat bp = unat p + 8 * unat (h_size h1 p)" using unat_times8 [OF calculation(1)] True by simp
      ultimately show ?thesis by (simp add: word_le_nat_alt unat_add_lem [THEN iffD1])
    qed
    moreover have "free_bytes ?h' (T - {bp}) = free_bytes h1 T"
      using free_bytes_remove [of bp T p "h_size h1 p + h_size h1 bp" h1] join h1(6,7) pb True by (simp add: free_bytes_def free_join_prev_def)
    ultimately show ?thesis using True join h1 pb ok'(3)
      by (intro exI [of _ "T - {bp}"]) (auto simp: heap_ok_def free_join_prev_def intro!: bexI [of _ p] elim: order_trans)
  next
    case False
    then show ?thesis using h1 pb ok'(3)
      by (intro exI [of _ T]) (auto simp: heap_ok_def free_join_prev_def free_bytes_def)
  qed
  ultimately show ?thesis using h1(12) by auto
qed

section \<open>Taking a block\<close>

lemma sep_disjoint: "sep base sz S \<Longrightarrow> a \<in> S \<Longrightarrow> b \<in> S \<Longrightarrow> a \<noteq> b \<Longrightarrow> block a (sz a) \<inter> block b (sz b) = {}"
proof -
  assume s: "sep base sz S" and ab: "a \<in> S" "b \<in> S" "a \<noteq> b"
  have "unat a + 8 * unat (sz a) \<le> unat b \<or> unat b + 8 * unat (sz b) \<le> unat a"
  proof (cases "a < b")
    case True
    then have "unat a + 8 * max 1 (unat (sz a)) \<le> unat b" using s ab by (auto simp: sep_def)
    then show ?thesis by (simp add: max_def split: if_splits)
  next
    case False
    then have "unat b + 8 * max 1 (unat (sz b)) \<le> unat a" using s ab by (auto simp: sep_def)
    then show ?thesis by (simp add: max_def split: if_splits)
  qed
  then show ?thesis unfolding block_def by auto
qed

lemma sep_shrink:
  assumes s: "sep base sz S" and le: "\<And>a. a \<in> S \<Longrightarrow> unat (sz' a) \<le> unat (sz a) \<and> (a \<noteq> base \<longrightarrow> 0 < unat (sz' a))"
  shows "sep base sz' S"
proof -
  have "unat a + 8 * max 1 (unat (sz' a)) \<le> unat b" if "a \<in> S" "b \<in> S" "a < b" for a b
  proof -
    have "unat a + 8 * max 1 (unat (sz a)) \<le> unat b" using s that by (auto simp: sep_def)
    then show ?thesis using le [OF that(1)] by (simp add: max_def split: if_splits)
  qed
  moreover have "base \<le> a \<and> unat a + 8 * unat (sz' a) < 4294967296" if "a \<in> S" for a
  proof -
    have "base \<le> a \<and> unat a + 8 * unat (sz a) < 4294967296" using s that by (auto simp: sep_def)
    then show ?thesis using le [OF that] by linarith
  qed
  ultimately show ?thesis using le by (auto simp: sep_def)
qed

lemma single_ring: "cyc nx S \<Longrightarrow> a \<in> S \<Longrightarrow> nx a = a \<Longrightarrow> b \<in> S \<Longrightarrow> b = a"
  unfolding cyc_def using betw_self [of b a] by metis

lemma free_bytes_minus: "sep base (h_size h) S \<Longrightarrow> p \<in> S \<Longrightarrow> free_bytes h (S - {p}) = free_bytes h S - block p (h_size h p)"
  unfolding free_bytes_def using sep_disjoint [of base "h_size h" S] by fastforce

lemma free_bytes_insert: "p \<in> S \<Longrightarrow> free_bytes h S = block p (h_size h p) \<union> free_bytes h (S - {p})"
  by (auto simp: free_bytes_def)

lemma free_bytes_cong: "(\<And>a. a \<in> S \<Longrightarrow> h_size h a = h_size h' a) \<Longrightarrow> free_bytes h S = free_bytes h' S"
  by (simp add: free_bytes_def)

lemma apart_member:
  assumes s: "sep base sz S" and p: "p \<in> S" "p \<noteq> base"
  shows "apart base sz (S - {p}) p (sz p)"
proof -
  have b: "base \<le> p" "unat p + 8 * unat (sz p) < 4294967296" "0 < unat (sz p)" using s p by (auto simp: sep_def)
  moreover have "unat a + 8 * max 1 (unat (sz a)) \<le> unat p" if "a \<in> S" "a < p" for a using s p that by (auto simp: sep_def)
  moreover have "unat p + 8 * unat (sz p) \<le> unat a" if "a \<in> S" "p < a" for a
  proof -
    have "unat p + 8 * max 1 (unat (sz p)) \<le> unat a" using s p that by (auto simp: sep_def)
    then show ?thesis using b(3) by (simp add: max_def split: if_splits)
  qed
  ultimately show ?thesis using p(2) by (simp add: apart_def)
qed

definition took :: "uint \<Rightarrow> nat set \<Rightarrow> uint \<Rightarrow> uint \<Rightarrow> uheap \<Rightarrow> bool" where
  "took base F n b h' \<longleftrightarrow> (\<exists>S'. heap_ok base h' S' \<and> h_size h' b = n \<and> block b n \<subseteq> F
     \<and> free_bytes h' S' = F - block b n \<and> apart base (h_size h') S' b n)"

lemma take_whole:
  assumes ok: "heap_ok base h S" and pr: "prevp \<in> S" "p = h_ptr h prevp" and n: "0 < n" "h_size h p = n"
  shows "took base (free_bytes h S) n p (h\<lparr>h_ptr := (h_ptr h)(prevp := h_ptr h p), h_freep := prevp\<rparr>)"
proof -
  have ok': "base \<noteq> 0" "base \<in> S" "h_size h base = 0" "finite S" "cyc (h_ptr h) S" "sep base (h_size h) S" using ok by (auto simp: heap_ok_def)
  have p: "p \<in> S" "p \<noteq> base" using ok' pr n by (auto simp: cyc_def)
  have np: "h_ptr h prevp \<noteq> prevp" using single_ring [OF ok'(5) pr(1)] ok'(2) p pr by metis
  let ?h = "h\<lparr>h_ptr := (h_ptr h)(prevp := h_ptr h p), h_freep := prevp\<rparr>"
  have "heap_ok base ?h (S - {p})"
    using ok' p pr np cyc_remove [OF ok'(5) pr(1) np] sep_subset [OF ok'(6), of "S - {p}"] by (auto simp: heap_ok_def)
  moreover have "free_bytes ?h (S - {p}) = free_bytes h S - block p n"
    using free_bytes_minus [OF ok'(6) p(1)] n by (simp add: free_bytes_def)
  moreover have "block p n \<subseteq> free_bytes h S" using p n by (auto simp: free_bytes_def)
  ultimately show ?thesis using apart_member [OF ok'(6) p] n unfolding took_def by auto
qed

lemma split_block:
  assumes "unat p + 8 * unat s < 4294967296" "n < s" "0 < n"
  shows "unat (p + 8 * (s - n)) = unat p + 8 * (unat s - unat n)" "unat (s - n) = unat s - unat n" "0 < unat n" "unat n < unat s"
    "block p s = block p (s - n) \<union> block (p + 8 * (s - n)) n" "block p (s - n) \<inter> block (p + 8 * (s - n)) n = {}"
proof -
  show r: "unat (s - n) = unat s - unat n" using assms(2) by (simp add: unat_sub)
  show n: "0 < unat n" "unat n < unat s" using assms by (simp_all add: word_less_nat_alt unat_gt_0)
  show q: "unat (p + 8 * (s - n)) = unat p + 8 * (unat s - unat n)" using assms(1) r by (subst unat_times8) auto
  show "block p s = block p (s - n) \<union> block (p + 8 * (s - n)) n" "block p (s - n) \<inter> block (p + 8 * (s - n)) n = {}"
    unfolding block_def q r using n by auto
qed

lemma take_tail:
  assumes ok: "heap_ok base h S" and pr: "prevp \<in> S" "p = h_ptr h prevp" and n: "0 < n" "n < h_size h p"
  shows "took base (free_bytes h S) n (p + 8 * (h_size h p - n))
    (h\<lparr>h_size := (h_size h)(p := h_size h p - n, p + 8 * (h_size h p - n) := n), h_freep := prevp\<rparr>)"
proof -
  have ok': "base \<noteq> 0" "base \<in> S" "h_size h base = 0" "finite S" "cyc (h_ptr h) S" "sep base (h_size h) S" using ok by (auto simp: heap_ok_def)
  have p: "p \<in> S" "p \<noteq> base" using ok' pr n by (auto simp: cyc_def)
  have lim: "unat p + 8 * unat (h_size h p) < 4294967296" "base \<le> p" using ok'(6) p by (auto simp: sep_def)
  let ?q = "p + 8 * (h_size h p - n)" and ?sz = "(h_size h)(p := h_size h p - n)"
  note sp = split_block [OF lim(1) n(2,1)]
  have above: "unat p + 8 * unat (h_size h p) \<le> unat a" if "a \<in> S" "p < a" for a
    using ok'(6) p(1) that by (fastforce simp: sep_def max_def split: if_splits)
  have below: "unat a + 8 * max 1 (unat (h_size h a)) \<le> unat p" if "a \<in> S" "a < p" for a
    using ok'(6) p(1) that by (auto simp: sep_def)
  have pq: "p < ?q" using sp by (simp add: word_less_nat_alt)
  have qS: "?q \<notin> S" using above [of ?q] pq sp by auto
  let ?h = "h\<lparr>h_size := (h_size h)(p := h_size h p - n, ?q := n), h_freep := prevp\<rparr>"
  have eq: "a \<in> S \<Longrightarrow> h_size ?h a = ?sz a" for a using qS by auto
  have "unat (?sz a) \<le> unat (h_size h a) \<and> (a \<noteq> base \<longrightarrow> 0 < unat (?sz a))" if "a \<in> S" for a
    using sp ok'(6) that by (auto simp: sep_def)
  then have "sep base ?sz S" by (rule sep_shrink [OF ok'(6)])
  then have s: "sep base (h_size ?h) S" by (rule sep_cong) (use eq in auto)
  then have "heap_ok base ?h S" using ok' pr eq p by (auto simp: heap_ok_def)
  moreover have "free_bytes ?h S = free_bytes h S - block ?q n"
  proof -
    have "free_bytes ?h (S - {p}) = free_bytes h (S - {p})" by (rule free_bytes_cong) (use eq in auto)
    then have "free_bytes ?h S = block p (h_size h p - n) \<union> free_bytes h (S - {p})"
      using free_bytes_insert [OF p(1), of ?h] eq [OF p(1)] by simp
    moreover have "free_bytes h S = block p (h_size h p) \<union> free_bytes h (S - {p})" by (rule free_bytes_insert [OF p(1)])
    moreover have "free_bytes h (S - {p}) \<inter> block p (h_size h p) = {}" using free_bytes_minus [OF ok'(6) p(1)] by auto
    ultimately show ?thesis using sp(5,6) by auto
  qed
  moreover have "block ?q n \<subseteq> free_bytes h S" using sp(5) p by (auto simp: free_bytes_def)
  moreover have "apart base (h_size ?h) S ?q n"
  proof -
    have "unat a + 8 * max 1 (unat (h_size ?h a)) \<le> unat ?q" if a: "a \<in> S" "a < ?q" for a
    proof (cases rule: linorder_cases [of a p])
      case less
      then show ?thesis using below [OF a(1)] eq [OF a(1)] sp by simp
    next
      case equal
      then show ?thesis using eq [OF a(1)] sp by (simp add: max_def)
    next
      case greater
      then show ?thesis using above [OF a(1)] a(2) sp by (simp add: word_less_nat_alt)
    qed
    moreover have "unat ?q + 8 * unat n \<le> unat a" if a: "a \<in> S" "?q < a" for a
    proof -
      have "p < a" using pq a(2) by (rule less_trans)
      then have "unat p + 8 * unat (h_size h p) \<le> unat a" by (rule above [OF a(1)])
      then show ?thesis unfolding sp(1) using sp(4) by simp
    qed
    moreover have "base < ?q" using lim(2) pq by simp
    moreover have "unat ?q + 8 * unat n < 4294967296" using sp lim(1) by simp
    ultimately show ?thesis unfolding apart_def using qS sp(3) by blast
  qed
  ultimately show ?thesis unfolding took_def by auto
qed

lemma take_block_spec:
  assumes "heap_ok base h S" "prevp \<in> S" "p = h_ptr h prevp" "0 < n" "n \<le> h_size h p" "take_block n prevp p h = (b, h')"
  shows "took base (free_bytes h S) n b h'"
proof (cases "h_size h p = n")
  case True
  then show ?thesis using take_whole [OF assms(1-4) True] assms(6) unfolding take_block_def by auto
next
  case False
  then have "n < h_size h p" using assms(5) by simp
  from take_tail [OF assms(1-4) this] show ?thesis using False assms(6) unfolding take_block_def Let_def by auto
qed

section \<open>The search\<close>

text \<open>The distance to \<open>t\<close> along the circle, and what one link does to it.\<close>

definition dist :: "uint \<Rightarrow> uint \<Rightarrow> nat" where
  "dist t x = unat (t - x)"

lemma dist_step:
  assumes c: "cyc nx S" and S: "p \<in> S" "t \<in> S" and ne: "p \<noteq> t"
  shows "dist t (nx p) < dist t p" "a \<in> S \<Longrightarrow> dist t (nx p) < dist t a \<Longrightarrow> a = p \<or> dist t p < dist t a"
proof -
  have diff: "unat (x - p) = dist t p - dist t x" if "dist t x \<le> dist t p" for x
  proof -
    have "x - p = (t - p) - (t - x)" by simp
    then show ?thesis using that unat_sub [of "t - x" "t - p"] by (simp add: dist_def word_le_nat_alt)
  qed
  have nb: "\<not> betw p t (nx p)" using c S by (auto simp: cyc_def)
  then have le: "unat (nx p - p) \<le> dist t p" "nx p \<noteq> p" using betw_dist [of t p "nx p"] ne by (auto simp: dist_def)
  have "dist t (nx p) = dist t p - unat (nx p - p)"
  proof -
    have "t - nx p = (t - p) - (nx p - p)" by simp
    then show ?thesis using le(1) unat_sub [of "nx p - p" "t - p"] by (simp add: dist_def word_le_nat_alt)
  qed
  moreover have "0 < unat (nx p - p)" using le(2) by (simp add: unat_gt_0)
  ultimately show less: "dist t (nx p) < dist t p" using le(1) by linarith
  assume a: "a \<in> S" "dist t (nx p) < dist t a"
  show "a = p \<or> dist t p < dist t a"
  proof (rule ccontr)
    assume n: "\<not> (a = p \<or> dist t p < dist t a)"
    then have "unat (nx p - p) \<le> unat (a - p)" using c S a betw_dist [of a p "nx p"] by (auto simp: cyc_def)
    moreover have "unat (a - p) = dist t p - dist t a" "unat (nx p - p) = dist t p - dist t (nx p)" "dist t a \<le> dist t p"
      using diff [of a] diff [of "nx p"] n less by simp_all
    ultimately show False using a(2) by linarith
  qed
qed

lemma dist_first:
  assumes c: "cyc nx S" and S: "t \<in> S" "a \<in> S"
  shows "dist t a \<le> dist t (nx t)"
proof (cases "a = t \<or> nx t = t")
  case True
  then have "a = t" using single_ring [OF c S(1) _ S(2)] by auto
  then show ?thesis by (simp add: dist_def)
next
  case False
  have flip: "unat (t - x) = 4294967296 - unat (x - t)" if "x \<noteq> t" for x
  proof -
    obtain u v where uv: "u = unat t" "v = unat x" by blast
    have "u < 4294967296" "v < 4294967296" "v \<noteq> u" using that unfolding uv by (simp_all add: word_unat_eq_iff)
    then show ?thesis unfolding unat_diff32 word_le_nat_alt uv [symmetric] by auto
  qed
  have "unat (nx t - t) \<le> unat (a - t)" using False c S betw_dist [of a t "nx t"] by (auto simp: cyc_def)
  then show ?thesis using False flip by (simp add: dist_def)
qed

lemma search:
  assumes ok: "heap_ok base h S" and t: "t = h_freep h"
  shows "prevp \<in> S \<Longrightarrow> p = h_ptr h prevp \<Longrightarrow> card {x \<in> S. dist t x < dist t p} < k \<Longrightarrow>
    \<forall>a \<in> S. dist t p < dist t a \<longrightarrow> h_size h a < n \<Longrightarrow>
    (\<exists>q \<in> S. n \<le> h_size h (h_ptr h q) \<and>
       malloc_loop k n prevp p h = (case take_block n q (h_ptr h q) h of (b, h') \<Rightarrow> Done (b + 8, h')))
    \<or> ((\<forall>a \<in> S. h_size h a < n) \<and> (\<exists>j. k \<le> j + card {x \<in> S. dist t x < dist t p} + 1 \<and>
       malloc_loop k n prevp p h = ubind (morecore n h) (\<lambda>(q, h). if q = 0 then Done (0, h) else malloc_loop j n q (h_ptr h q) h)))"
proof (induction k arbitrary: prevp p)
  case (Suc k)
  have ok': "finite S" "cyc (h_ptr h) S" "t \<in> S" using ok t by (auto simp: heap_ok_def)
  have p: "p \<in> S" using Suc.prems ok' by (auto simp: cyc_def)
  show ?case
  proof (cases "n \<le> h_size h p")
    case True
    then show ?thesis using Suc.prems(1,2) by auto
  next
    case small: False
    show ?thesis
    proof (cases "p = t")
      case True
      have "\<forall>a \<in> S. h_size h a < n"
        using Suc.prems(4) small True by (metis dist_def gr_zeroI linorder_not_le right_minus_eq unat_0 unat_eq_0)
      then show ?thesis using small True t by (intro disjI2 conjI exI [of _ k]) auto
    next
      case False
      note d = dist_step [OF ok'(2) p ok'(3) False]
      have "{x \<in> S. dist t x < dist t (h_ptr h p)} \<subset> {x \<in> S. dist t x < dist t p}"
        using d(1) p ok'(2) by (auto simp: cyc_def)
      then have card: "card {x \<in> S. dist t x < dist t (h_ptr h p)} < card {x \<in> S. dist t x < dist t p}"
        using ok'(1) by (intro psubset_card_mono) auto
      have "\<forall>a \<in> S. dist t (h_ptr h p) < dist t a \<longrightarrow> h_size h a < n" using d(2) Suc.prems(4) small by (metis linorder_not_le)
      note IH = Suc.IH [OF p refl _ this]
      have step: "malloc_loop (Suc k) n prevp p h = malloc_loop k n p (h_ptr h p) h" using small False t by simp
      have k: "k \<le> j + card {x \<in> S. dist t x < dist t (h_ptr h p)} + 1 \<Longrightarrow> Suc k \<le> j + card {x \<in> S. dist t x < dist t p} + 1" for j
        using card by linarith
      have "card {x \<in> S. dist t x < dist t (h_ptr h p)} < k" using card Suc.prems(3) by simp
      from IH [OF this] show ?thesis unfolding step using k by blast
    qed
  qed
qed simp

lemma malloc_round:
  assumes ok: "heap_ok base h S" and k: "card S \<le> k" and n: "0 < n"
  shows "(\<exists>b h'. malloc_loop k n (h_freep h) (h_ptr h (h_freep h)) h = Done (b + 8, h') \<and> took base (free_bytes h S) n b h')
    \<or> ((\<forall>a \<in> S. h_size h a < n) \<and> (\<exists>j. k \<le> j + card S \<and> malloc_loop k n (h_freep h) (h_ptr h (h_freep h)) h =
       ubind (morecore n h) (\<lambda>(q, h). if q = 0 then Done (0, h) else malloc_loop j n q (h_ptr h q) h)))"
proof -
  let ?t = "h_freep h"
  let ?C = "{x \<in> S. dist ?t x < dist ?t (h_ptr h ?t)}"
  have ok': "finite S" "cyc (h_ptr h) S" "?t \<in> S" using ok by (auto simp: heap_ok_def)
  have "?C \<subset> S" using ok' by (auto simp: cyc_def)
  then have card: "card ?C < card S" using ok'(1) by (rule psubset_card_mono [rotated])
  have "\<forall>a \<in> S. dist ?t (h_ptr h ?t) < dist ?t a \<longrightarrow> h_size h a < n" using dist_first [OF ok'(2,3)] by fastforce
  from search [OF ok refl ok'(3) refl _ this, of k] card k
  consider q where "q \<in> S" "n \<le> h_size h (h_ptr h q)"
      "malloc_loop k n ?t (h_ptr h ?t) h = (case take_block n q (h_ptr h q) h of (b, h') \<Rightarrow> Done (b + 8, h'))"
    | j where "\<forall>a \<in> S. h_size h a < n" "k \<le> j + card ?C + 1" "malloc_loop k n ?t (h_ptr h ?t) h =
       ubind (morecore n h) (\<lambda>(q, h). if q = 0 then Done (0, h) else malloc_loop j n q (h_ptr h q) h)" by auto
  then show ?thesis
  proof cases
    case 1
    obtain b h' where "take_block n q (h_ptr h q) h = (b, h')" by fastforce
    then show ?thesis using take_block_spec [OF ok 1(1) refl n 1(2)] 1(3) by auto
  next
    case 2
    then show ?thesis using card by (intro disjI2 conjI exI [of _ j]) auto
  qed
qed

section \<open>Properties\<close>

definition heap_start :: "uint \<Rightarrow> uheap \<Rightarrow> uheap" where
  "heap_start base h =
     (if h_freep h = 0 then h\<lparr>h_ptr := (h_ptr h)(base := base), h_freep := base, h_size := (h_size h)(base := 0)\<rparr> else h)"

definition core_units :: "uint \<Rightarrow> uint" where
  "core_units n = (if n < 4096 then 4096 else n)"

definition units :: "uint \<Rightarrow> uint" where
  "units nbytes = (nbytes + 8 - 1) div 8 + 1"

lemma malloc_start: "malloc k base nbytes h = malloc_loop k (units nbytes) (h_freep (heap_start base h)) (h_ptr (heap_start base h) (h_freep (heap_start base h))) (heap_start base h)"
  by (simp add: malloc_def heap_start_def Let_def units_def)

lemma units_enough:
  assumes "unat nbytes < 268435456"
  shows "0 < units nbytes" "unat nbytes \<le> 8 * (unat (units nbytes) - 1)"
proof -
  have "unat (nbytes + 7) = unat nbytes + 7" using assms by (subst unat_add_lem [THEN iffD1]) simp_all
  then have d: "unat ((nbytes + 7) div 8) = (unat nbytes + 7) div 8" by (simp add: unat_div)
  have "unat ((nbytes + 7) div 8 + 1) = (unat nbytes + 7) div 8 + 1" using assms d by (subst unat_add_lem [THEN iffD1]) simp_all
  then have u: "unat (units nbytes) = (unat nbytes + 7) div 8 + 1" by (simp add: units_def add.commute)
  show "unat nbytes \<le> 8 * (unat (units nbytes) - 1)" unfolding u by simp
  have "0 < unat (units nbytes)" unfolding u by simp
  then show "0 < units nbytes" by (simp add: word_less_nat_alt)
qed

lemma morecore_run:
  assumes ok: "heap_ok base h S" and v: "v = sr_val (fst (env (Sbrk (core_units n * 8)) w))"
    and ap: "v = - 1 \<or> apart base (h_size h) S (of_int v) (core_units n)"
  shows "run env (morecore n h) w = (Returns (0, h), snd (env (Sbrk (core_units n * 8)) w))
    \<or> (\<exists>h' S'. run env (morecore n h) w = (Returns (h_freep h', h'), snd (env (Sbrk (core_units n * 8)) w)) \<and> heap_ok base h' S'
       \<and> S' \<subseteq> insert (of_int v) S \<and> (\<exists>a \<in> S'. core_units n \<le> h_size h' a)
       \<and> free_bytes h' S' = free_bytes h S \<union> block (of_int v) (core_units n))"
proof (cases "v = - 1")
  case True
  then show ?thesis using v by (simp add: morecore_def Let_def sys_def core_units_def)
next
  case False
  let ?hp = "of_int v :: uint"
  let ?h = "h\<lparr>h_size := (h_size h)(?hp := core_units n)\<rparr>"
  have a: "apart base (h_size h) S ?hp (core_units n)" using ap False by simp
  then have hp: "?hp \<notin> S" by (simp add: apart_def)
  then have S: "a \<in> S \<Longrightarrow> h_size ?h a = h_size h a" for a by auto
  have ok': "heap_ok base ?h S" using ok S hp sep_cong [of base "h_size h" S "h_size ?h"] by (auto simp: heap_ok_def)
  have a': "apart base (h_size ?h) S ?hp (h_size ?h ?hp)" using a S by (simp add: apart_def)
  obtain h' S' where h': "free (?hp + 8) ?h = Some h'" "heap_ok base h' S'" "S' \<subseteq> insert ?hp S" "\<exists>a \<in> S'. core_units n \<le> h_size h' a"
    "free_bytes h' S' = free_bytes ?h S \<union> block ?hp (core_units n)" using free_spec [OF ok' a'] by auto
  moreover have "free_bytes ?h S = free_bytes h S" by (rule free_bytes_cong) (rule S)
  moreover have "run env (morecore n h) w = (Returns (h_freep h', h'), snd (env (Sbrk (core_units n * 8)) w))"
    using h'(1) False v by (simp add: morecore_def Let_def sys_def core_units_def)
  ultimately show ?thesis by auto
qed


definition zero_heap :: uheap where
  "zero_heap = \<lparr>h_ptr = (\<lambda>_. 0), h_size = (\<lambda>_. 0), h_freep = 0\<rparr>"

definition grow_at_4096 :: "sysreq \<Rightarrow> unit \<Rightarrow> sysret \<times> unit" where
  "grow_at_4096 r w = (\<lparr>sr_val = 4096, sr_buf = [], sr_fds = (0, 0), sr_stat = \<lparr>st_type = 0, st_dev = 0, st_ino = 0, st_nlink = 0, st_size = 0\<rparr>,
     sr_date = \<lparr>rd_second = 0, rd_minute = 0, rd_hour = 0, rd_day = 0, rd_month = 0, rd_year = 0\<rparr>, sr_procs = []\<rparr>, w)"


end
