(* ===== verification/Boot.thy ===== *)
theory Boot
  imports Syscall
begin

unbundle bit_operations_syntax

text \<open>
  The start of the kernel: the search for the CPUs (\<open>mp.c\<close>, \<open>mp.h\<close>), the rest of \<open>ioapic.c\<close>, the tables of gates
  (\<open>tvinit\<close> and \<open>idtinit\<close> of \<open>trap.c\<close>) and segments (\<open>seginit\<close> of \<open>vm.c\<close>), and \<open>main.c\<close>. What the linker
  provides, the addresses of code and data and the two small images, is the record \<open>linked\<close>, a parameter.
  The code that another CPU runs while \<open>startothers\<close> waits for it is run in place of the wait.
\<close>

record linked =
  l_vectors :: "nat \<Rightarrow> uint"
  l_cpu :: "nat \<Rightarrow> uint"
  l_entryother :: "u8 list"
  l_mpenter :: uint
  l_entrypgdir :: uint
  l_initcode :: "u8 list"

section \<open>The CPUs of the machine\<close>

definition NCPU :: nat where
  "NCPU = 8"

definition mpbcpu :: "('z kcore_scheme, nat) km" where
  "mpbcpu = the_hw bcpu"

text \<open>\<open>sum\<close>, in bytes from the start: the sum of \<open>int\<close>s is cut to a byte at the end.\<close>

definition sum_bytes :: "bmem \<Rightarrow> uint \<Rightarrow> nat \<Rightarrow> u8" where
  "sum_bytes m addr len = of_nat (\<Sum>i \<leftarrow> [0..<len]. unat (m (addr + of_nat i)))"

definition mem_is :: "bmem \<Rightarrow> uint \<Rightarrow> string \<Rightarrow> bool" where
  "mem_is m p str \<longleftrightarrow> map (\<lambda>i. m (p + of_nat i)) [0..<length str] = codes str"

text \<open>
  The floating pointer \<open>struct mp\<close> has 16 bytes, the header \<open>struct mpconf\<close> of the table 44, an entry for a CPU 20
  and any other entry 8. The fields are read at their offsets.
\<close>

definition load16 :: "bmem \<Rightarrow> uint \<Rightarrow> u16" where
  "load16 m a = ucast (m a) OR push_bit 8 (ucast (m (a + 1)))"

definition mp_physaddr :: "bmem \<Rightarrow> uint \<Rightarrow> uint" where
  "mp_physaddr m p = load32 m (p + 4)"

definition mp_imcrp :: "bmem \<Rightarrow> uint \<Rightarrow> u8" where
  "mp_imcrp m p = m (p + 12)"

definition mpconf_length :: "bmem \<Rightarrow> uint \<Rightarrow> u16" where
  "mpconf_length m p = load16 m (p + 4)"

definition mpconf_version :: "bmem \<Rightarrow> uint \<Rightarrow> u8" where
  "mpconf_version m p = m (p + 6)"

definition mpconf_lapicaddr :: "bmem \<Rightarrow> uint \<Rightarrow> uint" where
  "mpconf_lapicaddr m p = load32 m (p + 36)"

text \<open>The search goes through the \<open>len\<close> bytes in steps of 16, so one round more than a sixteenth of \<open>len\<close> is enough.\<close>

fun mpsearch1_loop :: "nat \<Rightarrow> bmem \<Rightarrow> uint \<Rightarrow> uint \<Rightarrow> uint option" where
  "mpsearch1_loop 0 m p e = None"
| "mpsearch1_loop (Suc n) m p e = (if \<not> p < e then None
     else if mem_is m p ''_MP_'' \<and> sum_bytes m p 16 = 0 then Some p else mpsearch1_loop n m (p + 16) e)"

definition mpsearch1 :: "bmem \<Rightarrow> uint \<Rightarrow> uint \<Rightarrow> uint option" where
  "mpsearch1 m a len = (let addr = p2v a in mpsearch1_loop (Suc (unat len div 16)) m addr (addr + len))"

definition mpsearch :: "bmem \<Rightarrow> uint option" where
  "mpsearch m = (let bda = p2v 0x400;
       p = push_bit 4 (push_bit 8 (ucast (m (bda + 0x0F))) OR ucast (m (bda + 0x0E)));
       q = (push_bit 8 (ucast (m (bda + 0x14))) OR ucast (m (bda + 0x13))) * 1024 in
     case (if p \<noteq> 0 then mpsearch1 m p 1024 else mpsearch1 m (q - 1024) 1024) of
       Some mp \<Rightarrow> Some mp
     | None \<Rightarrow> mpsearch1 m 0xF0000 0x10000)"

definition mpconfig :: "bmem \<Rightarrow> (uint \<times> uint) option" where
  "mpconfig m = (case mpsearch m of None \<Rightarrow> None | Some mp \<Rightarrow>
     if mp_physaddr m mp = 0 then None
     else let conf = p2v (mp_physaddr m mp) in
     if \<not> mem_is m conf ''PCMP'' then None
     else if mpconf_version m conf \<noteq> 1 \<and> mpconf_version m conf \<noteq> 4 then None
     else if sum_bytes m conf (unat (mpconf_length m conf)) \<noteq> 0 then None
     else Some (mp, conf))"

definition MPPROC :: u8 where
  "MPPROC = 0"

definition MPBUS :: u8 where
  "MPBUS = 1"

definition MPIOAPIC :: u8 where
  "MPIOAPIC = 2"

definition MPIOINTR :: u8 where
  "MPIOINTR = 3"

definition MPLINTR :: u8 where
  "MPLINTR = 4"

abbreviation (input) MPBOOT :: u8 where
  "MPBOOT \<equiv> 2"

text \<open>One entry for a CPU. There is no slot in \<open>cpus\<close> beyond the first \<open>NCPU\<close>.\<close>

definition mpproc_entry :: "uint \<Rightarrow> ('z cstate_scheme, unit) km" where
  "mpproc_entry p = kbind (kget mem) (\<lambda>m. kbind (the_hw ncpu) (\<lambda>n. kdo [
     (if of_nat n \<noteq> (ucast (m (p + 1)) :: uint) then kdo [
        cprintf (''mpinit: ncpu=%d apicid=%d'' @ nl) [PInt (of_nat n), PInt (ucast (m (p + 1)))],
        upd_hw (\<lambda>h. h\<lparr>ismp := False\<rparr>)] else kret ()),
     (if m (p + 3) AND MPBOOT \<noteq> 0 then upd_hw (\<lambda>h. h\<lparr>bcpu := n\<rparr>) else kret ()),
     (if n \<ge> NCPU then kfault ''cpus'' else upd_hw (\<lambda>h. h\<lparr>cpu_ids := (cpu_ids h)(n := of_nat n)\<rparr>)),
     upd_hw (\<lambda>h. h\<lparr>ncpu := n + 1\<rparr>)]))"

text \<open>
  The walk through the entries. An entry has at least 8 bytes and the table at most \<open>2 ^ 16\<close>, so a walk that moves on
  at every entry ends within \<open>2 ^ 13\<close> rounds.
\<close>

fun mpinit_loop :: "nat \<Rightarrow> uint \<Rightarrow> uint \<Rightarrow> ('z cstate_scheme, unit) km" where
  "mpinit_loop 0 p e = khang ''mpinit''"
| "mpinit_loop (Suc n) p e = (if \<not> p < e then kret () else kbind (kget (\<lambda>s. mem s p)) (\<lambda>type.
     if type = MPPROC then kthen (mpproc_entry p) (mpinit_loop n (p + 20) e)
     else if type = MPIOAPIC then
       kthen (kbind (kget mem) (\<lambda>m. upd_hw (\<lambda>h. h\<lparr>ioapicid := m (p + 1)\<rparr>))) (mpinit_loop n (p + 8) e)
     else if type = MPBUS \<or> type = MPIOINTR \<or> type = MPLINTR then mpinit_loop n (p + 8) e
     else kthen (cprintf (''mpinit: unknown config type %x'' @ nl) [PInt (ucast type)])
       (kthen (upd_hw (\<lambda>h. h\<lparr>ismp := False\<rparr>)) (mpinit_loop n p e))))"

definition mpinit :: "('z cstate_scheme, unit) km" where
  "mpinit = kthen (upd_hw (\<lambda>h. h\<lparr>bcpu := 0\<rparr>)) (kbind (kget mem) (\<lambda>m. case mpconfig m of
     None \<Rightarrow> kret ()
   | Some (mp, conf) \<Rightarrow> kdo [
       upd_hw (\<lambda>h. h\<lparr>ismp := True\<rparr>),
       upd_hw (\<lambda>h. h\<lparr>lapic := mpconf_lapicaddr m conf\<rparr>),
       mpinit_loop (2 ^ 13 + 1) (conf + 44) (conf + ucast (mpconf_length m conf)),
       kbind (the_hw ismp) (\<lambda>ok. if \<not> ok then
           upd_hw (\<lambda>h. h\<lparr>ncpu := 1, lapic := 0, ioapicid := 0\<rparr>)
         else kbind (kget (\<lambda>s. mp_imcrp (mem s) mp)) (\<lambda>i. if i = 0 then kret () else kdo [
           outb 0x22 0x70,
           kbind (inb 0x23) (\<lambda>b. outb 0x23 (b OR 1))]))]))"

section \<open>The I/O APIC, gates and segments\<close>

definition ioapicinit :: "('z cstate_scheme, unit) km" where
  "ioapicinit = kbind (the_hw ismp) (\<lambda>mp. if \<not> mp then kret () else kdo [
     upd_hw (\<lambda>h. h\<lparr>ioapic := IOAPIC\<rparr>),
     kbind (ioapicread REG_VER) (\<lambda>v. kbind (ioapicread REG_ID) (\<lambda>r. kbind (the_hw ioapicid) (\<lambda>id. kdo [
       (if drop_bit 24 r \<noteq> ucast id
        then cprintf (''ioapicinit: id isn'' @ [CHR 0x27] @ ''t equal to ioapicid; not a MP'' @ nl) [] else kret ()),
       kfor [0..<Suc (unat (drop_bit 16 v AND 0xFF))] (\<lambda>i. kdo [
         ioapicwrite (REG_TABLE + 2 * of_nat i) (INT_DISABLED OR of_nat (T_IRQ0 + i)),
         ioapicwrite (REG_TABLE + 2 * of_nat i + 1) 0])])))])"

abbreviation (input) SEG_KCODE :: nat where
  "SEG_KCODE \<equiv> 1"

abbreviation (input) SEG_KDATA :: nat where
  "SEG_KDATA \<equiv> 2"

abbreviation (input) SEG_KCPU :: nat where
  "SEG_KCPU \<equiv> 3"

abbreviation (input) SEG_UCODE :: nat where
  "SEG_UCODE \<equiv> 4"

abbreviation (input) SEG_UDATA :: nat where
  "SEG_UDATA \<equiv> 5"

abbreviation (input) T_SYSCALL :: nat where
  "T_SYSCALL \<equiv> 64"

definition set_gate :: "nat \<Rightarrow> gatedesc \<Rightarrow> ('z kcore_scheme, unit) km" where
  "set_gate i g = upd_hw (\<lambda>h. h\<lparr>idt := (idt h)(i := g)\<rparr>)"

definition tvinit :: "linked \<Rightarrow> ('z kcore_scheme, unit) km" where
  "tvinit L = kdo [
     kfor [0..<256] (\<lambda>i. set_gate i (SETGATE False (push_bit 3 (of_nat SEG_KCODE)) (l_vectors L i) 0)),
     set_gate T_SYSCALL (SETGATE True (push_bit 3 (of_nat SEG_KCODE)) (l_vectors L T_SYSCALL) 3),
     kmod (\<lambda>s. s\<lparr>owner := (owner s)(TicksLock := None)\<rparr>)]"

definition idtinit :: "('z kcore_scheme, unit) km" where
  "idtinit = kbind (kget cpuid) (\<lambda>c. upd_hw (\<lambda>h. h\<lparr>idtr := (idtr h)(c := True)\<rparr>))"

definition set_segment :: "nat \<Rightarrow> nat \<Rightarrow> segdesc \<Rightarrow> ('z kcore_scheme, unit) km" where
  "set_segment c i d = upd_hw (\<lambda>h. h\<lparr>cpu_gdt := (cpu_gdt h)(c := (cpu_gdt h c)(i := d))\<rparr>)"

text \<open>\<open>seginit\<close>; loading the two segment registers is not modelled.\<close>

definition seginit :: "linked \<Rightarrow> ('z ptable_scheme, unit) km" where
  "seginit L = kbind cpunum (\<lambda>c. kdo [
     set_segment c SEG_KCODE (SEG (8 OR 2) 0 0xffffffff 0),
     set_segment c SEG_KDATA (SEG 2 0 0xffffffff 0),
     set_segment c SEG_UCODE (SEG (8 OR 2) 0 0xffffffff 3),
     set_segment c SEG_UDATA (SEG 2 0 0xffffffff 3),
     set_segment c SEG_KCPU (SEG 2 (l_cpu L c) 8 0),
     set_cproc None])"

section \<open>The start of the kernel\<close>

definition pinit :: "('z kcore_scheme, unit) km" where
  "pinit = kmod (\<lambda>s. s\<lparr>owner := (owner s)(PtableLock := None)\<rparr>)"

text \<open>\<open>mpmain\<close> up to the call of \<open>scheduler\<close>.\<close>

definition mpmain :: "('z cstate_scheme, unit) km" where
  "mpmain = kbind (kget cpuid) (\<lambda>c. kbind (the_hw (\<lambda>h. cpu_ids h c)) (\<lambda>id. kdo [
     cprintf (''cpu%d: starting'' @ nl) [PInt (ucast id)],
     idtinit,
     upd_hw (\<lambda>h. h\<lparr>cpu_started := (cpu_started h)(c := True)\<rparr>)]))"

definition mpenter :: "linked \<Rightarrow> ('z cstate_scheme, unit) km" where
  "mpenter L = kdo [switchkvm, seginit L, lapicinit, mpmain]"

text \<open>Code that another CPU runs while this one waits for it.\<close>

definition on_cpu :: "nat \<Rightarrow> ('z kcore_scheme, unit) km \<Rightarrow> ('z kcore_scheme, unit) km" where
  "on_cpu c m = kbind (kget cpuid) (\<lambda>me. kdo [
     kmod (\<lambda>s. s\<lparr>cpuid := c\<rparr>), m, kmod (\<lambda>s. s\<lparr>cpuid := me\<rparr>)])"

definition put_word :: "uint \<Rightarrow> uint \<Rightarrow> ('z kmem_scheme, unit) km" where
  "put_word a w = kmod (\<lambda>s. s\<lparr>mem := store32 (mem s) a w\<rparr>)"

definition start_cpu :: "linked \<Rightarrow> nat \<Rightarrow> ('z cstate_scheme, unit) km" where
  "start_cpu L c = kbind cpunum (\<lambda>me. if c = me then kret () else let code = p2v 0x7000 in
     kbind kalloc (\<lambda>stack. kbind (the_hw (\<lambda>h. cpu_ids h c)) (\<lambda>id. kdo [
       put_word (code - 4) ((case stack of None \<Rightarrow> 0 | Some v \<Rightarrow> v) + KSTACKSIZE),
       put_word (code - 8) (l_mpenter L),
       put_word (code - 12) (v2p (l_entrypgdir L)),
       lapicstartap id (v2p code),
       on_cpu c (mpenter L),
       kbind (the_hw (\<lambda>h. cpu_started h c)) (\<lambda>st. if st then kret () else khang ''startothers'')])))"

definition startothers :: "linked \<Rightarrow> ('z cstate_scheme, unit) km" where
  "startothers L = kdo [
     kmod (\<lambda>s. s\<lparr>mem := put_bytes (mem s) (p2v 0x7000) (l_entryother L)\<rparr>),
     kbind (the_hw ncpu) (\<lambda>n. kfor [0..<n] (start_cpu L))]"

text \<open>\<open>main\<close> up to the call of \<open>scheduler\<close>.\<close>

definition main :: "linked \<Rightarrow> ('z fstate_scheme, unit) km" where
  "main L = kdo [
     kbind (kget kend) (\<lambda>e. kinit1 e (p2v (4 * 1024 * 1024))),
     kvmalloc,
     mpinit,
     lapicinit,
     seginit L,
     kbind (kget cpuid) (\<lambda>c. kbind (the_hw (\<lambda>h. cpu_ids h c)) (\<lambda>id.
       cprintf (nl @ ''cpu%d: starting xv6'' @ nl @ nl) [PInt (ucast id)])),
     picinit,
     ioapicinit,
     consoleinit,
     uartinit,
     pinit,
     tvinit L,
     binit,
     fileinit,
     ideinit,
     kbind (the_hw ismp) (\<lambda>mp. if \<not> mp then timerinit else kret ()),
     startothers L,
     kinit2 (p2v (4 * 1024 * 1024)) (p2v PHYSTOP),
     userinit (l_initcode L),
     mpmain]"

text \<open>The page directory of \<open>entry.S\<close>: the first 4 megabytes, at zero and at \<open>KERNBASE\<close>.\<close>

abbreviation (input) PTE_PS :: uint where
  "PTE_PS \<equiv> 0x080"

definition entrypgdir :: "nat \<Rightarrow> uint" where
  "entrypgdir i = (if i = 0 \<or> i = unat (drop_bit 22 KERNBASE) then 0 OR PTE_P OR PTE_W OR PTE_PS else 0)"

section \<open>The boot loader\<close>

text \<open>
  \<open>bootmain.c\<close> runs before the kernel, without page tables: the addresses in \<open>mem\<close> are physical here. The
  result of \<open>bootmain\<close> is the entry point to which it jumps, or \<open>None\<close> when it returns.
\<close>

definition waitdisk :: "('z kcore_scheme, unit) km" where
  "waitdisk = kbind (the_hw (\<lambda>h. portin h 0x1f7)) (\<lambda>rs. kbind (idewait_loop rs) (\<lambda>_. kret ()))"

definition readsect :: "uint \<Rightarrow> uint \<Rightarrow> ('z bstate_scheme, unit) km" where
  "readsect dst offset = kdo [
     waitdisk,
     outb 0x1f2 1,
     outb 0x1f3 (ucast offset),
     outb 0x1f4 (ucast (drop_bit 8 offset)),
     outb 0x1f5 (ucast (drop_bit 16 offset)),
     outb 0x1f6 (ucast (drop_bit 24 offset OR 0xE0)),
     outb 0x1f7 0x20,
     waitdisk,
     kbind insl (\<lambda>d. kmod (\<lambda>s. s\<lparr>mem := put_bytes (mem s) dst d\<rparr>))]"

text \<open>The loop reads sectors until \<open>pa\<close> is at \<open>epa\<close>, which is less than \<open>count + 512\<close> bytes away.\<close>

fun readseg_loop :: "nat \<Rightarrow> uint \<Rightarrow> uint \<Rightarrow> uint \<Rightarrow> ('z bstate_scheme, unit) km" where
  "readseg_loop 0 pa epa offset = khang ''readseg''"
| "readseg_loop (Suc n) pa epa offset = (if \<not> pa < epa then kret ()
     else kthen (readsect pa offset) (readseg_loop n (pa + 512) epa (offset + 1)))"

definition readseg :: "uint \<Rightarrow> uint \<Rightarrow> uint \<Rightarrow> ('z bstate_scheme, unit) km" where
  "readseg pa count offset = readseg_loop (unat count div 512 + 3) (pa - offset mod 512) (pa + count) (offset div 512 + 1)"

definition load_segment :: "uint \<Rightarrow> ('z bstate_scheme, unit) km" where
  "load_segment ph = kbind (kget (\<lambda>s. load32 (mem s) (ph + 12))) (\<lambda>pa. kdo [
     kbind (kget (\<lambda>s. (load32 (mem s) (ph + 16), load32 (mem s) (ph + 4)))) (\<lambda>(filesz, off). readseg pa filesz off),
     kbind (kget (\<lambda>s. (load32 (mem s) (ph + 20), load32 (mem s) (ph + 16)))) (\<lambda>(memsz, filesz).
       if memsz > filesz then kmod (\<lambda>s. s\<lparr>mem := stosb (unat (memsz - filesz)) (mem s) (pa + filesz) 0\<rparr>) else kret ())])"

fun bootmain_loop :: "nat \<Rightarrow> uint \<Rightarrow> uint \<Rightarrow> ('z bstate_scheme, unit) km" where
  "bootmain_loop 0 ph eph = khang ''bootmain''"
| "bootmain_loop (Suc n) ph eph = (if \<not> ph < eph then kret ()
     else kthen (load_segment ph) (bootmain_loop n (ph + 32) eph))"

definition bootmain :: "('z bstate_scheme, uint option) km" where
  "bootmain = kthen (readseg 0x10000 4096 0) (kbind (kget mem) (\<lambda>m.
     if load32 m 0x10000 \<noteq> ELF_MAGIC then kret None
     else let ph = 0x10000 + load32 m (0x10000 + 28); n = unat (load16 m (0x10000 + 44)) in
     kthen (bootmain_loop (Suc n) ph (ph + 32 * of_nat n))
       (kget (\<lambda>s. Some (load32 (mem s) (0x10000 + 24))))))"

section \<open>The walk through the table\<close>

text \<open>The entries of a table in which every type is known, by their addresses.\<close>

definition entry_size :: "u8 \<Rightarrow> uint" where
  "entry_size type = (if type = MPPROC then 20 else 8)"

inductive mp_table :: "bmem \<Rightarrow> uint \<Rightarrow> uint \<Rightarrow> uint list \<Rightarrow> bool" for m where
  mp_end: "\<not> p < e \<Longrightarrow> mp_table m p e []"
| mp_entry: "p < e \<Longrightarrow> m p \<le> MPLINTR \<Longrightarrow> mp_table m (p + entry_size (m p)) e ps \<Longrightarrow> mp_table m p e (p # ps)"

text \<open>The entries for CPUs: their identifiers count up from \<open>n\<close>, and there is a slot for each.\<close>

fun cpus_from :: "bmem \<Rightarrow> nat \<Rightarrow> uint list \<Rightarrow> bool" where
  "cpus_from m n [] \<longleftrightarrow> n \<le> NCPU"
| "cpus_from m n (p # ps) \<longleftrightarrow>
     (if m p = MPPROC then n < NCPU \<and> m (p + 1) = of_nat n \<and> cpus_from m (Suc n) ps else cpus_from m n ps)"

lemma unat_step:
  assumes "p < e" "unat e + 20 \<le> 2 ^ 32" "k = 8 \<or> k = 20"
  shows "unat (p + k :: uint) = unat p + unat k"
proof -
  have "unat p < unat e" using assms(1) by (simp add: word_less_nat_alt)
  moreover have "unat k \<le> 20" using assms(3) by auto
  ultimately show ?thesis using assms(2) by (intro unat_add_lem [THEN iffD1]) simp
qed

text \<open>The number of entries: each has eight bytes or more.\<close>

lemma mp_table_length:
  "mp_table m p e ps \<Longrightarrow> unat e + 20 \<le> 2 ^ 32 \<Longrightarrow> 8 * length ps \<le> unat e - unat p + 7"
proof (induction rule: mp_table.induct)
  case (mp_entry p e ps)
  define k where "k = unat (entry_size (m p))"
  have "unat (p + entry_size (m p)) = unat p + k"
    unfolding k_def by (rule unat_step [OF mp_entry.hyps(1) mp_entry.prems]) (simp add: entry_size_def)
  moreover have "8 \<le> k" by (simp add: k_def entry_size_def)
  moreover have "unat p < unat e" using mp_entry.hyps(1) by (simp add: word_less_nat_alt)
  moreover have "ps = [] \<or> unat p + k < unat e"
    using mp_entry.hyps(3) calculation(1) by (cases rule: mp_table.cases) (auto simp: word_less_nat_alt)
  ultimately show ?case using mp_entry.IH [OF mp_entry.prems] by auto
qed simp

text \<open>On such a table the walk ends, with fuel for one round more than there are entries, and it has counted the CPUs.\<close>

definition only_hw :: "'z cstate_scheme \<Rightarrow> 'z cstate_scheme \<Rightarrow> bool" where
  "only_hw s s' \<longleftrightarrow> (\<exists>h. s' = s\<lparr>devices := h\<rparr>)"

lemma only_hw_step: "only_hw (s\<lparr>devices := h\<rparr>) s' \<Longrightarrow> only_hw s s'"
  by (auto simp: only_hw_def)

lemma only_hw_sel: "only_hw s s' \<Longrightarrow> mem s' = mem s"
  by (auto simp: only_hw_def)

definition ncpus :: "bmem \<Rightarrow> uint list \<Rightarrow> nat" where
  "ncpus m ps = length (filter (\<lambda>p. m p = MPPROC) ps)"

lemma mpproc_entry_run:
  assumes "mem s (p + 1) = of_nat n" "ncpu (devices s) = n" "n < NCPU"
  shows "\<exists>h. mpproc_entry p s = Ret () (s\<lparr>devices := h\<rparr>) \<and> ncpu h = Suc n \<and> cpu_ids h = (cpu_ids (devices s))(n := of_nat n)
    \<and> ismp h = ismp (devices s) \<and> lapic h = lapic (devices s) \<and> portin h = portin (devices s)"
proof -
  have "(ucast (of_nat n :: u8) :: uint) = of_nat n"
    using assms(3) by (intro word_unat_eq_iff [THEN iffD2]) (simp add: NCPU_def unsigned_ucast_eq unat_of_nat take_bit_nat_eq_self)
  then show ?thesis using assms
    by (auto simp: mpproc_entry_def the_hw_def upd_hw_def kmonad)
qed

lemma mpinit_loop_run:
  "mp_table (mem s) p e ps \<Longrightarrow> cpus_from (mem s) n ps \<Longrightarrow> ncpu (devices s) = n \<Longrightarrow> length ps < k \<Longrightarrow>
    \<exists>s'. mpinit_loop k p e s = Ret () s' \<and> only_hw s s' \<and> ncpu (devices s') = n + ncpus (mem s) ps
      \<and> ismp (devices s') = ismp (devices s) \<and> lapic (devices s') = lapic (devices s) \<and> portin (devices s') = portin (devices s)
      \<and> (\<forall>i. cpu_ids (devices s') i = (if n \<le> i \<and> i < n + ncpus (mem s) ps then of_nat i else cpu_ids (devices s) i))"
proof (induction k arbitrary: s p n ps)
  case (Suc k)
  have refl: "only_hw s s" unfolding only_hw_def by (rule exI [of _ "devices s"]) simp
  from Suc.prems(1) show ?case
  proof (cases rule: mp_table.cases)
    case mp_end
    then show ?thesis using Suc.prems(3) refl by (auto simp: kmonad ncpus_def)
  next
    case (mp_entry qs)
    show ?thesis
    proof (cases "mem s p = MPPROC")
      case True
      obtain h where h: "mpproc_entry p s = Ret () (s\<lparr>devices := h\<rparr>)" "ncpu h = Suc n"
        "cpu_ids h = (cpu_ids (devices s))(n := of_nat n)" "ismp h = ismp (devices s)" "lapic h = lapic (devices s)"
        "portin h = portin (devices s)"
        using mpproc_entry_run [of s p n] Suc.prems(2,3) mp_entry(1) True by auto
      have t: "mp_table (mem (s\<lparr>devices := h\<rparr>)) (p + 20) e qs" "cpus_from (mem (s\<lparr>devices := h\<rparr>)) (Suc n) qs"
        "ncpu (devices (s\<lparr>devices := h\<rparr>)) = Suc n" "length qs < k"
        using mp_entry Suc.prems True h(2) by (auto simp: entry_size_def)
      have u: "devices (s\<lparr>devices := h\<rparr>) = h" "mem (s\<lparr>devices := h\<rparr>) = mem s" by simp_all
      from Suc.IH [OF t, unfolded u] obtain s' where s': "mpinit_loop k (p + 20) e (s\<lparr>devices := h\<rparr>) = Ret () s'" "only_hw s s'"
        "ncpu (devices s') = Suc n + ncpus (mem s) qs" "ismp (devices s') = ismp (devices s)" "lapic (devices s') = lapic (devices s)"
        "portin (devices s') = portin (devices s)"
        "\<forall>i. cpu_ids (devices s') i = (if Suc n \<le> i \<and> i < Suc n + ncpus (mem s) qs then of_nat i else cpu_ids h i)"
        unfolding h(4,5,6) using only_hw_step [of h s] by blast
      have c: "ncpus (mem s) ps = Suc (ncpus (mem s) qs)" using mp_entry(1) True by (simp add: ncpus_def)
      have "mpinit_loop (Suc k) p e s = Ret () s'" using True mp_entry(2) h(1) s'(1) by (simp add: kmonad)
      then show ?thesis using s' h(3) unfolding c by (intro exI [of _ s']) auto
    next
      case False
      have c: "ncpus (mem s) ps = ncpus (mem s) qs" "cpus_from (mem s) n qs" using mp_entry(1) False Suc.prems(2) by (auto simp: ncpus_def)
      have t: "mp_table (mem s) (p + 8) e qs" "length qs < k" using mp_entry Suc.prems(4) False by (auto simp: entry_size_def)
      show ?thesis
      proof (cases "mem s p = MPIOAPIC")
        case True
        let ?t = "s\<lparr>devices := (devices s)\<lparr>ioapicid := mem s (p + 1)\<rparr>\<rparr>"
        have "mpinit_loop (Suc k) p e s = mpinit_loop k (p + 8) e ?t"
          using True False mp_entry(2) by (simp add: kmonad upd_hw_def)
        moreover have v: "mp_table (mem ?t) (p + 8) e qs" "cpus_from (mem ?t) n qs" "ncpu (devices ?t) = n" using t c Suc.prems(3) by simp_all
        have u: "mem ?t = mem s" "ismp (devices ?t) = ismp (devices s)" "lapic (devices ?t) = lapic (devices s)"
          "portin (devices ?t) = portin (devices s)" "cpu_ids (devices ?t) = cpu_ids (devices s)" by simp_all
        from Suc.IH [OF v t(2), unfolded u] obtain s' where "mpinit_loop k (p + 8) e ?t = Ret () s'" "only_hw s s'"
          "ncpu (devices s') = n + ncpus (mem s) qs" "ismp (devices s') = ismp (devices s)" "lapic (devices s') = lapic (devices s)"
          "portin (devices s') = portin (devices s)"
          "\<forall>i. cpu_ids (devices s') i = (if n \<le> i \<and> i < n + ncpus (mem s) qs then of_nat i else cpu_ids (devices s) i)"
          using only_hw_step [of "(devices s)\<lparr>ioapicid := mem s (p + 1)\<rparr>" s] by blast
        ultimately show ?thesis unfolding c(1) by (intro exI [of _ s']) simp
      next
        case ioapic: False
        have "unat (mem s p) \<le> 4" using mp_entry(3) by (simp add: MPLINTR_def word_le_nat_alt)
        then have "unat (mem s p) = 0 \<or> unat (mem s p) = 1 \<or> unat (mem s p) = 2 \<or> unat (mem s p) = 3 \<or> unat (mem s p) = 4" by arith
        then have "mem s p = MPBUS \<or> mem s p = MPIOINTR \<or> mem s p = MPLINTR"
          using False ioapic by (auto simp: MPPROC_def MPBUS_def MPIOAPIC_def MPIOINTR_def MPLINTR_def word_unat_eq_iff)
        then have "mpinit_loop (Suc k) p e s = mpinit_loop k (p + 8) e s"
          using ioapic False mp_entry(2) by (simp add: kmonad)
        then show ?thesis using Suc.IH [OF t(1) c(2) Suc.prems(3) t(2)] unfolding c(1) by simp
      qed
    qed
  qed
qed simp

lemma unknown_printed:
  assumes "con_ok s" "\<not> cons_locking s"
  shows "\<exists>s'. cprintf (''mpinit: unknown config type %x'' @ nl) [PInt w] s = Ret () s' \<and> con_ok s' \<and> con_frame s s'"
  by (rule cprintf_run [OF assms]) (simp add: nl_def con_runs_then con_runs_basic)

text \<open>C39. On a table whose entries all have known types and whose CPUs are numbered from zero, with a slot for each,
  \<open>mpinit\<close> returns: the bound on the rounds of its walk is enough. It has found a multiprocessor with as many CPUs as there
  are entries for one, each with its number, and the address of their local APICs.\<close>

theorem mpinit_counts_cpus:
  assumes "mpconfig (mem s) = Some (mp, conf)" "mp_table (mem s) (conf + 44) (conf + ucast (mpconf_length (mem s) conf)) ps"
    "cpus_from (mem s) 0 ps" "unat conf + 2 ^ 17 \<le> 2 ^ 32" "ncpu (devices s) = 0"
    "mp_imcrp (mem s) mp \<noteq> 0 \<Longrightarrow> portin (devices s) 0x23 \<noteq> []"
  shows "\<exists>s'. mpinit s = Ret () s' \<and> ismp (devices s') \<and> ncpu (devices s') = ncpus (mem s) ps
    \<and> lapic (devices s') = mpconf_lapicaddr (mem s) conf \<and> (\<forall>i < ncpus (mem s) ps. cpu_ids (devices s') i = of_nat i)"
proof -
  let ?m = "mem s" and ?e = "conf + ucast (mpconf_length (mem s) conf)"
  define t where "t = s\<lparr>devices := (devices s)\<lparr>bcpu := 0, ismp := True, lapic := mpconf_lapicaddr ?m conf\<rparr>\<rparr>"
  have t: "mem t = ?m" "ncpu (devices t) = 0" "ismp (devices t)" "lapic (devices t) = mpconf_lapicaddr ?m conf"
    "portin (devices t) = portin (devices s)" using assms(5) by (simp_all add: t_def)
  have "unat (mpconf_length ?m conf) < 2 ^ LENGTH(16)" by (rule unsigned_less)
  then have l: "unat (ucast (mpconf_length ?m conf) :: uint) < 2 ^ 16"
    by (simp add: unsigned_ucast_eq order.strict_trans1 [OF take_bit_nat_less_eq_self])
  have e: "unat ?e = unat conf + unat (ucast (mpconf_length ?m conf) :: uint)"
    using l assms(4) by (intro unat_add_lem [THEN iffD1]) simp
  have p: "unat (conf + 44) = unat conf + 44" using assms(4) by (intro unat_add_lem [THEN iffD1, THEN trans]) simp_all
  have "8 * length ps \<le> unat ?e - unat (conf + 44) + 7"
    by (rule mp_table_length [OF assms(2)]) (use e l assms(4) in simp)
  then have n: "length ps < 2 ^ 13 + 1" using e p l by simp
  obtain u where u: "mpinit_loop (2 ^ 13 + 1) (conf + 44) ?e t = Ret () u" "only_hw t u" "ncpu (devices u) = 0 + ncpus ?m ps"
    "ismp (devices u) = ismp (devices t)" "lapic (devices u) = lapic (devices t)" "portin (devices u) = portin (devices t)"
    "\<forall>i. cpu_ids (devices u) i = (if 0 \<le> i \<and> i < 0 + ncpus ?m ps then of_nat i else cpu_ids (devices t) i)"
    using mpinit_loop_run [of t "conf + 44" ?e ps 0 "2 ^ 13 + 1"] assms(2,3) t(2) n unfolding t(1) by blast
  have um: "mem u = ?m" using only_hw_sel [OF u(2)] t(1) by simp
  let ?finish = "kbind (the_hw ismp) (\<lambda>ok. if \<not> ok then upd_hw (\<lambda>h. h\<lparr>ncpu := 1, lapic := 0, ioapicid := 0\<rparr>)
         else kbind (kget (\<lambda>s. mp_imcrp (mem s) mp)) (\<lambda>i. if i = 0 then kret () else kdo [
           outb 0x22 0x70, kbind (inb 0x23) (\<lambda>b. outb 0x23 (b OR 1))]))"
  have "mpinit s = kthen (mpinit_loop (2 ^ 13 + 1) (conf + 44) ?e) (kthen ?finish (kret ())) t"
    using assms(1) by (simp add: mpinit_def upd_hw_def kmonad t_def del: mpinit_loop.simps)
  also have "\<dots> = kthen ?finish (kret ()) u" using u(1) by (simp only: kthen_Ret)
  finally have run: "mpinit s = kthen ?finish (kret ()) u" .
  show ?thesis
  proof (cases "mp_imcrp ?m mp = 0")
    case True
    then have "mpinit s = Ret () u" unfolding run using u(4) t(3) um by (simp add: the_hw_def kmonad)
    then show ?thesis using u t by auto
  next
    case False
    then obtain b bs where b: "portin (devices u) 0x23 = b # bs" using assms(6) u(6) t(5) by (cases "portin (devices s) 0x23") auto
    have "\<exists>h. mpinit s = Ret () (u\<lparr>devices := h\<rparr>) \<and> ismp h = ismp (devices u) \<and> ncpu h = ncpu (devices u)
        \<and> lapic h = lapic (devices u) \<and> cpu_ids h = cpu_ids (devices u)"
      unfolding run using False b u(4) t(3) um
      by (intro exI [of _ "(devices u)\<lparr>portin := (portin (devices u))(0x23 := bs),
           ports := (0x23, b OR 1) # (0x22, 0x70) # ports (devices u)\<rparr>"]) (simp add: the_hw_def upd_hw_def outb_def inb_def kmonad)
    then show ?thesis using u t by auto
  qed
qed


text \<open>Tables for the witnesses: two CPUs, a bus and an I/O APIC, and a table with an entry of type 7.\<close>

definition mp_demo_float :: "(uint \<times> u8) list" where
  "mp_demo_float = [(256, 95), (257, 77), (258, 80), (259, 95), (261, 2), (264, 1), (265, 4), (266, 158)]"

definition mp_demo_mem :: "(uint \<times> u8) list \<Rightarrow> bmem" where
  "mp_demo_mem tab a = (let i = a - KERNBASE in
     if 0x208 \<le> i \<and> i < 0x226 then 0
     else case map_of (if i < 0x200 then mp_demo_float else tab) i of None \<Rightarrow> 0 | Some b \<Rightarrow> b)"

definition mp_demo_good :: bmem where
  "mp_demo_good = mp_demo_mem ([(0x40E, 0x10), (512, 80), (513, 67), (514, 77), (515, 80), (516, 100), (518, 1), (519, 131), (550, 224), (551, 254), (559, 3), (577, 1), (579, 1), (596, 1), (604, 2), (605, 2)])"

definition mp_demo_bad :: bmem where
  "mp_demo_bad = mp_demo_mem ([(0x40E, 0x10), (512, 80), (513, 67), (514, 77), (515, 80), (516, 52), (518, 1), (519, 182), (550, 224), (551, 254), (556, 7)])"

lemma mp_demo_config:
  "mpconfig mp_demo_good = Some (KERNBASE + 0x100, KERNBASE + 0x200)"
  "mpconfig mp_demo_bad = Some (KERNBASE + 0x100, KERNBASE + 0x200)"
  by code_simp+

lemma mp_demo_walk:
  "mp_table mp_demo_good (KERNBASE + 0x200 + 44) (KERNBASE + 0x200 + ucast (mpconf_length mp_demo_good (KERNBASE + 0x200)))
     [KERNBASE + 0x22c, KERNBASE + 0x240, KERNBASE + 0x254, KERNBASE + 0x25c]"
  "cpus_from mp_demo_good 0 [KERNBASE + 0x22c, KERNBASE + 0x240, KERNBASE + 0x254, KERNBASE + 0x25c]"
  "ncpus mp_demo_good [KERNBASE + 0x22c, KERNBASE + 0x240, KERNBASE + 0x254, KERNBASE + 0x25c] = 2"
proof -
  have len: "mpconf_length mp_demo_good (KERNBASE + 0x200) = 100"
    by (simp add: mpconf_length_def load16_def mp_demo_good_def mp_demo_mem_def)
  have ty: "mp_demo_good (KERNBASE + 0x22c) = 0" "mp_demo_good (KERNBASE + 0x240) = 0" "mp_demo_good (KERNBASE + 0x254) = 1"
    "mp_demo_good (KERNBASE + 0x25c) = 2" "mp_demo_good (KERNBASE + 0x22d) = 0" "mp_demo_good (KERNBASE + 0x241) = 1"
    by (simp_all add: mp_demo_good_def mp_demo_mem_def)
  show "mp_table mp_demo_good (KERNBASE + 0x200 + 44) (KERNBASE + 0x200 + ucast (mpconf_length mp_demo_good (KERNBASE + 0x200)))
     [KERNBASE + 0x22c, KERNBASE + 0x240, KERNBASE + 0x254, KERNBASE + 0x25c]"
    unfolding len using ty by (auto intro!: mp_table.intros simp: KERNBASE_def entry_size_def MPPROC_def MPLINTR_def)
  show "cpus_from mp_demo_good 0 [KERNBASE + 0x22c, KERNBASE + 0x240, KERNBASE + 0x254, KERNBASE + 0x25c]"
    "ncpus mp_demo_good [KERNBASE + 0x22c, KERNBASE + 0x240, KERNBASE + 0x254, KERNBASE + 0x25c] = 2"
    using ty by (simp_all add: ncpus_def MPPROC_def NCPU_def KERNBASE_def)
qed

definition boot_demo :: "bmem \<Rightarrow> cstate" where
  "boot_demo m = cons_demo\<lparr>mem := m, devices := boot_hw, cons_locking := False\<rparr>"

lemma boot_demo_sel: "mem (boot_demo m) = m" "devices (boot_demo m) = boot_hw" "\<not> cons_locking (boot_demo m)" "con_ok (boot_demo m)"
  using cons_demo_pos by (simp_all add: boot_demo_def con_ok_def) (simp add: cons_demo_def istate.defs cstate.defs)

theorem mpinit_counts_cpus_witness:
  "\<exists>s'. mpinit (boot_demo mp_demo_good) = Ret () s' \<and> ismp (devices s') \<and> ncpu (devices s') = 2"
proof -
  have "mp_imcrp mp_demo_good (KERNBASE + 0x100) = 0" by (simp add: mp_imcrp_def mp_demo_good_def mp_demo_mem_def mp_demo_float_def)
  moreover have "unat (KERNBASE + 0x200) + 2 ^ 17 \<le> 2 ^ 32" by (simp add: KERNBASE_def)
  moreover have "ncpu boot_hw = 0" by (simp add: boot_hw_def)
  ultimately show ?thesis
    using mpinit_counts_cpus [of "boot_demo mp_demo_good", unfolded boot_demo_sel, OF mp_demo_config(1) mp_demo_walk(1,2)]
    by (auto simp: mp_demo_walk(3))
qed


end
