(* ===== verification/Spec2Isabelle.thy ===== *)
theory Spec2Isabelle
  imports Shell Umalloc Boot
begin

text \<open>
  A verification development of an xv6 kernel for the x86 with a multi-level feedback scheduler, of its
  file system, and of the programs that run on it.

  \<^bold>\<open>The program.\<close> The kernel runs on several CPUs. Spin locks protect its data. Pages come from an
  allocator, and page tables built from such pages give each process its memory. The process table keeps
  every process on one of four linked lists: three ready lists, one for each priority, and a free list. The
  scheduler of each CPU takes the first process of the best non-empty ready list; after a number of
  dispatches, \<open>TimeToReset\<close>, all priorities go back to the middle one. The file system is a stack: the
  disk, the buffer cache, the write-ahead log, the block allocator and inodes, the contents of files and
  directories, and open files, which may also be pipes or the console. System calls check their arguments
  and call into these layers. User programs, the shell among them, see only the system calls. Below all this are the devices:
  interrupt controllers, timers and the disk controller, which the kernel programs through ports and registers, and the code that
  finds the CPUs and starts the kernel on them.

  \<^bold>\<open>How code is modelled.\<close> A routine of the kernel is a function from the state of the kernel to an
  \<open>outcome\<close>: it returns a value and a new state, it gives up the CPU inside \<open>sleep\<close> (\<open>Sleeps\<close>), or
  the kernel stops, by \<open>panic\<close>, at an access without a meaning in C, or in a loop without end. The code
  behind a \<open>sleep\<close> is a definition of its own. The state is a record that each layer extends with its own
  fields: \<open>kcore\<close> (locks, CPUs and \<open>hardware\<close>, the devices), \<open>kmem\<close> (byte memory and free pages), \<open>ptable\<close> (processes),
  \<open>pstate\<close> (pipes), \<open>bstate\<close> (buffers and disk), \<open>lstate\<close> (log), \<open>istate\<close> (inodes), \<open>cstate\<close>
  (console), \<open>fstate\<close> (open files). A lemma on a layer therefore holds for the states of all layers above it.
  A pointer is the index or the address of its target, the null pointer is \<open>None\<close>. Machine integers
  are words of their width. A program of the user level is the tree of its system calls (\<open>uprog\<close>), and \<open>run\<close>
  executes it against any function that answers the calls.

  \<^bold>\<open>Theories, sources and results.\<close>
  \<^item> \<open>Kernel_Prelude\<close>: machine types, outcomes and their combinators, linked chains.
  \<^item> \<open>Hardware\<close>, \<open>Devices\<close> (\<open>mmu.h\<close>, \<open>x86.h\<close>, \<open>picirq.c\<close>, \<open>ioapic.c\<close>, \<open>timer.c\<close>, \<open>lapic.c\<close>):
    descriptors, ports and the programming of the interrupt controllers.
  \<^item> \<open>Spinlock\<close> (\<open>spinlock.c\<close>): the routines as written, and the same code cut at its accesses to
    shared memory and interleaved over the CPUs. At most one CPU holds a lock, interrupts are off while one is
    held, and the owner map that the other theories use is refined by the lock words.
  \<^item> \<open>CString\<close> (\<open>string.c\<close>): each routine on byte memory, overlapping blocks included.
  \<^item> \<open>Kalloc\<close> (\<open>kalloc.c\<close>): the free list inside the free pages is a stack; \<open>freerange\<close> gives
    each page once.
  \<^item> \<open>Proc_Table\<close>, \<open>Scheduler\<close>, \<open>Sched_Machine\<close> (\<open>proc.c\<close>): the routines on the linked
    lists act as list operations; each routine of the scheduler keeps every process on the list its state and
    priority ask for; the interleaving of the CPUs keeps this and the running processes; wakeups are not lost;
    a runnable process is dispatched after a bounded number of dispatches. Two behaviours that break the intention of the
    code are proved as such: \<open>setpriority\<close> on a runnable process, and \<open>kill(0)\<close>.
  \<^item> \<open>Vm\<close> (\<open>vm.c\<close>): \<open>mappages\<close>, \<open>allocuvm\<close> and \<open>freevm\<close> change exactly the entries
    they should; a failure that \<open>allocuvm\<close> does not report is proved as such.
  \<^item> \<open>Pipe\<close> (\<open>pipe.c\<close>): bytes come out as they went in, across the wrap of the counters.
  \<^item> \<open>Bio\<close> (\<open>bio.c\<close>, \<open>memide.c\<close>): a block has at most one buffer, \<open>bread\<close> delivers the
    contents, \<open>bwrite\<close> changes the disk; the disk is its first image and the sequence of writes.
  \<^item> \<open>Ide\<close> (\<open>ide.c\<close>): the driver of the disk controller serves its queue in order, and each request ends as on the
    memory disk, so that what is shown above the buffer cache holds for it too; that the interrupt hides a read error is proved as such.
  \<^item> \<open>Log\<close> (\<open>log.c\<close>): after a power failure at any write of a commit, recovery restores all or
    none of the transaction, and recovery itself can be interrupted and restarted.
  \<^item> \<open>Inode\<close>, \<open>Fs\<close>, \<open>File\<close> (\<open>fs.c\<close>, \<open>file.c\<close>): the block allocator, the inode
    cache with one entry for each inode, contents, directories, path names (cut into elements as intended)
    and open files.
  \<^item> \<open>Console\<close> (\<open>console.c\<close>, \<open>uart.c\<close>, \<open>kbd.c\<close>): output stays on the screen.
  \<^item> \<open>Process\<close>, \<open>Syscall\<close> (\<open>proc.c\<close>, \<open>exec.c\<close>, \<open>syscall.c\<close>, \<open>sysproc.c\<close>,
    \<open>sysfile.c\<close>, \<open>trap.c\<close>): the life of processes, system calls and traps; pointers that pass the checks
    of the arguments lie in the memory of the caller.
  \<^item> \<open>Boot\<close> (\<open>mp.c\<close>, \<open>main.c\<close>, \<open>bootmain.c\<close>, and \<open>tvinit\<close>, \<open>idtinit\<close>, \<open>seginit\<close>): the walk through the
    tables of the BIOS counts the CPUs and ends; at an entry of an unknown type it does not end, which is proved as such.
  \<^item> \<open>User_Prog\<close>, \<open>User_Tools\<close>, \<open>Shell\<close>, \<open>Umalloc\<close> (\<open>ulib.c\<close>, \<open>printf.c\<close>, the
    programs, \<open>sh.c\<close>, \<open>umalloc.c\<close>): the matcher of \<open>grep\<close> accepts exactly the language of its
    pattern, its line buffer loses a partial line; the parser of the shell ends on every line, builds well-formed
    commands and reads back what an abstract command prints; the heap hands out disjoint blocks.

  \<^bold>\<open>Interfaces.\<close> \<open>lock_api\<close> is the contract of locks, interpreted by the owner map (\<open>klock\<close>).
  \<open>free_store\<close> is a stack of free nodes, interpreted by the pages (\<open>pages\<close>) and by the free processes
  (\<open>slots\<close>). \<open>ready_queue\<close> is the contract of the ready lists (\<open>readyq\<close>). \<open>ring\<close> is a buffer with
  free-running counters (\<open>pipe_ring\<close>).

  \<^bold>\<open>Bounds.\<close> Loops over page addresses run at most \<open>2 ^ 20\<close> rounds: there are no more
  pages, and a run past them would go round for ever. Walks along a list of processes run at most
  \<open>NPROC + 1\<close> rounds, more than a list without a cycle has. Running out of one of these is the outcome
  \<open>Hang\<close>, and the theorems show that it does not happen. The parser of the shell starts with a bound of
  four times the length of the line, plus four, on its nesting, which is proved to be enough. The walk of \<open>mpinit\<close> gets
  \<open>2 ^ 13 + 1\<close> rounds, proved to be enough for the entries of at least eight bytes in a table of less than \<open>2 ^ 16\<close>. A wait for
  a device lasts as long as its readings, a parameter, are not the awaited one. The
  search of \<open>malloc\<close> is proved to end within twice the number of free blocks, plus one. Loops of user programs that last as
  long as the kernel answers take a bound on their rounds; the theorems say how large it has to be.

  \<^bold>\<open>Not modelled.\<close>
  \<^item> Assembly (\<open>bootasm.S\<close>, \<open>entry.S\<close>, \<open>entryother.S\<close>, \<open>swtch.S\<close>, \<open>trapasm.S\<close>, \<open>vectors.S\<close>, \<open>initcode.S\<close>): it
    saves, restores and sets machine registers. A context switch is the outcome \<open>Sleeps\<close> followed by a run of the code
    behind it. The addresses and images that the linker provides are a parameter of \<open>Boot\<close>.
  \<^item> \<open>mkfs.c\<close> runs on the host and builds the image, a parameter of the model. \<open>usertests.c\<close> is a test
    program. \<open>sh-old.c\<close> is an earlier copy of the shell that is not built.
  \<^item> Two effects without a reader in the model: the wait of \<open>uartputc\<close> for the transmitter, and the warning that \<open>cpunum\<close>
    prints when it is called with interrupts enabled.
\<close>

end
